(* ===== verification/Prelude.thy ===== *)
theory Prelude
  imports Complex_Main "HOL-Library.Word" "HOL-Library.Signed_Division"
begin

text \<open>
  Shared vocabulary of the development: the Go integer types as machine words, the signed
  reading of a 64-bit word, Go's truncating division, values of functions that may panic, and
  the generic facts on words and lists that every component uses.

  A Go \<open>int64\<close> and a Go \<open>uint64\<close> are both a \<open>64 word\<close>; which one is meant shows in the
  operations: \<open>sint\<close>, \<open><s\<close>, \<open>\<le>s\<close> read a word as two's complement, \<open>uint\<close>, \<open><\<close>, \<open>\<le>\<close>
  as unsigned, and \<open>+\<close>, \<open>-\<close>, \<open>*\<close> wrap for both, as in Go.
\<close>

unbundle bit_operations_syntax

type_synonym u8 = "8 word"
type_synonym u16 = "16 word"
type_synonym u32 = "32 word"
type_synonym u64 = "64 word"
type_synonym i8 = "8 word"
type_synonym i32 = "32 word"
type_synonym i64 = "64 word"

text \<open>A call that either returns or panics. A Go panic is not an error result.\<close>

datatype 'a outcome = Ret 'a | Panic

named_theorems go_signed \<open>signed comparisons of words as comparisons of integers\<close>
named_theorems go_exact \<open>word arithmetic that does not wrap, read as integers\<close>

subsection \<open>Signed reading of 64-bit words\<close>

abbreviation MaxInt64 :: i64 where "MaxInt64 \<equiv> 0x7FFFFFFFFFFFFFFF"
abbreviation MinInt64 :: i64 where "MinInt64 \<equiv> 0x8000000000000000"
abbreviation MaxUint64 :: u64 where "MaxUint64 \<equiv> 0xFFFFFFFFFFFFFFFF"

definition in_i64 :: "int \<Rightarrow> bool" where
  "in_i64 x \<longleftrightarrow> - (2 ^ 63) \<le> x \<and> x < 2 ^ 63"

lemma sle_sint [go_signed]: "a \<le>s b \<longleftrightarrow> sint a \<le> sint b"
  by (fact word_sle_eq)

lemma sless_sint [go_signed]: "a <s b \<longleftrightarrow> sint a < sint b"
  by (fact word_sless_alt)

lemma sint64_ge: "- (2 ^ 63) \<le> sint (a :: i64)"
  using sint_ge [of a] by simp

lemma sint64_lt: "sint (a :: i64) < 2 ^ 63"
  using sint_lt [of a] by simp

lemma in_i64_sint [simp, intro]: "in_i64 (sint (a :: i64))"
  by (simp add: in_i64_def sint64_lt [simplified] sint64_ge [simplified])

lemma in_i64_iff: "in_i64 x \<longleftrightarrow> - 9223372036854775808 \<le> x \<and> x < 9223372036854775808"
  by (simp add: in_i64_def)

lemma in_i64_between: "in_i64 a \<Longrightarrow> in_i64 c \<Longrightarrow> a \<le> b \<Longrightarrow> b \<le> c \<Longrightarrow> in_i64 b"
  by (simp add: in_i64_def)

lemma sint_of_int64: "in_i64 x \<Longrightarrow> sint (word_of_int x :: i64) = x"
  by (simp add: sint_sbintrunc' in_i64_def signed_take_bit_int_eq_self)

lemma sint_MaxInt64 [simp]: "sint MaxInt64 = 2 ^ 63 - 1"
  by simp

lemma sint_MinInt64 [simp]: "sint MinInt64 = - (2 ^ 63)"
  by simp

lemma sint_eqI: "sint (a :: i64) = sint b \<Longrightarrow> a = b"
  by (simp add: signed_word_eqI)

lemma sint_eq_iff64: "(a :: i64) = b \<longleftrightarrow> sint a = sint b"
  by (auto intro: sint_eqI)

lemma sint_add_exact [go_exact]:
  "in_i64 (sint a + sint b) \<Longrightarrow> sint ((a :: i64) + b) = sint a + sint b"
  by (simp add: sint_word_ariths in_i64_def signed_take_bit_int_eq_self)

lemma sint_sub_exact [go_exact]:
  "in_i64 (sint a - sint b) \<Longrightarrow> sint ((a :: i64) - b) = sint a - sint b"
  by (simp add: sint_word_ariths in_i64_def signed_take_bit_int_eq_self)

lemma sint_mult_exact [go_exact]:
  "in_i64 (sint a * sint b) \<Longrightarrow> sint ((a :: i64) * b) = sint a * sint b"
  by (simp add: sint_word_ariths in_i64_def signed_take_bit_int_eq_self)

lemma sint_neg_exact [go_exact]:
  "in_i64 (- sint a) \<Longrightarrow> sint (- (a :: i64)) = - sint a"
  by (simp add: sint_word_ariths in_i64_def signed_take_bit_int_eq_self)

text \<open>Unsigned and signed readings agree below the sign bit.\<close>

lemma uint64_lt: "uint (a :: u64) < 2 ^ 64"
  using unsigned_less [of a, where ?'a = int] by simp

lemma uint64_ge: "0 \<le> uint (a :: u64)"
  by simp

lemma sint_eq_uint64:
  assumes "uint (a :: u64) < 2 ^ 63"
  shows "sint a = uint a"
proof -
  have "- (2 ^ 63) \<le> uint a"
    by (rule order_trans [OF _ uint64_ge]) simp
  with assms show ?thesis
    by (simp add: sint_uint signed_take_bit_int_eq_self)
qed

lemma uint_eq_sint64: "0 \<le> sint (a :: i64) \<Longrightarrow> uint a = sint a"
proof -
  assume "0 \<le> sint a"
  moreover have "sint a < 2 ^ 64"
    using sint64_lt [of a] by (simp add: order_less_trans)
  ultimately show ?thesis
    by (simp add: uint_sint take_bit_int_eq_self)
qed

lemma uint_neg_sint64: "sint (a :: i64) < 0 \<Longrightarrow> uint a = sint a + 2 ^ 64"
proof -
  assume neg: "sint a < 0"
  have "uint a = sint a mod 2 ^ 64"
    by (simp add: uint_sint take_bit_eq_mod)
  also have "\<dots> = (sint a + 2 ^ 64) mod 2 ^ 64"
    by simp
  also have "\<dots> = sint a + 2 ^ 64"
    using neg sint64_ge [of a] by (intro mod_pos_pos_trivial) simp_all
  finally show ?thesis .
qed

lemma uint_sub_exact: "b \<le> a \<Longrightarrow> uint ((a :: u64) - b) = uint a - uint b"
  by (simp add: uint_sub_if_size word_le_def)

lemma uint_add_exact: "uint a + uint b < 2 ^ 64 \<Longrightarrow> uint ((a :: u64) + b) = uint a + uint b"
  by (simp add: uint_word_ariths)

lemma uint_MaxUint64_sub: "uint (MaxUint64 - (b :: u64)) = 2 ^ 64 - 1 - uint b"
proof -
  have "b \<le> MaxUint64"
    using uint64_lt [of b] by (simp add: word_le_def)
  then show ?thesis by (simp add: uint_sub_exact)
qed

lemma sint_0_iff64: "sint (a :: i64) = 0 \<longleftrightarrow> a = 0"
  using sint_eq_iff64 [of a 0] by simp

text \<open>Wrapped subtraction of signed words, read as unsigned: the distance, when ordered.\<close>

lemma uint_sub_signed:
  assumes "sint (b :: i64) \<le> sint a"
  shows "uint (a - b) = sint a - sint b"
proof -
  have "uint (a - b) = (sint a - sint b) mod 2 ^ 64"
    by (simp add: uint_word_ariths(2) uint_sint [of a] uint_sint [of b] take_bit_eq_mod mod_diff_eq)
  also have "\<dots> = sint a - sint b"
    using assms sint64_lt [of a] sint64_ge [of b] by (intro mod_pos_pos_trivial) simp_all
  finally show ?thesis .
qed

subsection \<open>Go's truncating division and remainder on int64\<close>

text \<open>
  \<open>a / b\<close> and \<open>a % b\<close> round towards zero; the quotient of \<open>MinInt64\<close> by \<open>-1\<close> wraps to
  \<open>MinInt64\<close>. Division by zero panics and is modelled where it can occur.
\<close>

definition go_quot :: "i64 \<Rightarrow> i64 \<Rightarrow> i64" where
  "go_quot a b = word_of_int (sint a sdiv sint b)"

definition go_rem :: "i64 \<Rightarrow> i64 \<Rightarrow> i64" where
  "go_rem a b = word_of_int (sint a smod sint b)"

lemma sdiv_half: "(x :: int) sdiv 2 = (if 0 \<le> x then x div 2 else - ((- x) div 2))"
  by (simp add: signed_divide_int_def sgn_if)

lemma sint_go_quot2: "sint (go_quot a 2) = sint a sdiv 2"
  unfolding go_quot_def
  by (subst sint_of_int64)
    (use sint64_ge [of a] sint64_lt [of a] in \<open>auto simp: in_i64_def sdiv_half\<close>)

lemma le_zdiv_iff: "0 < b \<Longrightarrow> (k :: int) \<le> a div b \<longleftrightarrow> k * b \<le> a"
proof
  assume b: "0 < b" and "k \<le> a div b"
  then have "k * b \<le> a div b * b"
    by (simp add: mult_right_mono)
  also have "\<dots> \<le> a"
    using pos_mod_sign [OF b, of a] by (simp add: minus_mod_eq_div_mult [symmetric])
  finally show "k * b \<le> a" .
next
  assume b: "0 < b" and "k * b \<le> a"
  then have "k * b div b \<le> a div b"
    by (intro zdiv_mono1) simp_all
  with b show "k \<le> a div b" by simp
qed

subsection \<open>Lists\<close>

lemma length_concat_const: "(\<And>x. x \<in> set xs \<Longrightarrow> length (f x) = n) \<Longrightarrow>
    length (concat (map f xs)) = n * length xs"
  by (induction xs) auto

lemma filter_split_length: "length (filter P xs) + length (filter (\<lambda>x. \<not> P x) xs) = length xs"
  by (induction xs) auto

end
