(* ===== verification/CoreTypes.thy ===== *)
theory CoreTypes
  imports Prelude
begin

text \<open>
  The semantic types of package core (\<open>core/types.go\<close>): counters and instants as 64-bit words,
  the status machine's states and reasons, decisions, API errors, the closed time interval and
  the two views served to clients; and the error values of all packages, with Go's error
  wrapping (\<open>fmt.Errorf\<close> with \<open>%w\<close>, \<open>errors.Join\<close>) and \<open>errors.Is\<close>.
\<close>

subsection \<open>Scalar types\<close>

type_synonym RawNanos = u64
type_synonym GstInstant = i64
type_synonym DurationNs = i64
type_synonym PhaseNs = i64
type_synonym ErrorNs = u64
type_synonym Generation = u64
type_synonym FaultDomainID = string
type_synonym UnixNanos = i64

type_synonym bytes = "u8 list"

definition ErrorInfinity :: ErrorNs where "ErrorInfinity = MaxUint64"

definition MaxAssuranceWidthDefault :: i64 where "MaxAssuranceWidthDefault = 32 * 1000000000"
definition PublicEpsilonCapDefault :: ErrorNs where "PublicEpsilonCapDefault = 16 * 1000000000"

subsection \<open>Statuses, reasons, decisions\<close>

datatype SyncStatus = StatusUnanchored | StatusSynced | StatusHoldover | StatusDesync

fun SyncStatus_String :: "SyncStatus \<Rightarrow> string" where
  "SyncStatus_String StatusUnanchored = ''UNANCHORED''"
| "SyncStatus_String StatusSynced = ''SYNCED''"
| "SyncStatus_String StatusHoldover = ''HOLDOVER''"
| "SyncStatus_String StatusDesync = ''DESYNC''"

datatype StatusReason =
    ReasonNone | ReasonNoEligibleDomains | ReasonInsufficientDomains
  | ReasonRequiredSourceMissing | ReasonEmptyCoverageSet | ReasonDomainInconsistent
  | ReasonAssuranceConflict | ReasonRawDiscontinuity | ReasonRawBoundExpired
  | ReasonRawScaleInvalid | ReasonLeapHistoryMismatch | ReasonConfigurationChanged
  | ReasonBoundTooWide | ReasonBoundTooOld | ReasonArithmeticOverflow
  | ReasonPublicBoundTooWide | ReasonPublicationInvariant | ReasonAuthenticationPolicy
  | ReasonOperatorInvalidation | ReasonUnset
  \<comment> \<open>\<open>ReasonUnset\<close> is the zero value of the Go string type, the empty string\<close>

datatype Decision = CertainYes | CertainNo | Unknown

fun Decision_String :: "Decision \<Rightarrow> string" where
  "Decision_String CertainYes = ''CertainYes''"
| "Decision_String CertainNo = ''CertainNo''"
| "Decision_String Unknown = ''Unknown''"

subsection \<open>Errors\<close>

datatype ApiError =
    ErrUnanchored | ErrDesynchronized | ErrBoundExpired | ErrRawFault | ErrLeapHistoryMismatch
  | ErrConfigurationMismatch | ErrPublicationUnavailable | ErrArithmeticFault | ErrCancelled
  | ErrDeadlineExceeded

fun ApiError_Error :: "ApiError \<Rightarrow> string" where
  "ApiError_Error ErrUnanchored = ''Unanchored''"
| "ApiError_Error ErrDesynchronized = ''Desynchronized''"
| "ApiError_Error ErrBoundExpired = ''BoundExpired''"
| "ApiError_Error ErrRawFault = ''RawFault''"
| "ApiError_Error ErrLeapHistoryMismatch = ''LeapHistoryMismatch''"
| "ApiError_Error ErrConfigurationMismatch = ''ConfigurationMismatch''"
| "ApiError_Error ErrPublicationUnavailable = ''PublicationUnavailable''"
| "ApiError_Error ErrArithmeticFault = ''ArithmeticFault''"
| "ApiError_Error ErrCancelled = ''Cancelled''"
| "ApiError_Error ErrDeadlineExceeded = ''DeadlineExceeded''"

text \<open>
  One constructor for each sentinel error of the repository; \<open>Err\<close> is an anonymous
  \<open>errors.New\<close> (or a \<open>fmt.Errorf\<close> that wraps nothing), \<open>Wrap\<close> a \<open>fmt.Errorf\<close> with \<open>%w\<close>,
  \<open>Join\<close> the result of \<open>errors.Join\<close> on the errors that are not nil.
\<close>

datatype (plugins only: code size) go_error =
    ErrOverflow | ErrInvalidRange | ErrSingularRate
  | Api ApiError
  | ErrInvalidLeapMagic | ErrUnsortedLeapTransitions | ErrDuplicateLeapTransition
  | ErrInvalidLeapDelta | ErrReservedBytesNonzero | ErrInvalidSecondOfDay
  | ErrRawEarlierThanAnchor | ErrAnchorExpired | ErrContinuityTokenMismatch
  | ErrAssuranceConflict | ErrBoundTooWide
  | ErrInsufficientDomains | ErrEmptyCoverageSet
  | ErrGuardScaleInvalid | ErrGuardAnchorDisordered | ErrGuardGenerationNotMono
  | ErrGuardStatusDisagreement
  | ErrInvalidConfig
  | ErrMalformedExtension | ErrPacketTooShort | ErrEraAmbiguous
  | ErrNonChronologicalTimes | ErrServerTimeReversal | ErrRootDistanceExceeded
  | ErrRecordTooShort | ErrRecordCapExceeded | ErrUnknownCritical | ErrWarningEncountered
  | ErrMissingEndOfMessage | ErrNtsKeFailed | ErrUnsupportedAead
  | ErrInvalidCookie | ErrPacketTooLarge
  | ErrAuthFailed | ErrMissingUniqueID | ErrUniqueIDMismatch | ErrMissingAuthenticator
  | ErrAuthNotLast | ErrCookieStarvation
  | ErrInvalidKeySize
  | Err string
  | Wrap string go_error
  | Join "go_error list"

text \<open>\<open>errors.Is\<close>: the error itself, or any error it wraps or joins.\<close>

fun errors_Is :: "go_error \<Rightarrow> go_error \<Rightarrow> bool" where
  "errors_Is (Wrap s e) t \<longleftrightarrow> Wrap s e = t \<or> errors_Is e t"
| "errors_Is (Join es) t \<longleftrightarrow> Join es = t \<or> (\<exists>e \<in> set es. errors_Is e t)"
| "errors_Is e t \<longleftrightarrow> e = t"

text \<open>\<open>errors.Join\<close> of two possibly nil errors, given as options.\<close>

fun errors_Join :: "go_error option \<Rightarrow> go_error option \<Rightarrow> go_error option" where
  "errors_Join None None = None"
| "errors_Join (Some a) None = Some (Join [a])"
| "errors_Join None (Some b) = Some (Join [b])"
| "errors_Join (Some a) (Some b) = Some (Join [a, b])"

lemma errors_Join_None_iff [simp]: "errors_Join a b = None \<longleftrightarrow> a = None \<and> b = None"
  by (cases a; cases b) auto

lemma errors_Is_Join_left: "errors_Is a t \<Longrightarrow> errors_Join (Some a) b = Some e \<Longrightarrow> errors_Is e t"
  by (cases b) auto

lemma errors_Is_refl [simp]: "errors_Is e e"
  by (cases e) auto

subsection \<open>Intervals and client views\<close>

record TimeInterval =
  Earliest :: GstInstant
  Latest :: GstInstant

abbreviation interval :: "GstInstant \<Rightarrow> GstInstant \<Rightarrow> TimeInterval" where
  "interval lo hi \<equiv> \<lparr>Earliest = lo, Latest = hi\<rparr>"

text \<open>The set of instants (integers) a closed interval stands for.\<close>

definition contains :: "TimeInterval \<Rightarrow> int \<Rightarrow> bool" where
  "contains I t \<longleftrightarrow> sint (Earliest I) \<le> t \<and> t \<le> sint (Latest I)"

definition ordered :: "TimeInterval \<Rightarrow> bool" where
  "ordered I \<longleftrightarrow> sint (Earliest I) \<le> sint (Latest I)"

lemma contains_interval [simp]: "contains (interval a b) t \<longleftrightarrow> sint a \<le> t \<and> t \<le> sint b"
  by (simp add: contains_def)

lemma contains_ordered: "contains I t \<Longrightarrow> ordered I"
  by (simp add: contains_def ordered_def)

record AssuredNow =
  an_Interval :: TimeInterval
  an_HasInterval :: bool
  an_Estimate :: GstInstant
  an_HasEstimate :: bool
  an_SymmetricEpsilon :: ErrorNs
  an_HasSymmetricEpsilon :: bool
  an_Status :: SyncStatus
  an_Reason :: StatusReason
  an_AssuranceGeneration :: Generation
  an_MappingGeneration :: Generation
  an_AssuranceEpochID :: bytes
  an_LeapHistoryID :: bytes
  an_ConfigID :: bytes
  an_FaultBudget :: u32
  an_EligibleDomains :: u32
  an_Age :: DurationNs

record PublicAssuredNow =
  pn_Center :: GstInstant
  pn_Interval :: TimeInterval
  pn_HasInterval :: bool
  pn_PublicSymmetricEpsilon :: ErrorNs
  pn_Status :: SyncStatus
  pn_Reason :: StatusReason

end
