(* ===== verification/FixedPoint.thy ===== *)
theory FixedPoint
  imports CoreTypes
begin

text \<open>
  The Q16.48 fixed-point arithmetic of \<open>core/fixedpoint.go\<close>: the exact signed 128-bit product,
  the overflow test on its high word, the products rounded towards minus and plus infinity, the
  128-by-64 division with its panic, and floor and ceiling division.

  The lemmas read every routine as integer arithmetic: the product is exact, the floor product
  is the floor of the rational product exactly when that floor fits in an int64, and an error
  is returned in every other case.
\<close>

type_synonym RateFrac = i64
type_synonym RateScale = i64

definition OneQ48 :: RateFrac where "OneQ48 = push_bit 48 1"

lemma OneQ48_eq: "OneQ48 = 281474976710656"
  by (simp add: OneQ48_def push_bit_eq_mult)

lemma sint_OneQ48: "sint OneQ48 = 2 ^ 48"
  by (simp add: OneQ48_eq)

subsection \<open>Definitions\<close>

text \<open>\<open>bits.Mul64\<close> and \<open>bits.Div64\<close> of the standard library.\<close>

definition bits_Mul64 :: "u64 \<Rightarrow> u64 \<Rightarrow> u64 \<times> u64" where
  "bits_Mul64 x y =
     (word_of_int (uint x * uint y div 2 ^ 64), word_of_int (uint x * uint y mod 2 ^ 64))"

definition bits_Div64 :: "u64 \<Rightarrow> u64 \<Rightarrow> u64 \<Rightarrow> (u64 \<times> u64) outcome" where
  "bits_Div64 hi lo y =
     (if y = 0 \<or> y \<le> hi then Panic
      else let x = uint hi * 2 ^ 64 + uint lo
           in Ret (word_of_int (x div uint y), word_of_int (x mod uint y)))"

text \<open>The magnitude as an unsigned word: \<open>ua := uint64(a); if a < 0 { ua = uint64(-a) }\<close>.\<close>

definition magnitude :: "i64 \<Rightarrow> u64" where
  "magnitude a = (if a <s 0 then - a else a)"

definition mul128 :: "i64 \<Rightarrow> i64 \<Rightarrow> i64 \<times> u64" where
  "mul128 a b =
     (if a = 0 \<or> b = 0 then (0, 0)
      else
        let neg = ((a <s 0) \<noteq> (b <s 0));
            ua = magnitude a;
            ub = magnitude b;
            (uhi, ulo) = bits_Mul64 ua ub
        in if neg
           then let ulo' = NOT ulo + 1;
                    uhi' = NOT uhi
                in (if ulo' = 0 then uhi' + 1 else uhi', ulo')
           else (uhi, ulo))"

definition isQ48Overflow :: "i64 \<Rightarrow> bool" where
  "isQ48Overflow hi =
     (let check = signed_drop_bit 47 hi
      in if 0 \<le>s hi then check \<noteq> 0 else check \<noteq> - 1)"

definition mul128Shift48 :: "i64 \<Rightarrow> i64 \<Rightarrow> go_error + i64" where
  "mul128Shift48 a b =
     (let (hi, lo) = mul128 a b
      in if isQ48Overflow hi then Inl ErrOverflow
         else Inr (push_bit 16 hi OR drop_bit 48 lo))"

definition div128 :: "i64 \<Rightarrow> i64 \<Rightarrow> (go_error + i64) outcome" where
  "div128 a b =
     (if b = 0 then Ret (Inl ErrOverflow)
      else
        let neg = ((a <s 0) \<noteq> (b <s 0));
            ua = magnitude a;
            ub = magnitude b;
            hi = drop_bit 16 ua;
            lo = push_bit 48 ua
        in case bits_Div64 hi lo ub of
             Panic \<Rightarrow> Panic
           | Ret (quo, _) \<Rightarrow>
               if MaxInt64 < quo
               then if neg \<and> quo = MaxInt64 + 1 then Ret (Inr MinInt64) else Ret (Inl ErrOverflow)
               else if neg then Ret (Inr (- quo)) else Ret (Inr quo))"

definition DeltaRate :: "RateFrac \<Rightarrow> RateFrac \<Rightarrow> (go_error + RateFrac) outcome" where
  "DeltaRate oldRate newRate =
     (let denom = OneQ48 + oldRate
      in if denom = 0 then Ret (Inl ErrSingularRate)
         else div128 (newRate - oldRate) denom)"

definition ComposeRate :: "RateFrac \<Rightarrow> RateFrac \<Rightarrow> go_error + RateFrac" where
  "ComposeRate oldRate relativeDelta =
     (case mul128Shift48 relativeDelta (OneQ48 + oldRate) of
        Inl e \<Rightarrow> Inl e
      | Inr p \<Rightarrow> Inr (oldRate + p))"

definition MulRateDurationFloor :: "RateFrac \<Rightarrow> DurationNs \<Rightarrow> go_error + i64" where
  "MulRateDurationFloor rate d =
     (let (hi, lo) = mul128 rate d
      in if isQ48Overflow hi then Inl ErrOverflow
         else Inr (push_bit 16 hi OR drop_bit 48 lo))"

definition MulRateDurationCeil :: "RateFrac \<Rightarrow> DurationNs \<Rightarrow> go_error + i64" where
  "MulRateDurationCeil rate d =
     (let (hi, lo) = mul128 rate d
      in if isQ48Overflow hi then Inl ErrOverflow
         else
           let q = push_bit 16 hi OR drop_bit 48 lo;
               rem = lo AND (push_bit 48 1 - 1)
           in if rem \<noteq> 0
              then if q = MaxInt64 then Inl ErrOverflow else Inr (q + 1)
              else Inr q)"

definition MulScaleDurationFloor :: "RateScale \<Rightarrow> RawNanos \<Rightarrow> go_error + i64" where
  "MulScaleDurationFloor scale dr =
     (let (hi, lo) = mul128 scale dr
      in if isQ48Overflow hi then Inl ErrOverflow
         else Inr (push_bit 16 hi OR drop_bit 48 lo))"

definition MulScaleDurationCeil :: "RateScale \<Rightarrow> RawNanos \<Rightarrow> go_error + i64" where
  "MulScaleDurationCeil scale dr =
     (let (hi, lo) = mul128 scale dr
      in if isQ48Overflow hi then Inl ErrOverflow
         else
           let q = push_bit 16 hi OR drop_bit 48 lo;
               rem = lo AND (push_bit 48 1 - 1)
           in if rem \<noteq> 0
              then if q = MaxInt64 then Inl ErrOverflow else Inr (q + 1)
              else Inr q)"

definition hasOppositeSign :: "i64 \<Rightarrow> i64 \<Rightarrow> bool" where
  "hasOppositeSign r b = (if 0 <s r then b <s 0 else if r <s 0 then 0 <s b else False)"

definition hasSameSign :: "i64 \<Rightarrow> i64 \<Rightarrow> bool" where
  "hasSameSign r b = (if 0 <s r then 0 <s b else if r <s 0 then b <s 0 else False)"

text \<open>
  Floor and ceiling division panic on a zero divisor (Go's \<open>/\<close> does). Every caller in the
  repository divides by the constant \<open>10^9\<close>, so the bodies after the division are named too.
\<close>

definition FloorDiv_nz :: "i64 \<Rightarrow> i64 \<Rightarrow> i64" where
  "FloorDiv_nz a b =
     (let d = go_quot a b; r = go_rem a b
      in if hasOppositeSign r b then d - 1 else d)"

definition FloorDiv :: "i64 \<Rightarrow> i64 \<Rightarrow> i64 outcome" where
  "FloorDiv a b = (if b = 0 then Panic else Ret (FloorDiv_nz a b))"

definition CeilDiv :: "i64 \<Rightarrow> i64 \<Rightarrow> i64 outcome" where
  "CeilDiv a b =
     (if b = 0 then Panic
      else let d = go_quot a b; r = go_rem a b
           in Ret (if hasSameSign r b then d + 1 else d))"

subsection \<open>The 128-bit product is exact\<close>

lemma sint64_1: "sint (1 :: i64) = 1"
  by simp

lemma uint_magnitude: "uint (magnitude a) = \<bar>sint a\<bar>"
proof (cases "sint a < 0")
  case True
  have "uint (- a) = (- sint a) mod 2 ^ 64"
    by (simp add: uint_word_ariths uint_sint [of a] take_bit_eq_mod mod_minus_eq)
  also have "\<dots> = - sint a"
    using True sint64_ge [of a] by (intro mod_pos_pos_trivial) simp_all
  finally show ?thesis using True by (simp add: magnitude_def go_signed)
next
  case False
  then show ?thesis by (simp add: magnitude_def go_signed uint_eq_sint64)
qed

lemma abs_sint64_le: "\<bar>sint (a :: i64)\<bar> \<le> 2 ^ 63"
  using sint64_ge [of a] sint64_lt [of a] by linarith

lemma abs_product_le: "\<bar>sint (a :: i64)\<bar> * \<bar>sint (b :: i64)\<bar> \<le> 2 ^ 126"
  using mult_mono [OF abs_sint64_le [of a] abs_sint64_le [of b]] by simp

text \<open>The high and low halves of a product below \<open>2^126\<close>, negated in two's complement.\<close>

lemma halves_nonneg:
  assumes "0 \<le> P" "P \<le> 2 ^ 126"
  shows "sint (word_of_int (P div 2 ^ 64) :: i64) * 2 ^ 64
       + uint (word_of_int (P mod 2 ^ 64) :: u64) = P"
proof -
  have "P div 2 ^ 64 \<le> 2 ^ 126 div 2 ^ 64"
    using assms(2) by (rule zdiv_mono1) simp
  then have "sint (word_of_int (P div 2 ^ 64) :: i64) = P div 2 ^ 64"
    using assms(1) by (intro sint_of_int64) (simp add: in_i64_def)
  moreover have "uint (word_of_int (P mod 2 ^ 64) :: u64) = P mod 2 ^ 64"
    by (simp add: uint_word_of_int)
  ultimately show ?thesis
    by simp
qed

lemma NOT_add_1: "NOT (w :: u64) + 1 = - w"
  by (simp add: minus_eq_not_plus_1)

lemma NOT_eq_neg: "NOT (w :: u64) = - w - 1"
  by (simp add: not_eq_complement)

lemma halves_neg:
  assumes "0 \<le> P" "P \<le> 2 ^ 126"
  defines "uhi \<equiv> word_of_int (P div 2 ^ 64) :: u64" and "ulo \<equiv> word_of_int (P mod 2 ^ 64) :: u64"
  shows "sint (if NOT ulo + 1 = 0 then NOT uhi + 1 else NOT uhi) * 2 ^ 64 + uint (NOT ulo + 1) = - P"
proof -
  have "P div 2 ^ 64 \<le> 2 ^ 126 div 2 ^ 64"
    using assms(2) by (rule zdiv_mono1) simp
  with assms(1) have h: "sint uhi = P div 2 ^ 64" and hb: "P div 2 ^ 64 \<le> 2 ^ 62" and h0: "0 \<le> P div 2 ^ 64"
    unfolding uhi_def by (subst sint_of_int64, simp_all add: in_i64_def)
  have l: "uint ulo = P mod 2 ^ 64"
    by (simp add: ulo_def uint_word_of_int)
  have neg: "sint (- uhi) = - (P div 2 ^ 64)"
    using h hb h0 by (subst sint_neg_exact) (simp_all add: in_i64_def)
  show ?thesis
  proof (cases "ulo = 0")
    case True
    then have "P mod 2 ^ 64 = 0" using l by simp
    then have "P = P div 2 ^ 64 * 2 ^ 64"
      by (metis add.right_neutral div_mult_mod_eq)
    with True neg show ?thesis
      by (simp add: NOT_add_1)
  next
    case False
    then have pos: "0 < uint ulo"
      by (simp add: word_less_def word_neq_0_conv)
    have "uint (- ulo) = 2 ^ 64 - uint ulo"
      using pos uint64_lt [of ulo] by (simp add: uint_word_ariths zmod_zminus1_eq_if mod_pos_pos_trivial)
    moreover have "sint (- uhi - 1) = - (P div 2 ^ 64) - 1"
      using neg hb h0 by (subst sint_sub_exact) (simp_all add: in_i64_def)
    ultimately have "sint (- uhi - 1) * 2 ^ 64 + uint (- ulo)
        = (- (P div 2 ^ 64) - 1) * 2 ^ 64 + (2 ^ 64 - P mod 2 ^ 64)"
      using l by simp
    also have "\<dots> = - (P div 2 ^ 64 * 2 ^ 64 + P mod 2 ^ 64)"
      by (simp only: left_diff_distrib)
    finally have "sint (- uhi - 1) * 2 ^ 64 + uint (- ulo) = - P"
      by simp
    with False show ?thesis
      by (simp add: NOT_add_1 NOT_eq_neg)
  qed
qed

lemma mul128_value: "sint (fst (mul128 a b)) * 2 ^ 64 + uint (snd (mul128 a b)) = sint a * sint b"
proof (cases "a = 0 \<or> b = 0")
  case True
  then show ?thesis by (auto simp: mul128_def)
next
  case False
  let ?P = "\<bar>sint a\<bar> * \<bar>sint b\<bar>"
  have P: "0 \<le> ?P" "?P \<le> 2 ^ 126"
    using abs_product_le by simp_all
  show ?thesis
  proof (cases "(a <s 0) = (b <s 0)")
    case True
    then have "?P = sint a * sint b"
      by (auto simp: go_signed abs_mult [symmetric] zero_less_mult_iff mult_nonpos_nonpos not_less)
    with False True halves_nonneg [OF P] show ?thesis
      by (simp add: mul128_def bits_Mul64_def Let_def uint_magnitude)
  next
    case neq: False
    let ?uhi = "word_of_int (?P div 2 ^ 64) :: u64" and ?ulo = "word_of_int (?P mod 2 ^ 64) :: u64"
    have "mul128 a b = (if NOT ?ulo + 1 = 0 then NOT ?uhi + 1 else NOT ?uhi, NOT ?ulo + 1)"
      using False neq by (simp add: mul128_def bits_Mul64_def Let_def uint_magnitude)
    then have "sint (fst (mul128 a b)) * 2 ^ 64 + uint (snd (mul128 a b)) = - ?P"
      using halves_neg [OF P] by (simp only: fst_conv snd_conv)
    also have "- ?P = sint a * sint b"
      using neq by (auto simp: go_signed abs_if)
    finally show ?thesis .
  qed
qed


text \<open>The value a 128-bit pair stands for.\<close>

definition val128 :: "i64 \<times> u64 \<Rightarrow> int" where
  "val128 p = sint (fst p) * 2 ^ 64 + uint (snd p)"

lemma val128_mul128: "val128 (mul128 a b) = sint a * sint b"
  by (simp only: val128_def mul128_value)

lemma val128_div: "val128 (hi, lo) div 2 ^ 48 = sint hi * 2 ^ 16 + uint lo div 2 ^ 48"
proof -
  have "val128 (hi, lo) = uint lo + sint hi * 2 ^ 16 * 2 ^ 48"
    by (simp add: val128_def)
  then show ?thesis
    by simp
qed

lemma uint_top16: "0 \<le> uint (lo :: u64) div 2 ^ 48" "uint (lo :: u64) div 2 ^ 48 < 2 ^ 16"
  using uint64_lt [of lo] uint64_ge [of lo] by (simp_all add: pos_imp_zdiv_nonneg_iff)

lemma signed_drop_bit_47:
  "signed_drop_bit 47 (hi :: i64) = 0 \<longleftrightarrow> 0 \<le> sint hi \<and> sint hi < 2 ^ 47"
  "signed_drop_bit 47 (hi :: i64) = - 1 \<longleftrightarrow> - (2 ^ 47) \<le> sint hi \<and> sint hi < 0"
proof -
  have s: "sint (signed_drop_bit 47 hi) = sint hi div 2 ^ 47"
    by (simp add: sint_signed_drop_bit_eq drop_bit_eq_div)
  have "signed_drop_bit 47 hi = 0 \<longleftrightarrow> sint hi div 2 ^ 47 = 0"
    using s by (simp add: sint_eq_iff64)
  then show "signed_drop_bit 47 hi = 0 \<longleftrightarrow> 0 \<le> sint hi \<and> sint hi < 2 ^ 47"
    by (auto simp: zdiv_eq_0_iff)
  have "signed_drop_bit 47 hi = - 1 \<longleftrightarrow> sint hi div 2 ^ 47 = - 1"
    using s by (simp add: sint_eq_iff64)
  also have "\<dots> \<longleftrightarrow> - (2 ^ 47) \<le> sint hi \<and> sint hi < 0"
  proof -
    have "sint hi div 2 ^ 47 = (sint hi + 2 ^ 47) div 2 ^ 47 - 1"
      by simp
    then have "sint hi div 2 ^ 47 = - 1 \<longleftrightarrow> (sint hi + 2 ^ 47) div 2 ^ 47 = 0"
      by linarith
    then show ?thesis
      by (auto simp: zdiv_eq_0_iff)
  qed
  finally show "signed_drop_bit 47 hi = - 1 \<longleftrightarrow> - (2 ^ 47) \<le> sint hi \<and> sint hi < 0" .
qed

lemma isQ48Overflow_iff: "isQ48Overflow hi \<longleftrightarrow> \<not> (- (2 ^ 47) \<le> sint hi \<and> sint hi < 2 ^ 47)"
  by (auto simp: isQ48Overflow_def Let_def go_signed signed_drop_bit_47)

lemma isQ48Overflow_val128: "isQ48Overflow hi \<longleftrightarrow> \<not> in_i64 (val128 (hi, lo) div 2 ^ 48)"
proof -
  let ?r = "uint lo div 2 ^ 48"
  have "in_i64 (sint hi * 2 ^ 16 + ?r) \<longleftrightarrow> - (2 ^ 47) \<le> sint hi \<and> sint hi < 2 ^ 47"
    using uint_top16 [of lo] unfolding in_i64_iff by (simp; linarith)
  then show ?thesis
    by (simp only: isQ48Overflow_iff val128_div)
qed

lemma uint_drop_bit64: "uint (drop_bit n (w :: u64)) = uint w div 2 ^ n"
  by (simp only: unsigned_drop_bit_eq) (simp add: drop_bit_eq_div bintr_uint)

lemma drop_bit_word_of_int: "drop_bit n (w :: u64) = word_of_int (uint w div 2 ^ n)"
  by transfer (simp add: drop_bit_eq_div)

lemma q48_word:
  assumes "in_i64 (val128 (hi, lo) div 2 ^ 48)"
  shows "sint (push_bit 16 hi OR drop_bit 48 lo) = val128 (hi, lo) div 2 ^ 48"
proof -
  have "push_bit 16 hi AND drop_bit 48 lo = 0"
    by (rule bit_word_eqI) (auto simp: bit_simps dest: bit_imp_le_length)
  then have "push_bit 16 hi OR drop_bit 48 lo = push_bit 16 hi + drop_bit 48 lo"
    by (rule disjunctive_add_eq_or [symmetric])
  also have "\<dots> = word_of_int (sint hi * 2 ^ 16 + uint lo div 2 ^ 48)"
    by (simp add: push_bit_eq_mult drop_bit_word_of_int)
  finally show ?thesis
    using assms by (simp only: val128_div sint_of_int64)
qed


subsection \<open>The products: floor and ceiling of the rational product\<close>

lemma floor_product_spec:
  "(let (hi, lo) = mul128 a b
    in if isQ48Overflow hi then Inl ErrOverflow else Inr (push_bit 16 hi OR drop_bit 48 lo))
   = (let q = sint a * sint b div 2 ^ 48
      in if in_i64 q then Inr (word_of_int q) else Inl ErrOverflow)"
proof -
  obtain hi lo where m: "mul128 a b = (hi, lo)" by fastforce
  with val128_mul128 [of a b] have v: "val128 (hi, lo) = sint a * sint b" by simp
  show ?thesis
    using q48_word [of hi lo] isQ48Overflow_val128 [of hi lo]
    by (auto simp: m v Let_def sint_eq_iff64 sint_of_int64)
qed

lemma MulRateDurationFloor_spec:
  "MulRateDurationFloor r d =
    (let q = sint r * sint d div 2 ^ 48
     in if in_i64 q then Inr (word_of_int q) else Inl ErrOverflow)"
  unfolding MulRateDurationFloor_def by (rule floor_product_spec)

lemma MulScaleDurationFloor_spec:
  "MulScaleDurationFloor r d =
    (let q = sint r * sint d div 2 ^ 48
     in if in_i64 q then Inr (word_of_int q) else Inl ErrOverflow)"
  unfolding MulScaleDurationFloor_def by (rule floor_product_spec)

lemma mul128Shift48_spec:
  "mul128Shift48 a b =
    (let q = sint a * sint b div 2 ^ 48
     in if in_i64 q then Inr (word_of_int q) else Inl ErrOverflow)"
  unfolding mul128Shift48_def by (rule floor_product_spec)

definition ceil48 :: "int \<Rightarrow> int" where
  "ceil48 n = - (- n div 2 ^ 48)"

lemma ceil48_eq: "ceil48 n = (if n mod 2 ^ 48 = 0 then n div 2 ^ 48 else n div 2 ^ 48 + 1)"
  by (simp add: ceil48_def zdiv_zminus1_eq_if)

lemma low48: "lo AND (push_bit 48 1 - 1) = (0 :: u64) \<longleftrightarrow> val128 (hi, lo) mod 2 ^ 48 = 0"
proof -
  have "uint (lo AND mask 48) = uint (take_bit 48 lo)"
    by (simp only: take_bit_eq_mask)
  also have "\<dots> = uint lo mod 2 ^ 48"
    by (simp only: unsigned_take_bit_eq) (simp only: take_bit_eq_mod)
  finally have low: "uint (lo AND mask 48) = uint lo mod 2 ^ 48" .
  have "val128 (hi, lo) = uint lo + sint hi * 2 ^ 16 * 2 ^ 48"
    by (simp add: val128_def)
  then have mod: "val128 (hi, lo) mod 2 ^ 48 = uint lo mod 2 ^ 48"
    by (simp only: mod_mult_self1)
  have mask: "(push_bit 48 1 - 1 :: u64) = mask 48"
    by (simp add: mask_eq_exp_minus_1 push_bit_eq_mult)
  show ?thesis
    by (simp only: mask mod word_uint_eq_iff low unsigned_0)
qed

lemma ceil_product_spec:
  "(let (hi, lo) = mul128 a b
    in if isQ48Overflow hi then Inl ErrOverflow
       else let q = push_bit 16 hi OR drop_bit 48 lo; rem = lo AND (push_bit 48 1 - 1)
            in if rem \<noteq> 0 then if q = MaxInt64 then Inl ErrOverflow else Inr (q + 1) else Inr q)
   = (let q = sint a * sint b div 2 ^ 48; c = ceil48 (sint a * sint b)
      in if in_i64 q \<and> in_i64 c then Inr (word_of_int c) else Inl ErrOverflow)"
proof -
  obtain hi lo where m: "mul128 a b = (hi, lo)" by fastforce
  with val128_mul128 [of a b] have v: "val128 (hi, lo) = sint a * sint b" by simp
  let ?q = "push_bit 16 hi OR drop_bit 48 lo" and ?n = "sint a * sint b"
  note ov = isQ48Overflow_val128 [of hi lo, unfolded v]
  show ?thesis
  proof (cases "in_i64 (?n div 2 ^ 48)")
    case False
    with ov show ?thesis by (simp add: m Let_def)
  next
    case True
    then have q: "sint ?q = ?n div 2 ^ 48"
      using q48_word [of hi lo] by (simp add: v)
    have rem: "lo AND (push_bit 48 1 - 1) = 0 \<longleftrightarrow> ?n mod 2 ^ 48 = 0"
      using low48 [of lo hi] by (simp only: v)
    have qmax: "?q = MaxInt64 \<longleftrightarrow> ?n div 2 ^ 48 = 2 ^ 63 - 1"
      by (simp only: sint_eq_iff64 q sint_MaxInt64)
    show ?thesis
    proof (cases "?n mod 2 ^ 48 = 0")
      case z: True
      with True have "in_i64 (ceil48 ?n)" and "word_of_int (ceil48 ?n) = ?q"
        by (simp_all only: ceil48_eq if_True simp_thms sint_eq_iff64 q sint_of_int64)
      with True ov rem z show ?thesis
        by (simp only: m Let_def prod.case if_False simp_thms if_True not_True_eq_False)
    next
      case nz: False
      then have c: "ceil48 ?n = ?n div 2 ^ 48 + 1"
        by (simp only: ceil48_eq if_False)
      have fits: "in_i64 (ceil48 ?n) \<longleftrightarrow> ?q \<noteq> MaxInt64"
        using True unfolding qmax c in_i64_def by auto
      have "word_of_int (ceil48 ?n) = ?q + 1" if "?q \<noteq> MaxInt64"
      proof -
        have "in_i64 (sint ?q + sint (1 :: i64))"
          using fits that c by (simp only: q sint64_1) simp
        then have "sint (?q + 1) = ceil48 ?n"
          by (simp only: sint_add_exact q c sint64_1)
        with fits that show ?thesis
          by (simp only: sint_eq_iff64 sint_of_int64 simp_thms)
      qed
      with True ov rem nz fits show ?thesis
        by (auto simp only: m Let_def prod.case if_False simp_thms if_True not_True_eq_False split: if_splits)
    qed
  qed
qed

lemma MulRateDurationCeil_spec:
  "MulRateDurationCeil r d =
    (let q = sint r * sint d div 2 ^ 48; c = ceil48 (sint r * sint d)
     in if in_i64 q \<and> in_i64 c then Inr (word_of_int c) else Inl ErrOverflow)"
  unfolding MulRateDurationCeil_def by (rule ceil_product_spec)

lemma MulScaleDurationCeil_spec:
  "MulScaleDurationCeil r d =
    (let q = sint r * sint d div 2 ^ 48; c = ceil48 (sint r * sint d)
     in if in_i64 q \<and> in_i64 c then Inr (word_of_int c) else Inl ErrOverflow)"
  unfolding MulScaleDurationCeil_def by (rule ceil_product_spec)


subsection \<open>Division\<close>

lemma uint_push_bit48: "uint (push_bit 48 (w :: u64)) = uint w * 2 ^ 48 mod 2 ^ 64"
  by (simp add: push_bit_eq_mult uint_word_ariths)

lemma shifted_halves: "uint (drop_bit 16 (w :: u64)) * 2 ^ 64 + uint (push_bit 48 w) = uint w * 2 ^ 48"
proof -
  have "uint w * 2 ^ 48 mod 2 ^ 64 = (uint w mod 2 ^ 16) * 2 ^ 48"
    using mult_mod_right [of "2 ^ 48" "uint w" "2 ^ 16"] by (simp add: mult.commute)
  moreover have "uint w * 2 ^ 48 = (uint w div 2 ^ 16 * 2 ^ 16 + uint w mod 2 ^ 16) * 2 ^ 48"
    by simp
  ultimately show ?thesis
    by (simp only: uint_push_bit48 uint_drop_bit64 distrib_right) simp
qed

lemma bits_Div64_shifted:
  assumes "y \<noteq> 0"
  shows "bits_Div64 (drop_bit 16 w) (push_bit 48 w) y =
    (if 2 ^ 64 \<le> uint w * 2 ^ 48 div uint y then Panic
     else Ret (word_of_int (uint w * 2 ^ 48 div uint y), word_of_int (uint w * 2 ^ 48 mod uint y)))"
proof -
  have pos: "0 < uint y"
    using assms by (simp add: word_neq_0_conv word_less_def)
  have "y \<le> drop_bit 16 w \<longleftrightarrow> uint y \<le> uint w div 2 ^ 16"
    by (simp only: word_le_def uint_drop_bit64)
  also have "\<dots> \<longleftrightarrow> uint y * 2 ^ 16 \<le> uint w"
    by (rule le_zdiv_iff) simp
  also have "\<dots> \<longleftrightarrow> 2 ^ 64 * uint y \<le> uint w * 2 ^ 48"
    by (simp add: mult.commute)
  also have "\<dots> \<longleftrightarrow> 2 ^ 64 \<le> uint w * 2 ^ 48 div uint y"
    using pos by (rule le_zdiv_iff [symmetric])
  finally show ?thesis
    using assms by (simp only: bits_Div64_def shifted_halves Let_def simp_thms)
qed

lemma div128_spec:
  "div128 a b =
    (if b = 0 then Ret (Inl ErrOverflow)
     else if 2 ^ 64 \<le> \<bar>sint a\<bar> * 2 ^ 48 div \<bar>sint b\<bar> then Panic
     else let q = (sint a * 2 ^ 48) sdiv sint b
          in Ret (if in_i64 q then Inr (word_of_int q) else Inl ErrOverflow))"
proof (cases "b = 0")
  case True
  then show ?thesis by (simp add: div128_def)
next
  case False
  let ?d = "\<bar>sint a\<bar> * 2 ^ 48 div \<bar>sint b\<bar>"
  have m: "magnitude b \<noteq> 0"
    using False uint_magnitude [of b] by (auto simp: sint_0_iff64)
  show ?thesis
  proof (cases "2 ^ 64 \<le> ?d")
    case True
    with False m show ?thesis
      by (simp add: div128_def Let_def bits_Div64_shifted uint_magnitude)
  next
    case small: False
    have d0: "0 \<le> ?d"
      by (simp add: pos_imp_zdiv_nonneg_iff False sint_eq_iff64 div_int_pos_iff)
    let ?quo = "word_of_int ?d :: u64"
    have quo: "uint ?quo = ?d"
      using small d0 by (simp only: uint_word_of_int) (simp add: mod_pos_pos_trivial)
    have big: "MaxInt64 < ?quo \<longleftrightarrow> 2 ^ 63 \<le> ?d"
      by (simp only: word_less_def quo) auto
    have edge: "?quo = MaxInt64 + 1 \<longleftrightarrow> ?d = 2 ^ 63"
      by (simp only: word_uint_eq_iff quo) simp
    let ?neg = "(a <s 0) \<noteq> (b <s 0)"
    have q: "(sint a * 2 ^ 48) sdiv sint b = (if ?neg then - ?d else ?d)"
      using False
      by (auto simp: signed_divide_int_def sgn_if go_signed abs_mult sint_eq_iff64 mult_less_0_iff)
    have step: "div128 a b =
        (if MaxInt64 < ?quo
         then if ?neg \<and> ?quo = MaxInt64 + 1 then Ret (Inr MinInt64) else Ret (Inl ErrOverflow)
         else if ?neg then Ret (Inr (- ?quo)) else Ret (Inr ?quo))"
      using False m small by (simp add: div128_def Let_def bits_Div64_shifted uint_magnitude)
    show ?thesis
      using False small d0
      by (auto simp only: step big edge q Let_def in_i64_def wi_hom_neg split: if_splits) simp_all
  qed
qed


subsection \<open>Floor and ceiling division\<close>

lemma floor_from_trunc:
  assumes "(b :: int) \<noteq> 0"
  shows "a div b = (if (0 < a smod b \<and> b < 0) \<or> (a smod b < 0 \<and> 0 < b) then a sdiv b - 1 else a sdiv b)"
    and "- (- a div b) = (if (0 < a smod b \<and> 0 < b) \<or> (a smod b < 0 \<and> b < 0) then a sdiv b + 1 else a sdiv b)"
proof -
  define q r where "q = a sdiv b" and "r = a smod b"
  have a: "a = b * q + r"
    using sdiv_mult_smod_eq [of a b] by (simp add: q_def r_def mult.commute)
  have "\<bar>r\<bar> < \<bar>b\<bar>"
    using assms by (simp add: r_def signed_modulo_int_def abs_mult sgn_if)
  then have r: "- \<bar>b\<bar> < r" "r < \<bar>b\<bar>" by linarith+
  have "a div b = (if (0 < r \<and> b < 0) \<or> (r < 0 \<and> 0 < b) then q - 1 else q)"
  proof (cases "(0 < r \<and> b < 0) \<or> (r < 0 \<and> 0 < b)")
    case True
    have a': "a = b * (q - 1) + (r + b)"
      using a by (simp add: right_diff_distrib)
    from True show ?thesis
      using r int_div_pos_eq [OF a'] int_div_neg_eq [OF a'] by auto
  next
    case False
    with assms r show ?thesis
      using int_div_pos_eq [OF a] int_div_neg_eq [OF a]
      by (cases b "0 :: int" rule: linorder_cases) auto
  qed
  moreover have "- (- a div b) = (if (0 < r \<and> 0 < b) \<or> (r < 0 \<and> b < 0) then q + 1 else q)"
  proof (cases "(0 < r \<and> 0 < b) \<or> (r < 0 \<and> b < 0)")
    case True
    have a': "- a = b * (- q - 1) + (b - r)"
      using a by (simp add: right_diff_distrib)
    from True show ?thesis
      using r int_div_pos_eq [OF a'] int_div_neg_eq [OF a'] by auto
  next
    case False
    have a': "- a = b * (- q) + - r"
      using a by simp
    from False assms r show ?thesis
      using int_div_pos_eq [OF a'] int_div_neg_eq [OF a']
      by (cases b "0 :: int" rule: linorder_cases) auto
  qed
  ultimately show "a div b = (if (0 < a smod b \<and> b < 0) \<or> (a smod b < 0 \<and> 0 < b) then a sdiv b - 1 else a sdiv b)"
    and "- (- a div b) = (if (0 < a smod b \<and> 0 < b) \<or> (a smod b < 0 \<and> b < 0) then a sdiv b + 1 else a sdiv b)"
    unfolding q_def r_def by simp_all
qed

lemma sint_go_rem:
  assumes "b \<noteq> 0"
  shows "sint (go_rem a b) = sint a smod sint b"
proof -
  have "0 \<le> \<bar>sint a\<bar> mod \<bar>sint b\<bar>" "\<bar>sint a\<bar> mod \<bar>sint b\<bar> \<le> \<bar>sint a\<bar>"
    using assms by (simp_all add: sint_0_iff64 zmod_le_nonneg_dividend)
  then have "in_i64 (sint a smod sint b)"
    using sint64_ge [of a] sint64_lt [of a]
    by (cases "sint a" "0 :: int" rule: linorder_cases) (simp_all add: signed_modulo_int_def in_i64_def)
  then show ?thesis
    by (simp only: go_rem_def sint_of_int64)
qed


lemma go_quot_step:
  assumes "sint (go_rem a b) = sint a smod sint b"
  shows "FloorDiv_nz a b = word_of_int (if (0 < sint a smod sint b \<and> sint b < 0) \<or>
      (sint a smod sint b < 0 \<and> 0 < sint b) then sint a sdiv sint b - 1 else sint a sdiv sint b)"
  using assms
  by (auto simp: FloorDiv_nz_def Let_def hasOppositeSign_def go_signed go_quot_def)

lemma FloorDiv_spec:
  "FloorDiv a b = (if b = 0 then Panic else Ret (word_of_int (sint a div sint b)))"
proof (cases "b = 0")
  case True
  then show ?thesis by (simp add: FloorDiv_def)
next
  case False
  then have "sint b \<noteq> 0" by (simp add: sint_0_iff64)
  with False show ?thesis
    by (simp only: FloorDiv_def go_quot_step [OF sint_go_rem] floor_from_trunc(1) [of "sint b"] if_False simp_thms)
qed

lemma CeilDiv_spec:
  "CeilDiv a b = (if b = 0 then Panic else Ret (word_of_int (- (- sint a div sint b))))"
proof (cases "b = 0")
  case True
  then show ?thesis by (simp add: CeilDiv_def)
next
  case False
  then have "sint b \<noteq> 0" by (simp add: sint_0_iff64)
  with False show ?thesis
    unfolding floor_from_trunc(2) [OF \<open>sint b \<noteq> 0\<close>]
    by (auto simp: CeilDiv_def Let_def hasSameSign_def go_signed go_quot_def sint_go_rem)
qed

text \<open>The one divisor the repository uses: nanoseconds to seconds.\<close>

lemma FloorDiv_nz_1e9: "sint (FloorDiv_nz a 1000000000) = sint a div 1000000000"
proof -
  have "Ret (FloorDiv_nz a 1000000000) = Ret (word_of_int (sint a div 1000000000))"
    using FloorDiv_spec [of a 1000000000] by (simp add: FloorDiv_def)
  moreover have "in_i64 (sint a div 1000000000)"
    using sint64_ge [of a] sint64_lt [of a] unfolding in_i64_def by (simp; linarith)
  ultimately show ?thesis
    by (simp add: sint_of_int64)
qed

subsection \<open>Rate composition\<close>

lemma ComposeRate_spec:
  assumes "in_i64 (2 ^ 48 + sint r)"
  shows "ComposeRate r d =
    (let p = sint d * (2 ^ 48 + sint r) div 2 ^ 48
     in if in_i64 p then Inr (r + word_of_int p) else Inl ErrOverflow)"
proof -
  have "sint (OneQ48 + r) = 2 ^ 48 + sint r"
    using assms by (subst sint_add_exact) (simp_all add: sint_OneQ48)
  then show ?thesis
    by (simp only: ComposeRate_def mul128Shift48_spec Let_def) auto
qed

lemma div48_bounds:
  "n div 2 ^ 48 * 2 ^ 48 \<le> n" "n < (n div 2 ^ 48 + 1) * 2 ^ 48"
  "(ceil48 n - 1) * 2 ^ 48 < n" "n \<le> ceil48 n * 2 ^ 48"
  "n div 2 ^ 48 \<le> ceil48 n" "ceil48 n \<le> n div 2 ^ 48 + 1"
  by (simp_all add: ceil48_def)

subsection \<open>Properties\<close>

text \<open>The 128-bit product is exact. The high word, read as signed, and the low word, read as
  unsigned, that \<open>mul128\<close> returns stand for the product of the two signed factors, for every
  pair of factors (\<open>MinInt64\<close> included).\<close>

theorem mul128_exact: "sint (fst (mul128 a b)) * 2 ^ 64 + uint (snd (mul128 a b)) = sint a * sint b"
  by (rule mul128_value)

text \<open>Rounding and overflow of the Q16.48 products. The floor product is the greatest integer
  below the rational product, the ceiling product the least integer above it; an error is
  returned only when that integer, or for the ceiling already the floor, is not a 64-bit one.\<close>

theorem scaled_products_round:
  "(case MulScaleDurationFloor r d of
      Inr lo \<Rightarrow> sint lo * 2 ^ 48 \<le> sint r * sint d \<and> sint r * sint d < (sint lo + 1) * 2 ^ 48
    | Inl e \<Rightarrow> e = ErrOverflow \<and> \<not> in_i64 \<lfloor>real_of_int (sint r * sint d) / 2 ^ 48\<rfloor>) \<and>
   (case MulScaleDurationCeil r d of
      Inr hi \<Rightarrow> (sint hi - 1) * 2 ^ 48 < sint r * sint d \<and> sint r * sint d \<le> sint hi * 2 ^ 48
    | Inl e \<Rightarrow> e = ErrOverflow \<and>
        (if in_i64 \<lfloor>real_of_int (sint r * sint d) / 2 ^ 48\<rfloor>
         then \<lceil>real_of_int (sint r * sint d) / 2 ^ 48\<rceil> = 2 ^ 63 else True))"
proof -
  let ?n = "sint r * sint d"
  have fl: "\<lfloor>real_of_int ?n / 2 ^ 48\<rfloor> = ?n div 2 ^ 48"
    using floor_divide_of_int_eq [where ?'a = real, of ?n "2 ^ 48"] by simp
  have ce: "\<lceil>real_of_int ?n / 2 ^ 48\<rceil> = ceil48 ?n"
    using floor_divide_of_int_eq [where ?'a = real, of "- ?n" "2 ^ 48"]
    by (simp add: ceil48_def ceiling_def)
  have q: "?n div 2 ^ 48 * 2 ^ 48 \<le> ?n" "?n < (?n div 2 ^ 48 + 1) * 2 ^ 48"
    and c: "(ceil48 ?n - 1) * 2 ^ 48 < ?n" "?n \<le> ceil48 ?n * 2 ^ 48"
    and qc: "?n div 2 ^ 48 \<le> ceil48 ?n" "ceil48 ?n \<le> ?n div 2 ^ 48 + 1"
    by (rule div48_bounds)+
  show ?thesis
    unfolding fl ce MulScaleDurationFloor_spec MulScaleDurationCeil_spec Let_def
    using q c qc by (auto simp: sint_of_int64 in_i64_def)
qed

text \<open>The whole behaviour of the fixed-point division: the quotient truncated toward zero when
  it is a 64-bit integer, \<open>ErrOverflow\<close> on a zero divisor or a quotient of up to 64 bits of
  magnitude that does not fit, and a run-time panic (not an error value) when the magnitude of
  the quotient needs more than 64 bits, as \<open>bits.Div64\<close> then panics.\<close>

theorem div128_total:
  "div128 a b =
    (if sint b = 0 then Ret (Inl ErrOverflow)
     else if 2 ^ 64 \<le> \<bar>sint a\<bar> * 2 ^ 48 div \<bar>sint b\<bar> then Panic
     else let q = (sint a * 2 ^ 48) sdiv sint b
          in Ret (if in_i64 q then Inr (word_of_int q) else Inl ErrOverflow))"
  unfolding div128_spec by (simp add: sint_0_iff64)

text \<open>Floor and ceiling division are the mathematical ones for every sign combination, up to
  the wrap-around of \<open>MinInt64 / -1\<close>, and panic exactly on a zero divisor.\<close>

theorem FloorDiv_CeilDiv_exact:
  "FloorDiv a b = (if sint b = 0 then Panic else Ret (word_of_int \<lfloor>real_of_int (sint a) / real_of_int (sint b)\<rfloor>)) \<and>
   CeilDiv a b = (if sint b = 0 then Panic else Ret (word_of_int \<lceil>real_of_int (sint a) / real_of_int (sint b)\<rceil>))"
proof -
  have "\<lfloor>real_of_int (sint a) / real_of_int (sint b)\<rfloor> = sint a div sint b"
    by (rule floor_divide_of_int_eq)
  moreover have "\<lceil>real_of_int (sint a) / real_of_int (sint b)\<rceil> = - (- sint a div sint b)"
    using floor_divide_of_int_eq [where ?'a = real, of "- sint a" "sint b"] by (simp add: ceiling_def)
  ultimately show ?thesis
    unfolding FloorDiv_spec CeilDiv_spec by (simp add: sint_0_iff64)
qed

end
