(* ===== verification/Assurance.thy ===== *)
theory Assurance
  imports FixedPoint
begin

text \<open>
  Package assurance (\<open>assurance/assurance.go\<close>): propagation of an absolute anchor to a raw
  reading, validation of a consensus hull, and the assurance clock's status machine
  (a full round, holdover, desynchronization, evaluation). The mutex is not modelled: every
  operation runs under it, so operations are atomic steps on the state.
\<close>

subsection \<open>State\<close>

record AssuranceAnchor =
  aa_RawAnchor :: RawNanos
  aa_LowerAtAnchor :: GstInstant
  aa_UpperAtAnchor :: GstInstant
  aa_RawScaleLower :: RateScale
  aa_RawScaleUpper :: RateScale
  aa_RawReadBound :: ErrorNs
  aa_SourceFaultBudget :: u32
  aa_EligibleDomains :: u32
  aa_CoverageThreshold :: u32
  aa_ComponentCount :: u32
  aa_LeapHistoryID :: bytes
  aa_ConfigID :: bytes
  aa_Generation :: Generation
  aa_CreatedRaw :: RawNanos
  aa_ValidUntilRaw :: RawNanos
  aa_ContinuityToken :: u64

record AssuranceState =
  as_Anchor :: "AssuranceAnchor option"
  as_LowerDebt :: DurationNs
  as_UpperDebt :: DurationNs
  as_Status :: SyncStatus
  as_Reason :: StatusReason
  as_LastSuccessfulRoundRaw :: RawNanos
  as_PastWatermark :: GstInstant
  as_Generation :: Generation
  as_AssuranceEpochID :: bytes
  as_MaxAssuranceWidthNs :: i64

subsection \<open>Propagation of an anchor\<close>

definition willTermOverflow :: "i64 \<Rightarrow> i64 \<Rightarrow> bool" where
  "willTermOverflow v d =
     (if 0 <s d then MaxInt64 - d <s v
      else if d <s 0 then v <s MinInt64 - d
      else False)"

fun checkedInstantAdd :: "GstInstant \<Rightarrow> i64 list \<Rightarrow> go_error + GstInstant" where
  "checkedInstantAdd v [] = Inr v"
| "checkedInstantAdd v (d # ds) =
     (if willTermOverflow v d then Inl ErrOverflow else checkedInstantAdd (v + d) ds)"

definition PropagateAnchor ::
  "AssuranceAnchor option \<Rightarrow> RawNanos \<Rightarrow> ErrorNs \<Rightarrow> u64 \<Rightarrow> DurationNs \<Rightarrow> DurationNs \<Rightarrow> i64 \<Rightarrow>
    go_error + TimeInterval" where
  "PropagateAnchor anchor r currentRawReadBound continuityToken lowerDebt upperDebt maxAssuranceWidthNs =
    (case anchor of None \<Rightarrow> Inl (Err ''no anchor available'')
     | Some a \<Rightarrow>
       if r < aa_RawAnchor a then Inl ErrRawEarlierThanAnchor
       else if aa_ValidUntilRaw a < r then Inl ErrAnchorExpired
       else if continuityToken \<noteq> aa_ContinuityToken a then Inl ErrContinuityTokenMismatch
       else if aa_RawScaleLower a \<le>s 0 \<or> aa_RawScaleUpper a <s aa_RawScaleLower a
       then Inl ErrInvalidRange
       else
         let dr = r - aa_RawAnchor a in
         if MaxUint64 - currentRawReadBound < aa_RawReadBound a then Inl ErrOverflow
         else
           let rawDeltaError = aa_RawReadBound a + currentRawReadBound in
           if MaxInt64 < dr \<or> MaxInt64 - dr < rawDeltaError then Inl ErrOverflow
           else
             let drLo = (if rawDeltaError < dr then dr - rawDeltaError else 0);
                 drHi = dr + rawDeltaError
             in case MulScaleDurationFloor (aa_RawScaleLower a) drLo of
                  Inl e \<Rightarrow> Inl e
                | Inr advanceLo \<Rightarrow>
                  (case MulScaleDurationCeil (aa_RawScaleUpper a) drHi of
                     Inl e \<Rightarrow> Inl e
                   | Inr advanceHi \<Rightarrow>
                     (case checkedInstantAdd (aa_LowerAtAnchor a) [advanceLo, lowerDebt] of
                        Inl e \<Rightarrow> Inl e
                      | Inr L \<Rightarrow>
                        (case checkedInstantAdd (aa_UpperAtAnchor a) [advanceHi, upperDebt] of
                           Inl e \<Rightarrow> Inl e
                         | Inr U \<Rightarrow>
                           if U <s L then Inl ErrInvalidRange
                           else if L <s 0 \<and> MaxInt64 + L <s U then Inl ErrOverflow
                           else
                             let width = U - L in
                             if 0 <s maxAssuranceWidthNs \<and> maxAssuranceWidthNs \<le>s width
                             then Inl ErrBoundTooWide
                             else Inr (interval L U)))))"

subsection \<open>The assurance clock\<close>

text \<open>
  \<open>NewAssuranceClock\<close>; the random epoch identifier is an argument (the code discards a failure
  of the random source, which leaves the zero identifier).
\<close>

definition NewAssuranceClock :: "bytes \<Rightarrow> i64 \<Rightarrow> AssuranceState" where
  "NewAssuranceClock epochID maxAssuranceWidthNs =
    \<lparr>as_Anchor = None, as_LowerDebt = 0, as_UpperDebt = 0,
     as_Status = StatusUnanchored, as_Reason = ReasonNone,
     as_LastSuccessfulRoundRaw = 0, as_PastWatermark = - push_bit 62 1,
     as_Generation = 1, as_AssuranceEpochID = epochID,
     as_MaxAssuranceWidthNs =
       (if maxAssuranceWidthNs \<le>s 0 then MaxAssuranceWidthDefault else maxAssuranceWidthNs)\<rparr>"

definition ValidateHull :: "TimeInterval \<Rightarrow> i64 \<Rightarrow> go_error option" where
  "ValidateHull hullI maxWidthNs =
    (if Latest hullI <s Earliest hullI \<or> maxWidthNs \<le>s 0 then Some ErrInvalidRange
     else if maxWidthNs \<le> Latest hullI - Earliest hullI then Some ErrBoundTooWide
     else None)"

definition isAnchorMatching ::
  "AssuranceAnchor option \<Rightarrow> bytes \<Rightarrow> bytes \<Rightarrow> u64 \<Rightarrow> RateScale \<Rightarrow> RateScale \<Rightarrow> bool" where
  "isAnchorMatching anchor leapID cfgID token low upp =
    (case anchor of None \<Rightarrow> False
     | Some a \<Rightarrow>
       if aa_LeapHistoryID a \<noteq> leapID \<or> aa_ConfigID a \<noteq> cfgID then False
       else if aa_ContinuityToken a \<noteq> token then False
       else aa_RawScaleLower a = low \<and> aa_RawScaleUpper a = upp)"

text \<open>The intersection computed when the old anchor still propagates to the new selection.\<close>

definition intersect_bounds :: "TimeInterval \<Rightarrow> TimeInterval \<Rightarrow> TimeInterval" where
  "intersect_bounds published oldPropagated =
    interval
      (if Earliest published <s Earliest oldPropagated then Earliest oldPropagated else Earliest published)
      (if Latest oldPropagated <s Latest published then Latest oldPropagated else Latest published)"

text \<open>The last part of \<open>ProcessFullRound\<close>: watermark, new anchor, status.\<close>

definition install_round ::
  "AssuranceState \<Rightarrow> TimeInterval \<Rightarrow> RawNanos \<Rightarrow> ErrorNs \<Rightarrow> RateScale \<Rightarrow> RateScale \<Rightarrow> u64 \<Rightarrow> RawNanos \<Rightarrow>
    u32 \<Rightarrow> u32 \<Rightarrow> u32 \<Rightarrow> u32 \<Rightarrow> bytes \<Rightarrow> bytes \<Rightarrow> AssuranceState" where
  "install_round s published rSel rawReadBound scaleLower scaleUpper continuityToken validUntilRaw
     faultBudget eligibleDomains coverageThreshold componentCount leapHistoryID configID =
    (let wm = (if as_PastWatermark s <s Earliest published then Earliest published else as_PastWatermark s);
         newAnchor =
           \<lparr>aa_RawAnchor = rSel, aa_LowerAtAnchor = Earliest published,
            aa_UpperAtAnchor = Latest published, aa_RawScaleLower = scaleLower,
            aa_RawScaleUpper = scaleUpper, aa_RawReadBound = rawReadBound,
            aa_SourceFaultBudget = faultBudget, aa_EligibleDomains = eligibleDomains,
            aa_CoverageThreshold = coverageThreshold, aa_ComponentCount = componentCount,
            aa_LeapHistoryID = leapHistoryID, aa_ConfigID = configID,
            aa_Generation = as_Generation s + 1, aa_CreatedRaw = rSel,
            aa_ValidUntilRaw = validUntilRaw, aa_ContinuityToken = continuityToken\<rparr>
     in s\<lparr>as_PastWatermark := wm, as_Anchor := Some newAnchor, as_LowerDebt := 0, as_UpperDebt := 0,
          as_Status := StatusSynced, as_Reason := ReasonNone, as_LastSuccessfulRoundRaw := rSel,
          as_Generation := as_Generation s + 1\<rparr>)"

definition ProcessFullRound ::
  "AssuranceState \<Rightarrow> RawNanos \<Rightarrow> TimeInterval \<Rightarrow> ErrorNs \<Rightarrow> RateScale \<Rightarrow> RateScale \<Rightarrow> u64 \<Rightarrow> RawNanos \<Rightarrow>
    u32 \<Rightarrow> u32 \<Rightarrow> u32 \<Rightarrow> u32 \<Rightarrow> bytes \<Rightarrow> bytes \<Rightarrow> (go_error + TimeInterval) \<times> AssuranceState" where
  "ProcessFullRound s rSel hullI rawReadBound scaleLower scaleUpper continuityToken validUntilRaw
     faultBudget eligibleDomains coverageThreshold componentCount leapHistoryID configID =
    (case ValidateHull hullI (as_MaxAssuranceWidthNs s) of
       Some e \<Rightarrow> (Inl e, s)
     | None \<Rightarrow>
       let install = (\<lambda>p. (Inr p, install_round s p rSel rawReadBound scaleLower scaleUpper
             continuityToken validUntilRaw faultBudget eligibleDomains coverageThreshold
             componentCount leapHistoryID configID))
       in if (as_Status s = StatusSynced \<or> as_Status s = StatusHoldover) \<and>
             isAnchorMatching (as_Anchor s) leapHistoryID configID continuityToken scaleLower scaleUpper
          then (case PropagateAnchor (as_Anchor s) rSel rawReadBound continuityToken
                       (as_LowerDebt s) (as_UpperDebt s) (as_MaxAssuranceWidthNs s) of
                  Inl _ \<Rightarrow> install hullI
                | Inr oldPropagated \<Rightarrow>
                  let p = intersect_bounds hullI oldPropagated
                  in if Latest p <s Earliest p
                     then (Inl ErrAssuranceConflict,
                           s\<lparr>as_Status := StatusDesync, as_Reason := ReasonAssuranceConflict,
                             as_Anchor := None, as_Generation := as_Generation s + 1\<rparr>)
                     else install p)
          else install hullI)"

definition BeginHoldover :: "AssuranceState \<Rightarrow> StatusReason \<Rightarrow> RawNanos \<Rightarrow> AssuranceState" where
  "BeginHoldover s reason maxAge =
    (if as_Status s \<noteq> StatusSynced \<and> as_Status s \<noteq> StatusHoldover then s
     else
       let s' =
         (if 0 < maxAge \<and> as_LastSuccessfulRoundRaw s \<le> MaxUint64 - maxAge
          then let limit = as_LastSuccessfulRoundRaw s + maxAge
               in (case as_Anchor s of
                     Some a \<Rightarrow> if limit < aa_ValidUntilRaw a
                               then s\<lparr>as_Anchor := Some (a\<lparr>aa_ValidUntilRaw := limit\<rparr>)\<rparr> else s
                   | None \<Rightarrow> s)
          else s)
       in s'\<lparr>as_Status := StatusHoldover, as_Reason := reason, as_Generation := as_Generation s' + 1\<rparr>)"

definition TransitionToHoldover :: "AssuranceState \<Rightarrow> StatusReason \<Rightarrow> AssuranceState" where
  "TransitionToHoldover s reason = BeginHoldover s reason 0"

definition TransitionToDesync :: "AssuranceState \<Rightarrow> StatusReason \<Rightarrow> AssuranceState" where
  "TransitionToDesync s reason =
    s\<lparr>as_Status := StatusDesync, as_Reason := reason, as_Anchor := None,
      as_Generation := as_Generation s + 1\<rparr>"

definition EvaluateAt ::
  "AssuranceState \<Rightarrow> RawNanos \<Rightarrow> ErrorNs \<Rightarrow> u64 \<Rightarrow>
    TimeInterval \<times> SyncStatus \<times> StatusReason \<times> go_error option" where
  "EvaluateAt s r currentRawReadBound continuityToken =
    (if as_Status s = StatusUnanchored \<or> as_Status s = StatusDesync
     then (interval 0 0, as_Status s, as_Reason s, None)
     else
       (case PropagateAnchor (as_Anchor s) r currentRawReadBound continuityToken
               (as_LowerDebt s) (as_UpperDebt s) (as_MaxAssuranceWidthNs s) of
          Inl e \<Rightarrow>
            if errors_Is e ErrAnchorExpired \<or> errors_Is e ErrBoundTooWide
            then (interval 0 0, StatusDesync, ReasonBoundTooOld, Some e)
            else if errors_Is e ErrContinuityTokenMismatch \<or> errors_Is e ErrRawEarlierThanAnchor
            then (interval 0 0, StatusDesync, ReasonRawDiscontinuity, Some e)
            else (interval 0 0, StatusDesync, ReasonArithmeticOverflow, Some e)
        | Inr iv \<Rightarrow> (iv, as_Status s, as_Reason s, None)))"

subsection \<open>Checked addition\<close>

lemma willTermOverflow_iff: "willTermOverflow v d \<longleftrightarrow> \<not> in_i64 (sint v + sint d)"
proof -
  consider "0 < sint d" | "sint d < 0" | "sint d = 0" by linarith
  then show ?thesis
  proof cases
    case 1
    have "sint (MaxInt64 - d) = sint MaxInt64 - sint d"
      using 1 sint64_lt [of d] by (intro sint_sub_exact) (simp add: in_i64_def)
    with 1 sint64_ge [of v] show ?thesis
      by (auto simp: willTermOverflow_def go_signed in_i64_def)
  next
    case 2
    have "sint (MinInt64 - d) = sint MinInt64 - sint d"
      using 2 sint64_ge [of d] by (intro sint_sub_exact) (simp add: in_i64_def)
    with 2 sint64_lt [of v] show ?thesis
      by (auto simp: willTermOverflow_def go_signed in_i64_def)
  next
    case 3
    then show ?thesis
      by (auto simp: willTermOverflow_def go_signed)
  qed
qed

lemma checkedInstantAdd_2:
  "checkedInstantAdd v [d, e] =
    (if in_i64 (sint v + sint d) \<and> in_i64 (sint v + sint d + sint e)
     then Inr (v + d + e) else Inl ErrOverflow)"
  by (auto simp: willTermOverflow_iff sint_add_exact)

lemma checkedInstantAdd_2_Inr:
  assumes "checkedInstantAdd v [d, e] = Inr x"
  shows "sint x = sint v + sint d + sint e"
  using assms by (auto simp: checkedInstantAdd_2 sint_add_exact simp del: checkedInstantAdd.simps split: if_splits)

subsection \<open>What a successful propagation computes\<close>

text \<open>
  The propagation rule over the integers: the elapsed raw time is widened by both read errors,
  scaled by the lower (upper) rate and rounded down (up).
\<close>

definition drLo_int :: "int \<Rightarrow> int \<Rightarrow> int" where
  "drLo_int dr err = max 0 (dr - err)"

lemma PropagateAnchor_Inr:
  assumes "PropagateAnchor (Some a) r rb tok ld ud mw = Inr I"
  defines "dr \<equiv> uint r - uint (aa_RawAnchor a)"
    and "err \<equiv> uint (aa_RawReadBound a) + uint rb"
  shows "0 \<le> dr" and "uint r \<le> uint (aa_ValidUntilRaw a)" and "tok = aa_ContinuityToken a"
    and "0 < sint (aa_RawScaleLower a)" and "sint (aa_RawScaleLower a) \<le> sint (aa_RawScaleUpper a)"
    and "dr + err < 2 ^ 63"
    and "sint (Earliest I) = sint (aa_LowerAtAnchor a)
           + sint (aa_RawScaleLower a) * max 0 (dr - err) div 2 ^ 48 + sint ld"
    and "sint (Latest I) = sint (aa_UpperAtAnchor a)
           + ceil48 (sint (aa_RawScaleUpper a) * (dr + err)) + sint ud"
    and "ordered I"
    and "0 < sint mw \<Longrightarrow> sint (Latest I) - sint (Earliest I) < sint mw"
proof -
  let ?err = "aa_RawReadBound a + rb" and ?dr = "r - aa_RawAnchor a"
  note P = assms(1)[unfolded PropagateAnchor_def option.case Let_def]
  from P have guards: "\<not> r < aa_RawAnchor a" "\<not> aa_ValidUntilRaw a < r" "tok = aa_ContinuityToken a"
     "\<not> aa_RawScaleLower a \<le>s 0" "\<not> aa_RawScaleUpper a <s aa_RawScaleLower a"
     "\<not> MaxUint64 - rb < aa_RawReadBound a" "\<not> MaxInt64 < ?dr" "\<not> MaxInt64 - ?dr < ?err"
    by (auto split: if_splits)
  then show g: "0 \<le> dr" "uint r \<le> uint (aa_ValidUntilRaw a)" "tok = aa_ContinuityToken a"
    "0 < sint (aa_RawScaleLower a)" "sint (aa_RawScaleLower a) \<le> sint (aa_RawScaleUpper a)"
    by (simp_all add: dr_def word_less_def go_signed)
  have dr: "uint ?dr = dr"
    using guards(1) by (simp add: dr_def uint_sub_exact word_le_def word_less_def)
  have err: "uint ?err = err"
    using guards(6) uint64_lt [of rb]
    by (simp add: err_def uint_add_exact word_less_def uint_MaxUint64_sub)
  have "dr \<le> 2 ^ 63 - 1"
    using guards(7) dr by (simp add: word_less_def)
  moreover have "uint (MaxInt64 - ?dr) = 2 ^ 63 - 1 - dr"
    using guards(7) dr by (subst uint_sub_exact) (auto simp: word_le_def word_less_def)
  ultimately show lim: "dr + err < 2 ^ 63"
    using guards(8) err by (simp add: word_less_def)
  have err0: "0 \<le> err" by (simp add: err_def)
  let ?lo = "if ?err < ?dr then ?dr - ?err else 0" and ?hi = "?dr + ?err"
  have "uint ?lo = max 0 (dr - err)"
    using dr err by (auto simp: word_less_def uint_sub_exact word_le_def)
  then have lo: "sint ?lo = max 0 (dr - err)"
    using lim err0 g(1) by (simp only: sint_eq_uint64)
  have "uint ?hi = dr + err"
    using dr err lim by (simp add: uint_add_exact)
  then have hi: "sint ?hi = dr + err"
    using lim by (simp add: sint_eq_uint64)
  from P guards obtain advLo advHi L U where
    m: "MulScaleDurationFloor (aa_RawScaleLower a) ?lo = Inr advLo"
       "MulScaleDurationCeil (aa_RawScaleUpper a) ?hi = Inr advHi"
       "checkedInstantAdd (aa_LowerAtAnchor a) [advLo, ld] = Inr L"
       "checkedInstantAdd (aa_UpperAtAnchor a) [advHi, ud] = Inr U"
    and ends: "\<not> U <s L" "\<not> (L <s 0 \<and> MaxInt64 + L <s U)" "\<not> (0 <s mw \<and> mw \<le>s U - L)"
    and I: "I = interval L U"
    by (simp del: checkedInstantAdd.simps split: sum.splits if_splits)
  show "sint (Earliest I) = sint (aa_LowerAtAnchor a)
           + sint (aa_RawScaleLower a) * max 0 (dr - err) div 2 ^ 48 + sint ld"
    using m(1) checkedInstantAdd_2_Inr [OF m(3)]
    by (auto simp: I MulScaleDurationFloor_spec lo Let_def sint_of_int64 simp del: power_numeral split: if_splits)
  show "sint (Latest I) = sint (aa_UpperAtAnchor a)
           + ceil48 (sint (aa_RawScaleUpper a) * (dr + err)) + sint ud"
    using m(2) checkedInstantAdd_2_Inr [OF m(4)]
    by (auto simp: I MulScaleDurationCeil_spec hi Let_def sint_of_int64 split: if_splits)
  show "ordered I"
    using ends(1) by (simp add: I ordered_def go_signed)
  have "in_i64 (sint U - sint L)"
  proof (cases "sint L < 0")
    case True
    have "sint (MaxInt64 + L) = sint MaxInt64 + sint L"
      using True sint64_ge [of L] by (intro sint_add_exact) (simp add: in_i64_def)
    with True ends(1,2) show ?thesis by (simp add: go_signed in_i64_def)
  next
    case False
    with ends(1) sint64_lt [of U] show ?thesis by (simp add: go_signed in_i64_def)
  qed
  then show "sint (Latest I) - sint (Earliest I) < sint mw" if "0 < sint mw"
    using ends(3) that by (simp add: I go_signed sint_sub_exact)
qed


subsection \<open>Soundness of propagation\<close>

lemma floor_scale_le:
  assumes "0 \<le> (x :: real)" "real_of_int d \<le> x" "0 \<le> s"
  shows "real_of_int (s * d div 2 ^ 48) \<le> real_of_int s / 2 ^ 48 * x"
proof -
  have "real_of_int (s * d div 2 ^ 48) \<le> real_of_int (s * d) / 2 ^ 48"
    using real_of_int_div4 [of "s * d" "2 ^ 48"] by simp
  also have "\<dots> \<le> real_of_int s * x / 2 ^ 48"
    using assms by (simp add: divide_right_mono mult_left_mono)
  finally show ?thesis by simp
qed

lemma ceil_scale_ge:
  assumes "x \<le> real_of_int d" "0 \<le> s"
  shows "real_of_int s / 2 ^ 48 * x \<le> real_of_int (ceil48 (s * d))"
proof -
  have "real_of_int (- (s * d) div 2 ^ 48) \<le> real_of_int (- (s * d)) / 2 ^ 48"
    using real_of_int_div4 [of "- (s * d)" "2 ^ 48"] by simp
  then have "real_of_int (s * d) / 2 ^ 48 \<le> real_of_int (ceil48 (s * d))"
    by (simp add: ceil48_def)
  moreover have "real_of_int s * x / 2 ^ 48 \<le> real_of_int (s * d) / 2 ^ 48"
    using assms by (simp add: divide_right_mono mult_left_mono)
  ultimately show ?thesis by simp
qed

text \<open>A closed interval as a set of real instants.\<close>

definition encloses :: "TimeInterval \<Rightarrow> real \<Rightarrow> bool" where
  "encloses I t \<longleftrightarrow> real_of_int (sint (Earliest I)) \<le> t \<and> t \<le> real_of_int (sint (Latest I))"

text \<open>
  \<open>reads \<rho> r b\<close>: the reading \<open>r\<close> with read bound \<open>b\<close> was taken at the true raw coordinate \<open>\<rho>\<close>.
  \<open>rate_ok \<tau> sl su\<close>: true time \<open>\<tau>\<close>, as a function of the true raw coordinate, advances at a rate
  within the Q16.48 envelope.
\<close>

definition reads :: "real \<Rightarrow> RawNanos \<Rightarrow> ErrorNs \<Rightarrow> bool" where
  "reads \<rho> r b \<longleftrightarrow> \<bar>\<rho> - real_of_int (uint r)\<bar> \<le> real_of_int (uint b)"

definition rate_ok :: "(real \<Rightarrow> real) \<Rightarrow> RateScale \<Rightarrow> RateScale \<Rightarrow> bool" where
  "rate_ok \<tau> sl su \<longleftrightarrow>
    (\<forall>x y. x \<le> y \<longrightarrow> real_of_int (sint sl) / 2 ^ 48 * (y - x) \<le> \<tau> y - \<tau> x
                 \<and> \<tau> y - \<tau> x \<le> real_of_int (sint su) / 2 ^ 48 * (y - x))"

lemma PropagateAnchor_encloses:
  assumes ok: "PropagateAnchor (Some a) r rb tok ld ud mw = Inr I"
    and start: "encloses (interval (aa_LowerAtAnchor a) (aa_UpperAtAnchor a)) (\<tau> \<rho>0)"
    and rd0: "reads \<rho>0 (aa_RawAnchor a) (aa_RawReadBound a)"
    and rd: "reads \<rho> r rb" and later: "\<rho>0 \<le> \<rho>"
    and rate: "rate_ok \<tau> (aa_RawScaleLower a) (aa_RawScaleUpper a)"
    and debts: "sint ld \<le> 0" "0 \<le> sint ud"
  shows "encloses I (\<tau> \<rho>)"
proof -
  note P = PropagateAnchor_Inr [OF ok]
  let ?dr = "uint r - uint (aa_RawAnchor a)" and ?err = "uint (aa_RawReadBound a) + uint rb"
  let ?sl = "sint (aa_RawScaleLower a)" and ?su = "sint (aa_RawScaleUpper a)" and ?x = "\<rho> - \<rho>0"
  have lo: "real_of_int (max 0 (?dr - ?err)) \<le> ?x" and hi: "?x \<le> real_of_int (?dr + ?err)"
    using rd0 rd later unfolding reads_def of_int_max of_int_diff of_int_add of_int_0
    by linarith+
  have "real_of_int (?sl * max 0 (?dr - ?err) div 2 ^ 48) \<le> real_of_int ?sl / 2 ^ 48 * ?x"
    using later P(4) by (intro floor_scale_le lo) simp_all
  also have "\<dots> \<le> \<tau> \<rho> - \<tau> \<rho>0"
    using rate later unfolding rate_ok_def by blast
  finally have 1: "real_of_int (?sl * max 0 (?dr - ?err) div 2 ^ 48) \<le> \<tau> \<rho> - \<tau> \<rho>0" .
  have "\<tau> \<rho> - \<tau> \<rho>0 \<le> real_of_int ?su / 2 ^ 48 * ?x"
    using rate later unfolding rate_ok_def by blast
  also have "\<dots> \<le> real_of_int (ceil48 (?su * (?dr + ?err)))"
    using P(4,5) by (intro ceil_scale_ge hi) simp
  finally have 2: "\<tau> \<rho> - \<tau> \<rho>0 \<le> real_of_int (ceil48 (?su * (?dr + ?err)))" .
  have d: "real_of_int (sint ld) \<le> 0" "0 \<le> real_of_int (sint ud)"
    using debts by (simp_all only: of_int_le_0_iff of_int_0_le_iff)
  show ?thesis
    using 1 2 start d unfolding encloses_def P(7,8) of_int_add by auto
qed

subsection \<open>Validation of a hull\<close>

lemma ValidateHull_None:
  "ValidateHull h w = None \<longleftrightarrow>
    0 < sint w \<and> ordered h \<and> sint (Latest h) - sint (Earliest h) < sint w"
proof (cases "ordered h \<and> 0 < sint w")
  case True
  then have "uint (Latest h - Earliest h) = sint (Latest h) - sint (Earliest h)"
    by (intro uint_sub_signed) (simp add: ordered_def)
  with True show ?thesis
    by (auto simp: ValidateHull_def go_signed ordered_def word_le_def uint_eq_sint64)
next
  case False
  then show ?thesis
    by (auto simp: ValidateHull_def go_signed ordered_def)
qed

lemma contains_intersect_bounds:
  "contains (intersect_bounds p q) t \<longleftrightarrow> contains p t \<and> contains q t"
  by (auto simp: intersect_bounds_def go_signed contains_def)

lemma encloses_intersect_bounds:
  "encloses (intersect_bounds p q) t \<longleftrightarrow> encloses p t \<and> encloses q t"
proof -
  have "real_of_int (sint (Earliest (intersect_bounds p q)))
      = max (real_of_int (sint (Earliest p))) (real_of_int (sint (Earliest q)))"
    "real_of_int (sint (Latest (intersect_bounds p q)))
      = min (real_of_int (sint (Latest p))) (real_of_int (sint (Latest q)))"
    by (simp_all only: intersect_bounds_def TimeInterval.simps go_signed max_def min_def of_int_le_iff)
      (auto simp: not_less dest!: sint_eqI)
  then show ?thesis
    by (auto simp only: encloses_def max.bounded_iff min.bounded_iff)
qed

lemma encloses_ordered: "encloses I t \<Longrightarrow> ordered I"
  unfolding encloses_def ordered_def by (meson of_int_le_iff order_trans)

subsection \<open>The outcomes of a round\<close>

text \<open>
  A round leaves the state alone (invalid hull), drops the anchor (conflict) or installs an
  anchor for an interval within the hull; \<open>round_cases\<close> is the case split of every proof about it.
\<close>

definition conflict_state :: "AssuranceState \<Rightarrow> AssuranceState" where
  "conflict_state s = s\<lparr>as_Status := StatusDesync, as_Reason := ReasonAssuranceConflict,
     as_Anchor := None, as_Generation := as_Generation s + 1\<rparr>"

lemma round_cases:
  assumes "ProcessFullRound s rSel h rb sl su tok vu fb ed ct cc lid cid = (res, s')"
  obtains (invalid) e where "ValidateHull h (as_MaxAssuranceWidthNs s) = Some e" "res = Inl e" "s' = s"
  | (conflict) a q where "ValidateHull h (as_MaxAssuranceWidthNs s) = None"
      "as_Anchor s = Some a" "isAnchorMatching (Some a) lid cid tok sl su"
      "PropagateAnchor (Some a) rSel rb tok (as_LowerDebt s) (as_UpperDebt s) (as_MaxAssuranceWidthNs s) = Inr q"
      "\<not> ordered (intersect_bounds h q)"
      "res = Inl ErrAssuranceConflict" "s' = conflict_state s"
  | (fresh) "ValidateHull h (as_MaxAssuranceWidthNs s) = None" "res = Inr h"
      "s' = install_round s h rSel rb sl su tok vu fb ed ct cc lid cid"
  | (refined) a q where "ValidateHull h (as_MaxAssuranceWidthNs s) = None"
      "as_Anchor s = Some a" "isAnchorMatching (Some a) lid cid tok sl su"
      "PropagateAnchor (Some a) rSel rb tok (as_LowerDebt s) (as_UpperDebt s) (as_MaxAssuranceWidthNs s) = Inr q"
      "ordered (intersect_bounds h q)" "res = Inr (intersect_bounds h q)"
      "s' = install_round s (intersect_bounds h q) rSel rb sl su tok vu fb ed ct cc lid cid"
proof (cases "ValidateHull h (as_MaxAssuranceWidthNs s)")
  case (Some e)
  with assms show ?thesis by (intro invalid) (auto simp: ProcessFullRound_def)
next
  case None
  note P = assms [unfolded ProcessFullRound_def None option.case Let_def]
  show ?thesis
  proof (cases "(as_Status s = StatusSynced \<or> as_Status s = StatusHoldover) \<and>
      isAnchorMatching (as_Anchor s) lid cid tok sl su")
    case False
    with P show ?thesis by (intro fresh None) auto
  next
    case True
    then obtain a where a: "as_Anchor s = Some a"
      by (auto simp: isAnchorMatching_def split: option.splits)
    show ?thesis
    proof (cases "PropagateAnchor (as_Anchor s) rSel rb tok (as_LowerDebt s) (as_UpperDebt s) (as_MaxAssuranceWidthNs s)")
      case (Inl e)
      with P True show ?thesis by (intro fresh None) auto
    next
      case (Inr q)
      show ?thesis
      proof (cases "ordered (intersect_bounds h q)")
        case o: True
        with P True Inr a show ?thesis
          by (intro refined [of a q] None) (auto simp: go_signed ordered_def)
      next
        case o: False
        with P True Inr a show ?thesis
          by (intro conflict [of a q] None) (auto simp: go_signed ordered_def conflict_state_def)
      qed
    qed
  qed
qed

subsection \<open>The invariant of the assurance clock\<close>

definition anchor_ok :: "AssuranceState \<Rightarrow> AssuranceAnchor \<Rightarrow> bool" where
  "anchor_ok s a \<longleftrightarrow>
    sint (aa_LowerAtAnchor a) \<le> sint (aa_UpperAtAnchor a) \<and>
    sint (aa_UpperAtAnchor a) - sint (aa_LowerAtAnchor a) < sint (as_MaxAssuranceWidthNs s) \<and>
    sint (aa_LowerAtAnchor a) \<le> sint (as_PastWatermark s) \<and>
    aa_RawAnchor a = as_LastSuccessfulRoundRaw s \<and> aa_CreatedRaw a = aa_RawAnchor a"

definition assurance_inv :: "AssuranceState \<Rightarrow> bool" where
  "assurance_inv s \<longleftrightarrow>
    0 < sint (as_MaxAssuranceWidthNs s) \<and> as_LowerDebt s = 0 \<and> as_UpperDebt s = 0 \<and>
    (as_Anchor s \<noteq> None \<longleftrightarrow> as_Status s = StatusSynced \<or> as_Status s = StatusHoldover) \<and>
    (case as_Anchor s of None \<Rightarrow> True | Some a \<Rightarrow> anchor_ok s a)"

named_theorems assurance_invs \<open>operations that keep the invariant of the assurance clock\<close>

lemma NewAssuranceClock_inv [assurance_invs]: "assurance_inv (NewAssuranceClock epoch w)"
  by (auto simp: assurance_inv_def NewAssuranceClock_def MaxAssuranceWidthDefault_def go_signed)

lemma conflict_state_inv: "assurance_inv s \<Longrightarrow> assurance_inv (conflict_state s)"
  by (auto simp: assurance_inv_def conflict_state_def)

lemma TransitionToDesync_inv [assurance_invs]: "assurance_inv s \<Longrightarrow> assurance_inv (TransitionToDesync s r)"
  by (auto simp: assurance_inv_def TransitionToDesync_def)

lemma BeginHoldover_inv [assurance_invs]: "assurance_inv s \<Longrightarrow> assurance_inv (BeginHoldover s r m)"
  by (auto simp: assurance_inv_def BeginHoldover_def anchor_ok_def Let_def split: option.splits)

lemma TransitionToHoldover_inv [assurance_invs]: "assurance_inv s \<Longrightarrow> assurance_inv (TransitionToHoldover s r)"
  by (simp add: TransitionToHoldover_def BeginHoldover_inv)

lemma install_round_inv:
  assumes "assurance_inv s" "ordered p"
    and "sint (Latest p) - sint (Earliest p) < sint (as_MaxAssuranceWidthNs s)"
  shows "assurance_inv (install_round s p rSel rb sl su tok vu fb ed ct cc lid cid)"
  using assms
  by (auto simp: assurance_inv_def install_round_def anchor_ok_def Let_def go_signed ordered_def)

lemma intersect_bounds_width:
  "sint (Latest (intersect_bounds h q)) - sint (Earliest (intersect_bounds h q))
     \<le> sint (Latest h) - sint (Earliest h)"
  by (auto simp: intersect_bounds_def go_signed)

lemma ProcessFullRound_inv:
  assumes "assurance_inv s" "ProcessFullRound s rSel h rb sl su tok vu fb ed ct cc lid cid = (res, s')"
  shows "assurance_inv s'"
  using assms(2)
proof (cases rule: round_cases)
  case (refined a q)
  with assms(1) intersect_bounds_width [of h q] show ?thesis
    by (auto intro!: install_round_inv simp: ValidateHull_None)
qed (use assms(1) in \<open>auto intro!: install_round_inv conflict_state_inv simp: ValidateHull_None\<close>)

subsection \<open>The status machine as a step relation\<close>

inductive assurance_step :: "AssuranceState \<Rightarrow> AssuranceState \<Rightarrow> bool" where
  full_round: "ProcessFullRound s rSel h rb sl su tok vu fb ed ct cc lid cid = (res, s') \<Longrightarrow>
     assurance_step s s'"
| holdover: "assurance_step s (BeginHoldover s reason maxAge)"
| desync: "assurance_step s (TransitionToDesync s reason)"

inductive assurance_reachable :: "AssuranceState \<Rightarrow> bool" where
  start: "assurance_reachable (NewAssuranceClock epoch w)"
| step: "assurance_reachable s \<Longrightarrow> assurance_step s t \<Longrightarrow> assurance_reachable t"

lemma assurance_step_inv: "assurance_step s t \<Longrightarrow> assurance_inv s \<Longrightarrow> assurance_inv t"
  by (induction rule: assurance_step.induct) (auto intro: assurance_invs ProcessFullRound_inv)

lemma assurance_reachable_inv: "assurance_reachable s \<Longrightarrow> assurance_inv s"
  by (induction rule: assurance_reachable.induct) (auto intro: assurance_invs assurance_step_inv)

lemma install_round_watermark:
  "sint (as_PastWatermark s) \<le> sint (as_PastWatermark (install_round s p rSel rb sl su tok vu fb ed ct cc lid cid))"
  by (simp add: install_round_def Let_def go_signed)

lemma assurance_step_watermark:
  "assurance_step s t \<Longrightarrow> sint (as_PastWatermark s) \<le> sint (as_PastWatermark t)"
proof (induction rule: assurance_step.induct)
  case (full_round s rSel h rb sl su tok vu fb ed ct cc lid cid res s')
  then show ?case
    by (cases rule: round_cases) (auto simp: conflict_state_def install_round_watermark)
qed (auto simp: BeginHoldover_def TransitionToDesync_def Let_def split: option.splits)

subsection \<open>Holdover and evaluation\<close>

lemma BeginHoldover_Anchor:
  assumes "as_Status s = StatusSynced \<or> as_Status s = StatusHoldover" "as_Anchor s = Some a"
  shows "as_Anchor (BeginHoldover s r m) =
    Some (if 0 < m \<and> uint (as_LastSuccessfulRoundRaw s) + uint m < 2 ^ 64
               \<and> as_LastSuccessfulRoundRaw s + m < aa_ValidUntilRaw a
          then a\<lparr>aa_ValidUntilRaw := as_LastSuccessfulRoundRaw s + m\<rparr> else a)"
proof -
  have "as_LastSuccessfulRoundRaw s \<le> MaxUint64 - m \<longleftrightarrow> uint (as_LastSuccessfulRoundRaw s) + uint m < 2 ^ 64"
    by (auto simp: word_le_def uint_MaxUint64_sub)
  with assms show ?thesis
    by (auto simp: BeginHoldover_def Let_def)
qed

lemma BeginHoldover_frame [simp]:
  "as_LastSuccessfulRoundRaw (BeginHoldover s r m) = as_LastSuccessfulRoundRaw s"
  "as_PastWatermark (BeginHoldover s r m) = as_PastWatermark s"
  "as_MaxAssuranceWidthNs (BeginHoldover s r m) = as_MaxAssuranceWidthNs s"
  by (auto simp: BeginHoldover_def Let_def split: option.splits)

lemma BeginHoldover_Status:
  "as_Status (BeginHoldover s r m) =
    (if as_Status s = StatusSynced \<or> as_Status s = StatusHoldover then StatusHoldover else as_Status s)"
  by (auto simp: BeginHoldover_def Let_def split: option.splits)

lemma BeginHoldover_deadline_le:
  assumes "as_Anchor s = Some a" "as_Anchor (BeginHoldover s r m) = Some a'"
  shows "aa_ValidUntilRaw a' \<le> aa_ValidUntilRaw a" and "a' = a\<lparr>aa_ValidUntilRaw := aa_ValidUntilRaw a'\<rparr>"
  using assms by (auto simp: BeginHoldover_def Let_def split: if_splits)

text \<open>A repeated failure never renews the deadline: holdover is idempotent on the anchor.\<close>

lemma BeginHoldover_repeat:
  assumes "as_Status s = StatusSynced \<or> as_Status s = StatusHoldover" "as_Anchor s = Some a"
  shows "as_Anchor (BeginHoldover (BeginHoldover s r m) r' m) = as_Anchor (BeginHoldover s r m)"
  using assms by (simp add: BeginHoldover_Anchor BeginHoldover_Status)

lemma EvaluateAt_interval:
  assumes "assurance_inv s" "EvaluateAt s r rb tok = (I, st, rs, None)"
    and "st = StatusSynced \<or> st = StatusHoldover"
  obtains a where "as_Anchor s = Some a" "st = as_Status s"
    "PropagateAnchor (Some a) r rb tok 0 0 (as_MaxAssuranceWidthNs s) = Inr I"
proof -
  from assms have st: "as_Status s = StatusSynced \<or> as_Status s = StatusHoldover"
    by (cases "as_Status s") (auto simp: EvaluateAt_def)
  with assms(1) obtain a where a: "as_Anchor s = Some a" and d: "as_LowerDebt s = 0" "as_UpperDebt s = 0"
    by (auto simp: assurance_inv_def)
  from assms(2) st a d have "PropagateAnchor (Some a) r rb tok 0 0 (as_MaxAssuranceWidthNs s) = Inr I"
    and "st = as_Status s"
    by (auto simp: EvaluateAt_def split: sum.splits if_splits)
  with a show ?thesis by (intro that)
qed

subsection \<open>Containment of true time along every truthful run\<close>

text \<open>
  \<open>truthful_run \<tau> s \<rho>\<close>: the state \<open>s\<close> is reached at true raw coordinate \<open>\<rho>\<close> by operations whose
  hulls contain the true time at their selection reading; readings honour their read bounds,
  scale envelopes honour the oscillator, and operations happen in the order of raw time.
  Everything else (which rounds fail, what the other arguments are) is arbitrary.
\<close>

inductive truthful_run :: "(real \<Rightarrow> real) \<Rightarrow> AssuranceState \<Rightarrow> real \<Rightarrow> bool" for \<tau> where
  init: "truthful_run \<tau> (NewAssuranceClock epoch w) \<rho>"
| wait: "truthful_run \<tau> s \<rho> \<Longrightarrow> \<rho> \<le> \<rho>' \<Longrightarrow> truthful_run \<tau> s \<rho>'"
| round: "truthful_run \<tau> s \<rho> \<Longrightarrow> reads \<rho> rSel rb \<Longrightarrow> encloses h (\<tau> \<rho>) \<Longrightarrow> rate_ok \<tau> sl su \<Longrightarrow>
    ProcessFullRound s rSel h rb sl su tok vu fb ed ct cc lid cid = (res, s') \<Longrightarrow> truthful_run \<tau> s' \<rho>"
| holdover: "truthful_run \<tau> s \<rho> \<Longrightarrow> truthful_run \<tau> (BeginHoldover s reason maxAge) \<rho>"
| desync: "truthful_run \<tau> s \<rho> \<Longrightarrow> truthful_run \<tau> (TransitionToDesync s reason) \<rho>"

definition anchor_truth :: "(real \<Rightarrow> real) \<Rightarrow> AssuranceAnchor \<Rightarrow> real \<Rightarrow> bool" where
  "anchor_truth \<tau> a \<rho> \<longleftrightarrow>
    (\<exists>\<rho>0 \<le> \<rho>. reads \<rho>0 (aa_RawAnchor a) (aa_RawReadBound a)
      \<and> encloses (interval (aa_LowerAtAnchor a) (aa_UpperAtAnchor a)) (\<tau> \<rho>0)
      \<and> rate_ok \<tau> (aa_RawScaleLower a) (aa_RawScaleUpper a))"

definition watermark_truth :: "(real \<Rightarrow> real) \<Rightarrow> AssuranceState \<Rightarrow> real \<Rightarrow> bool" where
  "watermark_truth \<tau> s \<rho> \<longleftrightarrow>
    as_PastWatermark s = - push_bit 62 1 \<or> (\<exists>\<rho>0 \<le> \<rho>. real_of_int (sint (as_PastWatermark s)) \<le> \<tau> \<rho>0)"

definition state_truth :: "(real \<Rightarrow> real) \<Rightarrow> AssuranceState \<Rightarrow> real \<Rightarrow> bool" where
  "state_truth \<tau> s \<rho> \<longleftrightarrow>
    (case as_Anchor s of None \<Rightarrow> True | Some a \<Rightarrow> anchor_truth \<tau> a \<rho>) \<and> watermark_truth \<tau> s \<rho>"

lemma anchor_truth_propagates:
  assumes "anchor_truth \<tau> a \<rho>" "reads \<rho> r rb" "PropagateAnchor (Some a) r rb tok 0 0 mw = Inr I"
  shows "encloses I (\<tau> \<rho>)"
  using assms PropagateAnchor_encloses [OF assms(3)] unfolding anchor_truth_def by auto

lemma state_truth_wait: "state_truth \<tau> s \<rho> \<Longrightarrow> \<rho> \<le> \<rho>' \<Longrightarrow> state_truth \<tau> s \<rho>'"
  unfolding state_truth_def anchor_truth_def watermark_truth_def
  by (auto split: option.splits intro: order_trans)

lemma state_truth_install:
  assumes "state_truth \<tau> s \<rho>" "encloses p (\<tau> \<rho>)" "reads \<rho> rSel rb" "rate_ok \<tau> sl su"
  shows "state_truth \<tau> (install_round s p rSel rb sl su tok vu fb ed ct cc lid cid) \<rho>"
proof -
  have wm: "real_of_int (sint (Earliest p)) \<le> \<tau> \<rho>"
    using assms(2) by (simp only: encloses_def)
  let ?s = "install_round s p rSel rb sl su tok vu fb ed ct cc lid cid"
  have "as_PastWatermark ?s = as_PastWatermark s \<or> as_PastWatermark ?s = Earliest p"
    by (simp add: install_round_def Let_def)
  then have "watermark_truth \<tau> ?s \<rho>"
    using assms(1) wm unfolding state_truth_def watermark_truth_def by auto
  moreover have "\<exists>a. as_Anchor ?s = Some a \<and> anchor_truth \<tau> a \<rho>"
    using assms(2-) by (auto simp: install_round_def Let_def anchor_truth_def encloses_def)
  ultimately show ?thesis
    by (auto simp: state_truth_def)
qed

lemma truthful_run_inv: "truthful_run \<tau> s \<rho> \<Longrightarrow> assurance_inv s"
  by (induction rule: truthful_run.induct) (auto intro: assurance_invs ProcessFullRound_inv)

text \<open>A truthful round is consistent with a truthful anchor: the intersection contains true time.\<close>

lemma truthful_intersection:
  assumes "assurance_inv s" "state_truth \<tau> s \<rho>" "as_Anchor s = Some a" "reads \<rho> rSel rb" "encloses h (\<tau> \<rho>)"
    and "PropagateAnchor (Some a) rSel rb tok (as_LowerDebt s) (as_UpperDebt s) mw = Inr q"
  shows "encloses (intersect_bounds h q) (\<tau> \<rho>)"
  using assms anchor_truth_propagates [of \<tau> a \<rho> rSel rb tok mw q]
  by (simp add: encloses_intersect_bounds state_truth_def assurance_inv_def)

lemma truthful_run_truth: "truthful_run \<tau> s \<rho> \<Longrightarrow> state_truth \<tau> s \<rho>"
proof (induction rule: truthful_run.induct)
  case (init epoch w \<rho>)
  show ?case by (simp add: state_truth_def NewAssuranceClock_def watermark_truth_def)
next
  case (wait s \<rho> \<rho>')
  then show ?case by (blast intro: state_truth_wait)
next
  case (round s \<rho> rSel rb h sl su tok vu fb ed ct cc lid cid res s')
  note inv = truthful_run_inv [OF round.hyps(1)]
  from \<open>ProcessFullRound s rSel h rb sl su tok vu fb ed ct cc lid cid = (res, s')\<close>
  show ?case
  proof (cases rule: round_cases)
    case (conflict a q)
    with round.IH show ?thesis
      by (simp add: state_truth_def conflict_state_def watermark_truth_def)
  next
    case (refined a q)
    have "encloses (intersect_bounds h q) (\<tau> \<rho>)"
      using refined round.hyps by (intro truthful_intersection [OF inv round.IH]) auto
    with refined round show ?thesis
      by (auto intro!: state_truth_install)
  qed (use round in \<open>auto intro!: state_truth_install\<close>)
next
  case (holdover s \<rho> reason maxAge)
  show ?case
  proof (cases "as_Anchor (BeginHoldover s reason maxAge)")
    case None
    with holdover.IH show ?thesis
      by (simp add: state_truth_def watermark_truth_def)
  next
    case (Some a')
    then obtain a where a: "as_Anchor s = Some a"
      by (auto simp: BeginHoldover_def Let_def split: if_splits option.splits)
    have "anchor_truth \<tau> a' \<rho> = anchor_truth \<tau> a \<rho>"
      by (subst BeginHoldover_deadline_le(2) [OF a Some]) (simp add: anchor_truth_def)
    with Some a holdover.IH show ?thesis
      by (simp add: state_truth_def watermark_truth_def)
  qed
next
  case (desync s \<rho> reason)
  then show ?case
    by (simp add: state_truth_def TransitionToDesync_def watermark_truth_def)
qed

lemma truthful_evaluation_encloses:
  assumes "truthful_run \<tau> s \<rho>" "reads \<rho> r rb" "EvaluateAt s r rb tok = (I, st, rs, None)"
    and "st = StatusSynced \<or> st = StatusHoldover"
  shows "encloses I (\<tau> \<rho>)"
proof -
  obtain a where a: "as_Anchor s = Some a"
    and p: "PropagateAnchor (Some a) r rb tok 0 0 (as_MaxAssuranceWidthNs s) = Inr I"
    using EvaluateAt_interval [OF truthful_run_inv [OF assms(1)] assms(3,4)] by blast
  have "anchor_truth \<tau> a \<rho>"
    using truthful_run_truth [OF assms(1)] a by (simp add: state_truth_def)
  then show ?thesis
    using assms(2) p by (rule anchor_truth_propagates)
qed

lemma truthful_round_no_conflict:
  assumes "truthful_run \<tau> s \<rho>" "reads \<rho> rSel rb" "encloses h (\<tau> \<rho>)"
    and "ProcessFullRound s rSel h rb sl su tok vu fb ed ct cc lid cid = (res, s')"
  shows "res \<noteq> Inl ErrAssuranceConflict"
  using assms(4)
proof (cases rule: round_cases)
  case (invalid e)
  then show ?thesis by (auto simp: ValidateHull_def split: if_splits)
next
  case (conflict a q)
  then have "encloses (intersect_bounds h q) (\<tau> \<rho>)"
    using truthful_intersection [OF truthful_run_inv [OF assms(1)] truthful_run_truth [OF assms(1)]]
      assms(2,3) by blast
  with conflict show ?thesis by (auto dest: encloses_ordered)
qed simp_all

lemma truthful_watermark:
  assumes "truthful_run \<tau> s \<rho>" "mono \<tau>" "as_PastWatermark s \<noteq> - push_bit 62 1"
  shows "real_of_int (sint (as_PastWatermark s)) \<le> \<tau> \<rho>"
  using truthful_run_truth [OF assms(1)] assms(2,3)
  unfolding state_truth_def watermark_truth_def by (meson monoD order_trans)

subsection \<open>Properties\<close>

text \<open>Soundness of propagation. If the anchor's bounds contain true time at the anchor reading,
  both readings honour their read bounds, true time advances within the anchor's rate envelope and
  the debts only widen, then the propagated interval contains true time at the later reading.\<close>

theorem PropagateAnchor_sound:
  assumes "PropagateAnchor (Some a) r rb tok ld ud mw = Inr I"
    and "encloses (interval (aa_LowerAtAnchor a) (aa_UpperAtAnchor a)) (\<tau> \<rho>0)"
    and "reads \<rho>0 (aa_RawAnchor a) (aa_RawReadBound a)" "reads \<rho> r rb" "\<rho>0 \<le> \<rho>"
    and "rate_ok \<tau> (aa_RawScaleLower a) (aa_RawScaleUpper a)" "sint ld \<le> 0" "0 \<le> sint ud"
  shows "encloses I (\<tau> \<rho>)"
  using assms by (rule PropagateAnchor_encloses)

definition sample_anchor :: AssuranceAnchor where
  "sample_anchor =
    \<lparr>aa_RawAnchor = 1000, aa_LowerAtAnchor = 500, aa_UpperAtAnchor = 700,
     aa_RawScaleLower = OneQ48, aa_RawScaleUpper = OneQ48, aa_RawReadBound = 10,
     aa_SourceFaultBudget = 1, aa_EligibleDomains = 3, aa_CoverageThreshold = 2,
     aa_ComponentCount = 1, aa_LeapHistoryID = [], aa_ConfigID = [], aa_Generation = 2,
     aa_CreatedRaw = 1000, aa_ValidUntilRaw = 5000, aa_ContinuityToken = 1\<rparr>"

lemma rate_ok_identity: "rate_ok (\<lambda>x. x + c) OneQ48 OneQ48"
  unfolding rate_ok_def sint_OneQ48 by simp

lemma sample_propagates: "PropagateAnchor (Some sample_anchor) 2000 10 1 0 0 1000 = Inr (interval 1480 1720)"
  by code_simp

theorem PropagateAnchor_sound_witness: "encloses (interval 1480 1720) (1600 :: real)"
  by (rule PropagateAnchor_sound [OF sample_propagates, of "\<lambda>x. x - 400" 1000 2000, simplified])
    (use rate_ok_identity [of "- 400"] in \<open>simp_all add: sample_anchor_def encloses_def reads_def\<close>)

text \<open>C8: containment of true time. Along every run in which each round's hull contains true time at
  its selection reading (rounds may fail, holdover and desynchronization may come at any time),
  every interval served as synced or holdover contains true time at the reading it was served for.\<close>

theorem served_interval_contains_true_time:
  assumes "truthful_run \<tau> s \<rho>" "reads \<rho> r rb" "EvaluateAt s r rb tok = (I, st, rs, None)"
    and "st = StatusSynced \<or> st = StatusHoldover"
  shows "encloses I (\<tau> \<rho>)"
  using assms by (rule truthful_evaluation_encloses)

definition sample_round :: "AssuranceState \<Rightarrow> (go_error + TimeInterval) \<times> AssuranceState" where
  "sample_round s = ProcessFullRound s 1000 (interval 500 700) 10 OneQ48 OneQ48 1 5000 1 3 2 1 [] []"

definition sample_synced :: AssuranceState where
  "sample_synced = snd (sample_round (NewAssuranceClock [] 1000))"

lemma sample_round_result: "sample_round (NewAssuranceClock [] 1000) = (Inr (interval 500 700), sample_synced)"
  by code_simp

lemma sample_evaluates:
  "EvaluateAt sample_synced 2000 10 1 = (interval 1480 1720, StatusSynced, ReasonNone, None)"
  by code_simp

lemma sample_truthful: "truthful_run (\<lambda>x. x - 400) sample_synced 1000"
  by (rule truthful_run.round [OF truthful_run.init _ _ _ sample_round_result [unfolded sample_round_def]])
    (use rate_ok_identity [of "- 400"] in \<open>simp_all add: encloses_def reads_def\<close>)

theorem served_interval_contains_true_time_witness: "encloses (interval 1480 1720) (1600 :: real)"
  using served_interval_contains_true_time
      [OF truthful_run.wait [OF sample_truthful, of 2000] _ sample_evaluates]
  by (simp add: reads_def)

text \<open>A truthful round is never reported as an assurance conflict; a reported conflict proves
  that some hull, read bound or rate envelope was wrong.\<close>

theorem truthful_round_never_conflicts:
  assumes "truthful_run \<tau> s \<rho>" "reads \<rho> rSel rb" "encloses h (\<tau> \<rho>)"
    and "ProcessFullRound s rSel h rb sl su tok vu fb ed ct cc lid cid = (res, s')"
  shows "res \<noteq> Inl ErrAssuranceConflict \<and> truthful_run \<tau> s \<rho>"
  using truthful_round_no_conflict [OF assms] assms(1) by blast

theorem truthful_round_never_conflicts_witness:
  "fst (sample_round sample_synced) \<noteq> Inl ErrAssuranceConflict"
  using truthful_round_never_conflicts
      [OF sample_truthful, of 1000 10 "interval 500 700" OneQ48 OneQ48 1 5000 1 3 2 1 "[]" "[]"
        "fst (sample_round sample_synced)" "snd (sample_round sample_synced)"]
  by (simp add: reads_def encloses_def sample_round_def)

text \<open>The past watermark never goes back, whatever the sequence of rounds, holdovers and
  desynchronizations, and in a truthful run it never runs ahead of true time.\<close>

theorem watermark_never_decreases:
  assumes "assurance_step\<^sup>*\<^sup>* s t"
  shows "sint (as_PastWatermark s) \<le> sint (as_PastWatermark t)"
  using assms by (induction rule: rtranclp_induct) (auto dest: assurance_step_watermark)

theorem watermark_never_decreases_witness:
  "sint (as_PastWatermark (NewAssuranceClock [] 1000)) \<le> sint (as_PastWatermark sample_synced)"
  by (rule watermark_never_decreases)
    (rule r_into_rtranclp, rule assurance_step.full_round, rule sample_round_result [unfolded sample_round_def])

text \<open>A certified past watermark is past. In a truthful run, once any round has raised it, the
  watermark is at most true time.\<close>

theorem watermark_is_past:
  assumes "truthful_run \<tau> s \<rho>" "mono \<tau>" "as_PastWatermark s \<noteq> as_PastWatermark (NewAssuranceClock epoch w)"
  shows "real_of_int (sint (as_PastWatermark s)) \<le> \<tau> \<rho>"
  using truthful_watermark [OF assms(1,2)] assms(3) by (simp add: NewAssuranceClock_def)

theorem watermark_is_past_witness: "real_of_int (sint (500 :: i64)) \<le> (600 :: real)"
proof -
  have w: "as_PastWatermark sample_synced = 500" "as_PastWatermark (NewAssuranceClock [] 1000) = - push_bit 62 1"
    by code_simp+
  show ?thesis
    using watermark_is_past [OF sample_truthful, of "[]" 1000] by (simp add: w mono_def)
qed

text \<open>C31: the invariant of the assurance clock in every reachable state: an anchor is present
  exactly in the synced and holdover states, its bounds are ordered and narrower than the width
  limit, the watermark covers its lower bound and no debt is carried.\<close>

theorem assurance_clock_invariant:
  assumes "assurance_reachable s"
  shows "0 < sint (as_MaxAssuranceWidthNs s) \<and> as_LowerDebt s = 0 \<and> as_UpperDebt s = 0 \<and>
    (case as_Anchor s of
       None \<Rightarrow> as_Status s = StatusUnanchored \<or> as_Status s = StatusDesync
     | Some a \<Rightarrow> as_Status s \<in> {StatusSynced, StatusHoldover} \<and>
         sint (aa_LowerAtAnchor a) \<le> sint (aa_UpperAtAnchor a) \<and>
         sint (aa_UpperAtAnchor a) - sint (aa_LowerAtAnchor a) < sint (as_MaxAssuranceWidthNs s) \<and>
         sint (aa_LowerAtAnchor a) \<le> sint (as_PastWatermark s) \<and>
         aa_RawAnchor a = as_LastSuccessfulRoundRaw s)"
  using assurance_reachable_inv [OF assms]
  by (cases "as_Status s") (auto simp: assurance_inv_def anchor_ok_def split: option.splits)

theorem assurance_clock_invariant_witness: "sint (as_MaxAssuranceWidthNs (TransitionToDesync sample_synced ReasonRawDiscontinuity)) > 0"
proof -
  have "assurance_step (NewAssuranceClock [] 1000) sample_synced"
    by (rule assurance_step.full_round, rule sample_round_result [unfolded sample_round_def])
  then have "assurance_reachable (TransitionToDesync sample_synced ReasonRawDiscontinuity)"
    by (intro assurance_reachable.intros(2) [OF _ assurance_step.desync])
      (rule assurance_reachable.step [OF assurance_reachable.start])
  from assurance_clock_invariant [OF this] show ?thesis by blast
qed

text \<open>The holdover deadline. However many failed rounds follow the last good one, and whatever
  reasons they give, the anchor stays usable until its own expiry or the maximum age after the
  last good round, whichever comes first; repeated failures never renew it.\<close>

theorem holdover_deadline_never_renewed:
  assumes "as_Status s = StatusSynced \<or> as_Status s = StatusHoldover" "as_Anchor s = Some a"
    and "0 < m" "uint (as_LastSuccessfulRoundRaw s) + uint m < 2 ^ 64" "rs \<noteq> []"
  shows "as_Anchor (foldl (\<lambda>s r. BeginHoldover s r m) s rs) =
    Some (a\<lparr>aa_ValidUntilRaw := min (aa_ValidUntilRaw a) (as_LastSuccessfulRoundRaw s + m)\<rparr>)"
  using assms(5)
proof (induction rs rule: rev_nonempty_induct)
  case (single r)
  then show ?case
    using assms(1-4) by (auto simp: BeginHoldover_Anchor min_def)
next
  case (snoc r rs)
  let ?s = "foldl (\<lambda>s r. BeginHoldover s r m) s rs"
  have frame: "as_LastSuccessfulRoundRaw ?s = as_LastSuccessfulRoundRaw s
      \<and> (as_Status ?s = StatusSynced \<or> as_Status ?s = StatusHoldover)"
    using assms(1) by (induction rs rule: rev_induct) (auto simp: BeginHoldover_Status)
  with snoc.IH assms(3,4) show ?case
    by (simp add: BeginHoldover_Anchor min_def)
qed

theorem holdover_deadline_never_renewed_witness:
  "as_Anchor (foldl (\<lambda>s r. BeginHoldover s r 2500) sample_synced [ReasonInsufficientDomains, ReasonBoundTooOld]) =
    Some (the (as_Anchor sample_synced)\<lparr>aa_ValidUntilRaw := 3500\<rparr>)"
proof -
  have s: "as_Status sample_synced = StatusSynced" "as_Anchor sample_synced \<noteq> None"
    "as_LastSuccessfulRoundRaw sample_synced = 1000" "aa_ValidUntilRaw (the (as_Anchor sample_synced)) = 5000"
    by code_simp+
  show ?thesis
    using holdover_deadline_never_renewed
        [of sample_synced "the (as_Anchor sample_synced)" 2500 "[ReasonInsufficientDomains, ReasonBoundTooOld]"] s
    by (simp add: min_def)
qed

text \<open>What a round does on every branch. A hull that is disordered or too wide changes
  nothing; a conflict desynchronizes and drops the anchor; otherwise the published interval lies
  within the hull (and within the old anchor's propagation when that anchor still applies), it
  becomes the anchor at the selection reading, and the watermark rises to its lower end.\<close>

theorem ProcessFullRound_outcomes:
  "case ProcessFullRound s rSel h rb sl su tok vu fb ed ct cc lid cid of (res, s') \<Rightarrow>
    (case res of
       Inr p \<Rightarrow> sint (Earliest h) \<le> sint (Earliest p) \<and> ordered p \<and> sint (Latest p) \<le> sint (Latest h) \<and>
         sint (Latest p) - sint (Earliest p) < sint (as_MaxAssuranceWidthNs s) \<and>
         as_Status s' = StatusSynced \<and> as_Reason s' = ReasonNone \<and> as_Generation s' = as_Generation s + 1 \<and>
         sint (as_PastWatermark s') = max (sint (as_PastWatermark s)) (sint (Earliest p)) \<and>
         as_LastSuccessfulRoundRaw s' = rSel \<and>
         (\<exists>a. as_Anchor s' = Some a \<and> aa_RawAnchor a = rSel \<and> aa_LowerAtAnchor a = Earliest p \<and>
           aa_UpperAtAnchor a = Latest p \<and> aa_ValidUntilRaw a = vu \<and> aa_RawReadBound a = rb \<and>
           aa_RawScaleLower a = sl \<and> aa_RawScaleUpper a = su \<and> aa_ContinuityToken a = tok)
     | Inl e \<Rightarrow> if ValidateHull h (as_MaxAssuranceWidthNs s) = None
         then e = ErrAssuranceConflict \<and> s' = TransitionToDesync s ReasonAssuranceConflict
         else (e = ErrInvalidRange \<or> e = ErrBoundTooWide) \<and> s' = s)"
proof -
  obtain res s' where R: "ProcessFullRound s rSel h rb sl su tok vu fb ed ct cc lid cid = (res, s')"
    by fastforce
  then show ?thesis
  proof (cases rule: round_cases)
    case (invalid e)
    with R show ?thesis by (auto simp: ValidateHull_def split: if_splits)
  next
    case (conflict a q)
    with R show ?thesis by (simp add: TransitionToDesync_def conflict_state_def)
  next
    case fresh
    then show ?thesis
      by (simp only: R prod.case sum.case) (auto simp: ValidateHull_None install_round_def Let_def go_signed)
  next
    case (refined a q)
    then show ?thesis
      using intersect_bounds_width [of h q]
      by (simp only: R prod.case sum.case)
        (auto simp: ValidateHull_None install_round_def Let_def go_signed intersect_bounds_def)
  qed
qed

end
