(* ===== verification/Consensus.thy ===== *)
theory Consensus
  imports Assurance "HOL-Library.AList" "HOL-Library.Product_Lexorder"
begin

text \<open>
  Package source, the interval side (\<open>source/assurance.go\<close>): consolidation of the endpoints of one
  fault domain, the N-F coverage sweep, the merge of touching components, the choice of the
  primary component, and the consensus of one round.

  A Go \<open>int\<close> that comes from the configuration (\<open>F\<close>, the minimum counts) is a 64-bit word, since
  \<open>2*F+1\<close> can wrap; the event counters of the sweep are bounded by the number of intervals and
  are integers. The map from instants to events is an association list; its keys are sorted
  before they are visited, so the unspecified iteration order of a Go map cannot be observed.
\<close>

subsection \<open>Consolidation of a fault domain\<close>

record ConsolidatedDomainInterval =
  cd_DomainID :: FaultDomainID
  cd_Interval :: TimeInterval
  cd_Inconsistent :: bool

fun consolidate_loop :: "GstInstant \<Rightarrow> GstInstant \<Rightarrow> TimeInterval list \<Rightarrow> GstInstant \<times> GstInstant" where
  "consolidate_loop maxLo minHi [] = (maxLo, minHi)"
| "consolidate_loop maxLo minHi (I # Is) =
     consolidate_loop (if maxLo <s Earliest I then Earliest I else maxLo)
       (if Latest I <s minHi then Latest I else minHi) Is"

definition ConsolidateDomainIntervals :: "FaultDomainID \<Rightarrow> TimeInterval list \<Rightarrow> ConsolidatedDomainInterval" where
  "ConsolidateDomainIntervals domainID intervals =
    (case intervals of
       [] \<Rightarrow> \<lparr>cd_DomainID = domainID, cd_Interval = interval 0 0, cd_Inconsistent = True\<rparr>
     | I # Is \<Rightarrow>
       let (maxLo, minHi) = consolidate_loop (Earliest I) (Latest I) Is
       in if minHi <s maxLo
          then \<lparr>cd_DomainID = domainID, cd_Interval = interval 0 0, cd_Inconsistent = True\<rparr>
          else \<lparr>cd_DomainID = domainID, cd_Interval = interval maxLo minHi, cd_Inconsistent = False\<rparr>)"

subsection \<open>The coverage sweep\<close>

record AssuranceConsensusResult =
  cr_Hull :: TimeInterval
  cr_Components :: "TimeInterval list"
  cr_PrimaryComponent :: TimeInterval
  cr_ControlTarget :: GstInstant
  cr_ControlBridge :: DurationNs
  cr_EligibleDomains :: i64
  cr_FaultBudget :: i64
  cr_ThresholdK :: i64

record event =
  lows :: int
  highs :: int

type_synonym events = "(GstInstant \<times> event) list"

definition event_at :: "events \<Rightarrow> GstInstant \<Rightarrow> event" where
  "event_at evs x = (case map_of evs x of None \<Rightarrow> \<lparr>lows = 0, highs = 0\<rparr> | Some e \<Rightarrow> e)"

definition add_low :: "GstInstant \<Rightarrow> events \<Rightarrow> events" where
  "add_low x evs = AList.update x ((event_at evs x)\<lparr>lows := lows (event_at evs x) + 1\<rparr>) evs"

definition add_high :: "GstInstant \<Rightarrow> events \<Rightarrow> events" where
  "add_high x evs = AList.update x ((event_at evs x)\<lparr>highs := highs (event_at evs x) + 1\<rparr>) evs"

fun collect_events :: "TimeInterval list \<Rightarrow> events \<Rightarrow> go_error + events" where
  "collect_events [] evs = Inr evs"
| "collect_events (I # Is) evs =
     (if Latest I <s Earliest I then Inl ErrInvalidRange
      else collect_events Is (add_high (Latest I) (add_low (Earliest I) evs)))"

text \<open>
  The loop over the sorted instants: \<open>openComp\<close> is the component under construction, \<open>hd xs\<close> in
  the code is \<open>xs[index+1]\<close>.
\<close>

fun sweep_loop ::
  "int \<Rightarrow> (GstInstant \<Rightarrow> event) \<Rightarrow> int \<Rightarrow> TimeInterval option \<Rightarrow> TimeInterval list \<Rightarrow> GstInstant list \<Rightarrow>
    TimeInterval list" where
  "sweep_loop k ev depthBetween openComp components [] =
     (case openComp of None \<Rightarrow> components | Some c \<Rightarrow> components @ [c])"
| "sweep_loop k ev depthBetween openComp components (x # xs) =
     (let e = ev x;
          depthAtPoint = depthBetween + lows e;
          pointIncluded = (k \<le> depthAtPoint);
          depthAfter = depthAtPoint - highs e;
          spanIncluded = (xs \<noteq> [] \<and> k \<le> depthAfter);
          open1 = (if pointIncluded
                   then (case openComp of None \<Rightarrow> Some (interval x x) | Some c \<Rightarrow> Some (c\<lparr>Latest := x\<rparr>))
                   else openComp)
      in if spanIncluded
         then let c = (case open1 of None \<Rightarrow> interval x x | Some c \<Rightarrow> c)
              in sweep_loop k ev depthAfter (Some (c\<lparr>Latest := hd xs\<rparr>)) components xs
         else (case open1 of
                 None \<Rightarrow> sweep_loop k ev depthAfter None components xs
               | Some c \<Rightarrow> sweep_loop k ev depthAfter None (components @ [c]) xs))"

fun merge_loop :: "TimeInterval \<Rightarrow> TimeInterval list \<Rightarrow> TimeInterval list \<Rightarrow> TimeInterval list" where
  "merge_loop current merged [] = merged @ [current]"
| "merge_loop current merged (c # cs) =
     (if Earliest c \<le>s Latest current
      then merge_loop (if Latest current <s Latest c then current\<lparr>Latest := Latest c\<rparr> else current) merged cs
      else merge_loop c (merged @ [current]) cs)"

definition mergeTouchingComponents :: "TimeInterval list \<Rightarrow> TimeInterval list" where
  "mergeTouchingComponents comps =
    (if length comps \<le> 1 then comps else merge_loop (hd comps) [] (tl comps))"

text \<open>The length of a slice as a Go \<open>int\<close>.\<close>

definition go_len :: "'a list \<Rightarrow> i64" where
  "go_len xs = word_of_int (int (length xs))"

definition ComputeCoverageComponents :: "TimeInterval list \<Rightarrow> i64 \<Rightarrow> go_error + TimeInterval list" where
  "ComputeCoverageComponents intervals F =
    (let N = go_len intervals
     in if N <s 2 * F + 1 then Inl ErrInsufficientDomains
        else
          let k = N - F
          in case collect_events intervals [] of
               Inl e \<Rightarrow> Inl e
             | Inr evs \<Rightarrow>
               let xs = sort_key sint (map fst evs)
               in Inr (mergeTouchingComponents (sweep_loop (sint k) (event_at evs) 0 None [] xs)))"

subsection \<open>The primary component\<close>

record compMetric =
  cm_comp :: TimeInterval
  cm_contains :: bool
  cm_dist :: DurationNs
  cm_maxDepth :: int
  cm_width :: DurationNs

definition comp_metric :: "GstInstant \<Rightarrow> TimeInterval list \<Rightarrow> TimeInterval \<Rightarrow> compMetric" where
  "comp_metric priorTarget intervals c =
    (let contains = (Earliest c \<le>s priorTarget \<and> priorTarget \<le>s Latest c);
         dist = (if contains then 0
                 else if priorTarget <s Earliest c then Earliest c - priorTarget
                 else priorTarget - Latest c);
         mid = Earliest c + go_quot (Latest c - Earliest c) 2;
         depth = int (length (filter (\<lambda>I. Earliest I \<le>s mid \<and> mid \<le>s Latest I) intervals))
     in \<lparr>cm_comp = c, cm_contains = contains, cm_dist = dist, cm_maxDepth = depth,
         cm_width = Latest c - Earliest c\<rparr>)"

definition metric_less :: "compMetric \<Rightarrow> compMetric \<Rightarrow> bool" where
  "metric_less m1 m2 =
    (if cm_contains m1 \<noteq> cm_contains m2 then cm_contains m1
     else if cm_dist m1 \<noteq> cm_dist m2 then cm_dist m1 <s cm_dist m2
     else if cm_maxDepth m1 \<noteq> cm_maxDepth m2 then cm_maxDepth m2 < cm_maxDepth m1
     else if cm_width m1 \<noteq> cm_width m2 then cm_width m1 <s cm_width m2
     else Earliest (cm_comp m1) <s Earliest (cm_comp m2))"

text \<open>\<open>sort.SliceStable\<close>: a stable sort by the strict order given.\<close>

fun insert_stable :: "('a \<Rightarrow> 'a \<Rightarrow> bool) \<Rightarrow> 'a \<Rightarrow> 'a list \<Rightarrow> 'a list" where
  "insert_stable lt x [] = [x]"
| "insert_stable lt x (y # ys) = (if lt y x then y # insert_stable lt x ys else x # y # ys)"

fun sort_SliceStable :: "('a \<Rightarrow> 'a \<Rightarrow> bool) \<Rightarrow> 'a list \<Rightarrow> 'a list" where
  "sort_SliceStable lt [] = []"
| "sort_SliceStable lt (x # xs) = insert_stable lt x (sort_SliceStable lt xs)"

definition SelectPrimaryComponent ::
  "TimeInterval list \<Rightarrow> GstInstant \<Rightarrow> TimeInterval list \<Rightarrow> TimeInterval outcome" where
  "SelectPrimaryComponent components priorTarget intervals =
    (if length components = 1 then Ret (hd components)
     else case sort_SliceStable metric_less (map (comp_metric priorTarget intervals) components) of
            [] \<Rightarrow> Panic
          | m # _ \<Rightarrow> Ret (cm_comp m))"

subsection \<open>The consensus of a round\<close>

definition ComputeAssuranceConsensus ::
  "TimeInterval list \<Rightarrow> i64 \<Rightarrow> i64 \<Rightarrow> i64 \<Rightarrow> GstInstant \<Rightarrow> GstInstant \<Rightarrow>
    (go_error + AssuranceConsensusResult) outcome" where
  "ComputeAssuranceConsensus domainIntervals F minVotingDomains minHonestCoverage priorTarget estimateTarget =
    (let N = go_len domainIntervals;
         minRequired = (if minVotingDomains <s 2 * F + 1 then 2 * F + 1 else minVotingDomains)
     in if N <s minRequired then Ret (Inl ErrInsufficientDomains)
        else
          let k = N - F
          in if k <s minHonestCoverage then Ret (Inl ErrInsufficientDomains)
             else (case ComputeCoverageComponents domainIntervals F of
               Inl e \<Rightarrow> Ret (Inl e)
             | Inr components \<Rightarrow>
               if components = [] then Ret (Inl ErrEmptyCoverageSet)
               else
                 let hullI = interval (Earliest (hd components)) (Latest (last components))
                 in case SelectPrimaryComponent components priorTarget domainIntervals of
                      Panic \<Rightarrow> Panic
                    | Ret primary \<Rightarrow>
                      let controlTarget =
                            (if estimateTarget <s Earliest primary then Earliest primary
                             else if Latest primary <s estimateTarget then Latest primary
                             else estimateTarget)
                      in Ret (Inr
                           \<lparr>cr_Hull = hullI, cr_Components = components, cr_PrimaryComponent = primary,
                            cr_ControlTarget = controlTarget,
                            cr_ControlBridge = controlTarget - estimateTarget,
                            cr_EligibleDomains = N, cr_FaultBudget = F, cr_ThresholdK = k\<rparr>)))"

subsection \<open>Consolidation\<close>

lemma consolidate_loop_contains:
  "(case consolidate_loop lo hi Is of (a, b) \<Rightarrow> contains (interval a b) t)
    \<longleftrightarrow> contains (interval lo hi) t \<and> (\<forall>I \<in> set Is. contains I t)"
  by (induction lo hi Is rule: consolidate_loop.induct) (auto simp: go_signed contains_def split: prod.splits)

lemma consolidate_contains:
  assumes "\<not> cd_Inconsistent (ConsolidateDomainIntervals d Is)"
  shows "contains (cd_Interval (ConsolidateDomainIntervals d Is)) t \<longleftrightarrow> (\<forall>I \<in> set Is. contains I t)"
  using assms consolidate_loop_contains [of t "Earliest (hd Is)" "Latest (hd Is)" "tl Is"]
  by (cases Is) (auto simp: ConsolidateDomainIntervals_def contains_def split: prod.splits if_splits)

text \<open>A domain is inconsistent exactly when it has no endpoint or its intervals have no common instant.\<close>

lemma consolidate_inconsistent_iff:
  "cd_Inconsistent (ConsolidateDomainIntervals d Is) \<longleftrightarrow> Is = [] \<or> (\<nexists>t. \<forall>I \<in> set Is. contains I t)"
proof (cases Is)
  case Nil
  then show ?thesis by (simp add: ConsolidateDomainIntervals_def)
next
  case (Cons I Js)
  obtain a b where ab: "consolidate_loop (Earliest I) (Latest I) Js = (a, b)" by fastforce
  have "(\<forall>J \<in> set Is. contains J t) \<longleftrightarrow> sint a \<le> t \<and> t \<le> sint b" for t
    using consolidate_loop_contains [of t "Earliest I" "Latest I" Js] by (auto simp: Cons ab contains_def)
  then have "(\<exists>t. \<forall>J \<in> set Is. contains J t) \<longleftrightarrow> sint a \<le> sint b"
    by (metis order_refl order_trans)
  then show ?thesis
    by (auto simp: ConsolidateDomainIntervals_def Cons ab go_signed)
qed

subsection \<open>The event map\<close>

lemma event_at_update: "event_at (AList.update x e evs) y = (if y = x then e else event_at evs y)"
  by (simp add: event_at_def update_conv')

lemma event_at_add_low:
  "event_at (add_low x evs) y = (if y = x then (event_at evs y)\<lparr>lows := lows (event_at evs y) + 1\<rparr> else event_at evs y)"
  by (simp add: add_low_def event_at_update)

lemma event_at_add_high:
  "event_at (add_high x evs) y = (if y = x then (event_at evs y)\<lparr>highs := highs (event_at evs y) + 1\<rparr> else event_at evs y)"
  by (simp add: add_high_def event_at_update)

definition count :: "('a \<Rightarrow> bool) \<Rightarrow> 'a list \<Rightarrow> int" where
  "count P xs = int (length (filter P xs))"

lemma count_simps [simp]: "count P [] = 0" "count P (x # xs) = of_bool (P x) + count P xs"
  by (simp_all add: count_def)

lemma count_nonneg [simp]: "0 \<le> count P xs"
  by (simp add: count_def)

lemma collect_events_spec:
  "collect_events Is evs = Inr evs' \<Longrightarrow>
    (\<forall>x. lows (event_at evs' x) = lows (event_at evs x) + count (\<lambda>I. Earliest I = x) Is
       \<and> highs (event_at evs' x) = highs (event_at evs x) + count (\<lambda>I. Latest I = x) Is)
    \<and> fst ` set evs' = fst ` set evs \<union> Earliest ` set Is \<union> Latest ` set Is
    \<and> (distinct (map fst evs) \<longrightarrow> distinct (map fst evs'))
    \<and> (\<forall>I \<in> set Is. ordered I)"
proof (induction Is evs rule: collect_events.induct)
  case (1 evs)
  then show ?case by simp
next
  case (2 I Is evs)
  let ?evs = "add_high (Latest I) (add_low (Earliest I) evs)"
  from 2(2) have o: "ordered I" and rest: "collect_events Is ?evs = Inr evs'"
    by (auto simp: go_signed ordered_def split: if_splits)
  note H = 2(1) [OF _ rest]
  have keys: "fst ` set ?evs = insert (Latest I) (insert (Earliest I) (fst ` set evs))"
    by (auto simp: add_high_def add_low_def AList.dom_update)
  have dist: "distinct (map fst evs) \<longrightarrow> distinct (map fst ?evs)"
    by (simp add: add_high_def add_low_def distinct_update)
  show ?case
    using H o dist unfolding keys ordered_def by (auto simp: event_at_add_high event_at_add_low go_signed)
qed

subsection \<open>The sweep computes the coverage set\<close>

text \<open>
  Coverage is stated over real instants: \<open>pt x\<close> is the instant of a word, \<open>depth Is t\<close> the number
  of intervals that enclose \<open>t\<close>, \<open>before\<close> and \<open>after\<close> the depth just left and right of \<open>t\<close>.
\<close>

definition pt :: "GstInstant \<Rightarrow> real" where
  "pt x = real_of_int (sint x)"

lemma pt_simps [simp]:
  "pt x \<le> pt y \<longleftrightarrow> sint x \<le> sint y" "pt x < pt y \<longleftrightarrow> sint x < sint y" "pt x = pt y \<longleftrightarrow> x = y"
  unfolding pt_def of_int_le_iff of_int_less_iff of_int_eq_iff by (simp_all add: sint_eq_iff64)

lemma encloses_pt: "encloses I t \<longleftrightarrow> pt (Earliest I) \<le> t \<and> t \<le> pt (Latest I)"
  by (simp only: encloses_def pt_def)

definition depth :: "TimeInterval list \<Rightarrow> real \<Rightarrow> int" where
  "depth Is t = count (\<lambda>I. encloses I t) Is"

definition before :: "TimeInterval list \<Rightarrow> real \<Rightarrow> int" where
  "before Is t = count (\<lambda>I. pt (Earliest I) < t \<and> t \<le> pt (Latest I)) Is"

definition after :: "TimeInterval list \<Rightarrow> real \<Rightarrow> int" where
  "after Is t = count (\<lambda>I. pt (Earliest I) \<le> t \<and> t < pt (Latest I)) Is"

definition covered :: "TimeInterval list \<Rightarrow> real set" where
  "covered cs = {t. \<exists>c \<in> set cs. encloses c t}"

lemma covered_append [simp]: "covered (cs @ ds) = covered cs \<union> covered ds"
  by (auto simp: covered_def)

lemma covered_Cons: "covered (c # cs) = {t. encloses c t} \<union> covered cs"
  by (auto simp: covered_def)

lemma covered_Nil [simp]: "covered [] = {}"
  by (simp add: covered_def)

lemma count_cong: "(\<And>x. x \<in> set xs \<Longrightarrow> P x = Q x) \<Longrightarrow> count P xs = count Q xs"
  by (induction xs) auto

lemma count_mono: "(\<And>x. x \<in> set xs \<Longrightarrow> P x \<Longrightarrow> Q x) \<Longrightarrow> count P xs \<le> count Q xs"
  by (induction xs) (force simp: of_bool_def)+

lemma count_zero: "(\<And>x. x \<in> set xs \<Longrightarrow> \<not> P x) \<Longrightarrow> count P xs = 0"
  by (induction xs) auto

lemma count_compl: "count P xs + count (\<lambda>x. \<not> P x) xs = int (length xs)"
  by (induction xs) auto

lemma depth_at_point:
  "\<forall>I \<in> set Is. ordered I \<Longrightarrow> before Is (pt x) + count (\<lambda>I. Earliest I = x) Is = depth Is (pt x)"
  unfolding before_def depth_def
  by (induction Is) (auto simp: encloses_pt ordered_def of_bool_def dest!: sint_eqI)

lemma depth_minus_highs:
  "\<forall>I \<in> set Is. ordered I \<Longrightarrow> depth Is (pt x) - count (\<lambda>I. Latest I = x) Is = after Is (pt x)"
  unfolding after_def depth_def
  by (induction Is) (auto simp: encloses_pt ordered_def of_bool_def dest!: sint_eqI)

text \<open>Between two neighbouring endpoints the depth is constant.\<close>

definition no_endpoint_between :: "TimeInterval list \<Rightarrow> real \<Rightarrow> real \<Rightarrow> bool" where
  "no_endpoint_between Is a b \<longleftrightarrow>
    (\<forall>I \<in> set Is. (pt (Earliest I) \<le> a \<or> b \<le> pt (Earliest I)) \<and> (pt (Latest I) \<le> a \<or> b \<le> pt (Latest I)))"

lemma depth_in_gap:
  assumes "no_endpoint_between Is a b" "a < t" "t < b"
  shows "depth Is t = after Is a"
  unfolding depth_def after_def
  by (rule count_cong) (use assms in \<open>force simp: no_endpoint_between_def encloses_pt\<close>)

lemma before_next:
  assumes "no_endpoint_between Is a b" "a < b"
  shows "before Is b = after Is a"
  unfolding before_def after_def
  by (rule count_cong) (use assms in \<open>force simp: no_endpoint_between_def\<close>)

lemma after_le_depth: "after Is t \<le> depth Is t" and before_le_depth: "before Is t \<le> depth Is t"
  unfolding after_def before_def depth_def by (auto intro!: count_mono simp: encloses_pt)

lemma sweep_loop_acc: "sweep_loop k ev d op cs xs = cs @ sweep_loop k ev d op [] xs"
proof (induction xs arbitrary: d op cs)
  case Nil
  show ?case by (simp split: option.splits)
next
  case (Cons x xs)
  have IH: "cs \<noteq> [] \<Longrightarrow> sweep_loop k ev d op cs xs = cs @ sweep_loop k ev d op [] xs" for d op cs
    by (rule Cons.IH)
  show ?case
    by (simp add: Let_def IH Cons.IH [where cs = cs] split: option.splits)
qed

definition open_part :: "TimeInterval option \<Rightarrow> real set" where
  "open_part op = (case op of None \<Rightarrow> {} | Some c \<Rightarrow> {t. encloses c t})"

text \<open>What the loop keeps when it is about to visit \<open>x\<close> with \<open>xs\<close> still to come.\<close>

definition sweep_pre :: "TimeInterval list \<Rightarrow> int \<Rightarrow> int \<Rightarrow> TimeInterval option \<Rightarrow> GstInstant \<Rightarrow> GstInstant list \<Rightarrow> bool" where
  "sweep_pre Is k d op x xs \<longleftrightarrow>
    sorted_wrt (\<lambda>x y. sint x < sint y) (x # xs) \<and>
    (\<forall>I \<in> set Is. \<forall>e \<in> {Earliest I, Latest I}. sint e < sint x \<or> e \<in> set (x # xs)) \<and>
    d = before Is (pt x) \<and>
    (case op of None \<Rightarrow> d < k | Some c \<Rightarrow> k \<le> d \<and> Latest c = x \<and> ordered c)"

lemma sweep_pre_gap:
  assumes "sweep_pre Is k d op x (y # ys)"
  shows "no_endpoint_between Is (pt x) (pt y)" and "pt x < pt y"
proof -
  have "pt e \<le> pt x \<or> pt y \<le> pt e" if "I \<in> set Is" "e = Earliest I \<or> e = Latest I" for I e
  proof -
    have "sint e < sint x \<or> e \<in> set (x # y # ys)"
      using assms that by (auto simp: sweep_pre_def)
    moreover have "\<forall>z \<in> set ys. sint y < sint z"
      using assms by (simp add: sweep_pre_def)
    ultimately show ?thesis by auto
  qed
  then show "no_endpoint_between Is (pt x) (pt y)"
    unfolding no_endpoint_between_def by blast
  show "pt x < pt y"
    using assms by (simp add: sweep_pre_def)
qed

lemma sweep_pre_last:
  assumes "sweep_pre Is k d op x []" "pt x < t"
  shows "depth Is t = 0"
proof -
  have "pt (Latest I) < t" if "I \<in> set Is" for I
    using assms that le_less_trans [of "pt (Latest I)" "pt x" t] by (force simp: sweep_pre_def)
  then show ?thesis
    unfolding depth_def by (intro count_zero) (simp add: encloses_pt not_le)
qed

lemma sweep_pre_next:
  assumes "sweep_pre Is k d op x (y # ys)"
    and "case op' of None \<Rightarrow> after Is (pt x) < k | Some c \<Rightarrow> k \<le> after Is (pt x) \<and> Latest c = y \<and> ordered c"
  shows "sweep_pre Is k (after Is (pt x)) op' y ys"
  using assms before_next [OF sweep_pre_gap [OF assms(1)]]
  by (auto simp: sweep_pre_def split: option.splits)

text \<open>The set of covered instants from \<open>x\<close> on, split at \<open>x\<close>, the gap and the rest.\<close>

lemma covered_from_split:
  assumes "sweep_pre Is k d op x (y # ys)"
  shows "{t. pt x \<le> t \<and> k \<le> depth Is t} =
     {t. t = pt x \<and> k \<le> depth Is (pt x)} \<union> {t. pt x < t \<and> t < pt y \<and> k \<le> after Is (pt x)}
     \<union> {t. pt y \<le> t \<and> k \<le> depth Is t}"
proof (intro set_eqI iffI)
  note gap = sweep_pre_gap [OF assms]
  fix t
  assume t: "t \<in> {t. pt x \<le> t \<and> k \<le> depth Is t}"
  consider "t = pt x" | "pt x < t" "t < pt y" | "pt y \<le> t"
    using t by (cases t "pt x" rule: linorder_cases) (auto simp: not_less [symmetric])
  then show "t \<in> {t. t = pt x \<and> k \<le> depth Is (pt x)} \<union> {t. pt x < t \<and> t < pt y \<and> k \<le> after Is (pt x)}
     \<union> {t. pt y \<le> t \<and> k \<le> depth Is t}"
    using t depth_in_gap [OF gap(1), of t] by cases simp_all
next
  note gap = sweep_pre_gap [OF assms]
  fix t
  assume "t \<in> {t. t = pt x \<and> k \<le> depth Is (pt x)} \<union> {t. pt x < t \<and> t < pt y \<and> k \<le> after Is (pt x)}
     \<union> {t. pt y \<le> t \<and> k \<le> depth Is t}"
  then show "t \<in> {t. pt x \<le> t \<and> k \<le> depth Is t}"
    using depth_in_gap [OF gap(1), of t] less_le_trans [OF gap(2), of t] by auto
qed

text \<open>One iteration, with the counters read as depths.\<close>

definition closed_at :: "TimeInterval option \<Rightarrow> GstInstant \<Rightarrow> TimeInterval" where
  "closed_at op x = (case op of None \<Rightarrow> interval x x | Some c \<Rightarrow> c\<lparr>Latest := x\<rparr>)"

lemma closed_at_set:
  assumes "sweep_pre Is k d op x xs"
  shows "{t. encloses (closed_at op x) t} = open_part op \<union> {pt x}"
proof (cases op)
  case None
  then show ?thesis by (auto simp: closed_at_def open_part_def encloses_pt)
next
  case (Some c)
  with assms have "c\<lparr>Latest := x\<rparr> = c" "pt (Earliest c) \<le> pt x" "Latest c = x"
    by (auto simp: sweep_pre_def ordered_def)
  with Some show ?thesis by (auto simp: closed_at_def open_part_def encloses_pt)
qed

lemma open_part_extend:
  assumes "sweep_pre Is k d op x xs" and "pt x < pt y"
  shows "open_part (Some ((closed_at op x)\<lparr>Latest := y\<rparr>)) = open_part op \<union> {t. pt x \<le> t \<and> t \<le> pt y}"
proof (cases op)
  case None
  then show ?thesis by (auto simp: closed_at_def open_part_def encloses_pt)
next
  case (Some c)
  with assms have c: "pt (Earliest c) \<le> pt x" "Latest c = x"
    by (auto simp: sweep_pre_def ordered_def)
  show ?thesis
  proof (rule set_eqI)
    fix t
    show "t \<in> open_part (Some ((closed_at op x)\<lparr>Latest := y\<rparr>)) \<longleftrightarrow> t \<in> open_part op \<union> {t. pt x \<le> t \<and> t \<le> pt y}"
      using order_trans [OF c(1), of t] less_imp_le [OF assms(2)] order_trans [of t "pt x" "pt y"] linear [of t "pt x"]
      by (simp add: Some c(2) closed_at_def open_part_def encloses_pt) blast
  qed
qed

lemma sweep_step:
  assumes pre: "sweep_pre Is k d op x xs" and ord: "\<forall>I \<in> set Is. ordered I"
    and ev: "\<forall>x. lows (ev x) = count (\<lambda>I. Earliest I = x) Is \<and> highs (ev x) = count (\<lambda>I. Latest I = x) Is"
  shows "sweep_loop k ev d op [] (x # xs) =
    (if xs \<noteq> [] \<and> k \<le> after Is (pt x)
     then sweep_loop k ev (after Is (pt x)) (Some ((closed_at op x)\<lparr>Latest := hd xs\<rparr>)) [] xs
     else if k \<le> depth Is (pt x) then closed_at op x # sweep_loop k ev (after Is (pt x)) None [] xs
     else sweep_loop k ev (after Is (pt x)) None [] xs)"
proof -
  have d: "d + lows (ev x) = depth Is (pt x)" "depth Is (pt x) - highs (ev x) = after Is (pt x)"
    using depth_at_point [OF ord] depth_minus_highs [OF ord] ev pre by (auto simp: sweep_pre_def)
  have None: "op = None" if "\<not> k \<le> depth Is (pt x)"
    using pre that before_le_depth [of Is "pt x"] by (auto simp: sweep_pre_def split: option.splits)
  show ?thesis
    using None after_le_depth [of Is "pt x"]
    by (subst sweep_loop.simps) (auto simp: Let_def d closed_at_def
        sweep_loop_acc [where cs = "[_]"] split: option.splits)
qed

lemma sweep_loop_covered:
  assumes "\<forall>I \<in> set Is. ordered I"
    and "\<forall>x. lows (ev x) = count (\<lambda>I. Earliest I = x) Is \<and> highs (ev x) = count (\<lambda>I. Latest I = x) Is"
    and "0 < k" and "sweep_pre Is k d op x xs"
  shows "covered (sweep_loop k ev d op [] (x # xs)) = open_part op \<union> {t. pt x \<le> t \<and> k \<le> depth Is t}"
  using assms(4)
proof (induction xs arbitrary: x d op)
  case Nil
  have "{t. pt x \<le> t \<and> k \<le> depth Is t} = (if k \<le> depth Is (pt x) then {pt x} else {})"
    using sweep_pre_last [OF Nil] assms(3) by (auto simp: order_le_less)
  moreover have "open_part op = {}" if "\<not> k \<le> depth Is (pt x)"
    using Nil that before_le_depth [of Is "pt x"]
    by (auto simp: sweep_pre_def open_part_def split: option.splits)
  ultimately show ?case
    unfolding sweep_step [OF Nil assms(1,2)] by (simp add: covered_Cons closed_at_set [OF Nil])
next
  case (Cons y ys)
  note gap = sweep_pre_gap [OF Cons.prems]
  note split = covered_from_split [OF Cons.prems]
  show ?case
  proof (cases "k \<le> after Is (pt x)")
    case True
    let ?op = "Some ((closed_at op x)\<lparr>Latest := y\<rparr>)"
    have "sweep_pre Is k (after Is (pt x)) ?op y ys"
      using True gap(2) Cons.prems
      by (intro sweep_pre_next [OF Cons.prems]) (auto simp: closed_at_def ordered_def sweep_pre_def split: option.splits)
    from Cons.IH [OF this]
    have "covered (sweep_loop k ev d op [] (x # y # ys)) = open_part ?op \<union> {t. pt y \<le> t \<and> k \<le> depth Is t}"
      using True unfolding sweep_step [OF Cons.prems assms(1,2)] by simp
    also have "open_part ?op = open_part op \<union> {t. pt x \<le> t \<and> t \<le> pt y}"
      by (rule open_part_extend [OF Cons.prems gap(2)])
    also have "k \<le> depth Is (pt x)" "k \<le> depth Is (pt y)"
      using True after_le_depth [of Is "pt x"] before_next [OF gap] before_le_depth [of Is "pt y"] by linarith+
    then have "open_part op \<union> {t. pt x \<le> t \<and> t \<le> pt y} \<union> {t. pt y \<le> t \<and> k \<le> depth Is t}
        = open_part op \<union> {t. pt x \<le> t \<and> k \<le> depth Is t}"
      using True gap(2) unfolding split by (auto simp: order_le_less)
    finally show ?thesis .
  next
    case False
    have "sweep_pre Is k (after Is (pt x)) None y ys"
      using False by (intro sweep_pre_next [OF Cons.prems]) simp
    note IH = Cons.IH [OF this]
    have none: "open_part op = {}" if "\<not> k \<le> depth Is (pt x)"
      using Cons.prems that before_le_depth [of Is "pt x"]
      by (auto simp: sweep_pre_def open_part_def split: option.splits)
    have "covered (sweep_loop k ev d op [] (x # y # ys)) =
      (if k \<le> depth Is (pt x) then open_part op \<union> {pt x} else {}) \<union> {t. pt y \<le> t \<and> k \<le> depth Is t}"
      unfolding sweep_step [OF Cons.prems assms(1,2)]
      using False IH by (simp add: covered_Cons closed_at_set [OF Cons.prems] open_part_def)
    also have "\<dots> = open_part op \<union> {t. pt x \<le> t \<and> k \<le> depth Is t}"
    proof -
      have gapset: "{t. pt x < t \<and> t < pt y \<and> k \<le> after Is (pt x)} = {}"
        using False by simp
      show ?thesis
        unfolding split gapset using none by (cases "k \<le> depth Is (pt x)") (simp_all add: Un_ac)
    qed
    finally show ?thesis .
  qed
qed

subsection \<open>The components are ordered and separated\<close>

definition separated :: "TimeInterval list \<Rightarrow> bool" where
  "separated cs \<longleftrightarrow> sorted_wrt (\<lambda>c d. sint (Latest c) < sint (Earliest d)) cs \<and> (\<forall>c \<in> set cs. ordered c)"

lemma separated_Nil [simp]: "separated []"
  by (simp add: separated_def)

lemma separated_Cons:
  "separated (c # cs) \<longleftrightarrow> ordered c \<and> (\<forall>d \<in> set cs. sint (Latest c) < sint (Earliest d)) \<and> separated cs"
  by (auto simp: separated_def)

definition start :: "TimeInterval option \<Rightarrow> GstInstant \<Rightarrow> GstInstant" where
  "start op x = (case op of None \<Rightarrow> x | Some c \<Rightarrow> Earliest c)"

lemma closed_at_facts:
  assumes "sweep_pre Is k d op x xs"
  shows "Latest (closed_at op x) = x" "Earliest (closed_at op x) = start op x" "sint (start op x) \<le> sint x"
  using assms by (auto simp: closed_at_def start_def sweep_pre_def ordered_def split: option.splits)

lemma sweep_loop_separated:
  assumes "\<forall>I \<in> set Is. ordered I"
    and "\<forall>x. lows (ev x) = count (\<lambda>I. Earliest I = x) Is \<and> highs (ev x) = count (\<lambda>I. Latest I = x) Is"
    and "0 < k" and "sweep_pre Is k d op x xs"
  shows "separated (sweep_loop k ev d op [] (x # xs)) \<and>
    (\<forall>c \<in> set (sweep_loop k ev d op [] (x # xs)). sint (start op x) \<le> sint (Earliest c))"
  using assms(4)
proof (induction xs arbitrary: x d op)
  case Nil
  show ?case
    unfolding sweep_step [OF Nil assms(1,2)]
    using closed_at_facts [OF Nil] by (auto simp: separated_Cons ordered_def)
next
  case (Cons y ys)
  note gap = sweep_pre_gap [OF Cons.prems]
  note facts = closed_at_facts [OF Cons.prems]
  show ?case
  proof (cases "k \<le> after Is (pt x)")
    case True
    let ?op = "Some ((closed_at op x)\<lparr>Latest := y\<rparr>)"
    have "sweep_pre Is k (after Is (pt x)) ?op y ys"
      using True gap(2) facts
      by (intro sweep_pre_next [OF Cons.prems]) (auto simp: ordered_def)
    from Cons.IH [OF this] show ?thesis
      using True facts unfolding sweep_step [OF Cons.prems assms(1,2)] by (simp add: start_def)
  next
    case False
    have "sweep_pre Is k (after Is (pt x)) None y ys"
      using False by (intro sweep_pre_next [OF Cons.prems]) simp
    note IH = Cons.IH [OF this]
    have tail: "sweep_loop k ev d op [] (x # y # ys) =
      (if k \<le> depth Is (pt x) then [closed_at op x] else []) @ sweep_loop k ev (after Is (pt x)) None [] (y # ys)"
      using False unfolding sweep_step [OF Cons.prems assms(1,2)] by simp
    obtain cs where cs: "sweep_loop k ev (after Is (pt x)) None [] (y # ys) = cs" by simp
    from IH gap(2) have lb: "sint x < sint (Earliest c)" if "c \<in> set cs" for c
      using that unfolding cs by (force simp: start_def)
    have "sint (start op x) \<le> sint (Earliest c)" if "c \<in> set cs" for c
      using lb [OF that] facts(3) by linarith
    then show ?thesis
      using IH facts lb unfolding tail cs by (auto simp: separated_Cons ordered_def)
  qed
qed

text \<open>On separated components the merge has nothing to do.\<close>

lemma merge_loop_separated: "separated (c # cs) \<Longrightarrow> merge_loop c merged cs = merged @ c # cs"
  by (induction c merged cs rule: merge_loop.induct) (auto simp: separated_Cons go_signed)

lemma merge_separated: "separated cs \<Longrightarrow> mergeTouchingComponents cs = cs"
  by (cases cs) (auto simp: mergeTouchingComponents_def merge_loop_separated)

text \<open>The general case, touching components included: merging keeps the set of covered instants.\<close>

lemma merge_loop_covered:
  "\<lbrakk>sorted_wrt (\<lambda>c d. sint (Earliest c) \<le> sint (Earliest d)) (c # cs); \<forall>d \<in> set (c # cs). ordered d\<rbrakk>
   \<Longrightarrow> covered (merge_loop c merged cs) = covered merged \<union> covered (c # cs)"
proof (induction c merged cs rule: merge_loop.induct)
  case (1 c merged)
  then show ?case by simp
next
  case (2 c merged d cs)
  show ?case
  proof (cases "Earliest d \<le>s Latest c")
    case True
    let ?c = "if Latest c <s Latest d then c\<lparr>Latest := Latest d\<rparr> else c"
    have ord: "sint (Earliest c) \<le> sint (Earliest d)" "sint (Earliest d) \<le> sint (Latest d)"
        "sint (Earliest c) \<le> sint (Latest c)" "sint (Earliest d) \<le> sint (Latest c)"
      using 2(3,4) True by (auto simp: ordered_def go_signed)
    have "{t. encloses ?c t} = {t. encloses c t} \<union> {t. encloses d t}"
    proof (rule set_eqI)
      fix t
      have "pt (Earliest c) \<le> pt (Earliest d)" "pt (Earliest d) \<le> pt (Latest d)"
        "pt (Earliest c) \<le> pt (Latest c)" "pt (Earliest d) \<le> pt (Latest c)"
        using ord by simp_all
      then show "t \<in> {t. encloses ?c t} \<longleftrightarrow> t \<in> {t. encloses c t} \<union> {t. encloses d t}"
        by (cases "Latest c <s Latest d") (auto simp: encloses_pt go_signed simp del: pt_simps simp flip: pt_simps)
    qed
    then show ?thesis
      using 2(1) [OF True] 2(3,4) True ord
      by (auto simp: covered_Cons ordered_def go_signed)
  next
    case False
    then show ?thesis
      using 2(2) [OF False] 2(3,4) by (auto simp: covered_Cons)
  qed
qed

subsection \<open>Exactness of the coverage components\<close>

lemma collect_events_keys:
  assumes "collect_events Is [] = Inr evs"
  shows "sorted_wrt (\<lambda>x y. sint x < sint y) (sort_key sint (map fst evs))"
    and "set (sort_key sint (map fst evs)) = Earliest ` set Is \<union> Latest ` set Is"
proof -
  have "distinct (map fst evs)" "fst ` set evs = Earliest ` set Is \<union> Latest ` set Is"
    using collect_events_spec [OF assms] by simp_all
  moreover from this have "distinct (map sint (sort_key sint (map fst evs)))"
    by (auto simp: distinct_map inj_on_def dest: sint_eqI)
  ultimately show "set (sort_key sint (map fst evs)) = Earliest ` set Is \<union> Latest ` set Is"
    and "sorted_wrt (\<lambda>x y. sint x < sint y) (sort_key sint (map fst evs))"
    using strict_sorted_iff [of "map sint (sort_key sint (map fst evs))"] sorted_sort_key [of sint "map fst evs"]
    by (simp_all add: sorted_wrt_map)
qed

lemma coverage_components:
  assumes ok: "ComputeCoverageComponents Is F = Inr cs" and k: "0 < sint (go_len Is - F)"
  shows "covered cs = {t. sint (go_len Is - F) \<le> depth Is t} \<and> separated cs \<and> (\<forall>I \<in> set Is. ordered I)"
proof -
  let ?k = "sint (go_len Is - F)"
  obtain evs where evs: "collect_events Is [] = Inr evs"
    and cs: "cs = mergeTouchingComponents (sweep_loop ?k (event_at evs) 0 None [] (sort_key sint (map fst evs)))"
    using ok by (auto simp: ComputeCoverageComponents_def Let_def split: if_splits sum.splits)
  note keys = collect_events_keys [OF evs]
  have ord: "\<forall>I \<in> set Is. ordered I"
    and ev: "\<forall>x. lows (event_at evs x) = count (\<lambda>I. Earliest I = x) Is \<and> highs (event_at evs x) = count (\<lambda>I. Latest I = x) Is"
    using collect_events_spec [OF evs] by (simp_all add: event_at_def)
  show ?thesis
  proof (cases "sort_key sint (map fst evs)")
    case Nil
    then have "Is = []" using keys(2) by simp
    then show ?thesis
      using Nil k cs by (simp add: mergeTouchingComponents_def depth_def)
  next
    case (Cons x xs)
    have lo: "x = e \<or> sint x < sint e" if "e \<in> set (x # xs)" for e
      using that keys(1) by (auto simp: Cons)
    have mem: "Earliest I \<in> set (x # xs)" "Latest I \<in> set (x # xs)" if "I \<in> set Is" for I
      using that keys(2) by (auto simp: Cons)
    have low: "sint x \<le> sint (Earliest I)" if "I \<in> set Is" for I
      using lo [OF mem(1) [OF that]] by auto
    have "before Is (pt x) = 0"
      unfolding before_def using low by (intro count_zero) (simp add: not_less)
    then have pre: "sweep_pre Is ?k 0 None x xs"
      using keys(1) mem k unfolding sweep_pre_def Cons by auto
    have zero: "depth Is t = 0" if "\<not> pt x \<le> t" for t
      unfolding depth_def
    proof (rule count_zero)
      fix I assume "I \<in> set Is"
      from low [OF this] have "pt x \<le> pt (Earliest I)" by simp
      with that show "\<not> encloses I t" by (auto simp: encloses_pt simp del: pt_simps)
    qed
    have sep: "separated (sweep_loop ?k (event_at evs) 0 None [] (x # xs))"
      using sweep_loop_separated [OF ord ev k pre] by simp
    have eq: "cs = sweep_loop ?k (event_at evs) 0 None [] (x # xs)"
      using cs merge_separated [OF sep] by (simp only: Cons)
    have "covered cs = {t. pt x \<le> t \<and> ?k \<le> depth Is t}"
      unfolding eq sweep_loop_covered [OF ord ev k pre] by (simp add: open_part_def)
    also have "\<dots> = {t. ?k \<le> depth Is t}"
      using zero k by force
    finally show ?thesis
      using sep ord by (simp add: eq)
  qed
qed

subsection \<open>The stable sort and the primary component\<close>

lemma sort_SliceStable_key: "sort_SliceStable (\<lambda>x y. f x < f y) xs = sort_key f xs"
proof -
  have "insert_stable (\<lambda>x y. f x < f y) x ys = insort_key f x ys" for x ys
    by (induction ys) (auto simp: not_le)
  then show ?thesis by (induction xs) simp_all
qed

text \<open>The order of the metrics is the lexicographic order of a key.\<close>

definition metric_key :: "compMetric \<Rightarrow> nat \<times> int \<times> int \<times> int \<times> int" where
  "metric_key m = (if cm_contains m then 0 else 1, sint (cm_dist m), - cm_maxDepth m, sint (cm_width m),
     sint (Earliest (cm_comp m)))"

lemma metric_less_key: "metric_less m1 m2 \<longleftrightarrow> metric_key m1 < metric_key m2"
  by (auto simp: metric_less_def metric_key_def less_prod_def' go_signed sint_eq_iff64)

lemma sort_metrics: "sort_SliceStable metric_less xs = sort_key metric_key xs"
proof -
  have "metric_less = (\<lambda>x y. metric_key x < metric_key y)"
    by (simp add: fun_eq_iff metric_less_key)
  from this [THEN arg_cong, of sort_SliceStable, THEN fun_cong, of xs] show ?thesis
    by (rule trans) (rule sort_SliceStable_key)
qed

lemma hd_sort_key_le: "x \<in> set xs \<Longrightarrow> f (hd (sort_key f xs)) \<le> f x"
proof -
  assume x: "x \<in> set xs"
  then have "x \<in> set (sort_key f xs)" by simp
  moreover have "sorted (map f (sort_key f xs))" by simp
  ultimately show ?thesis by (cases "sort_key f xs") auto
qed

lemma comp_metric_comp [simp]: "cm_comp (comp_metric p Is c) = c"
  by (simp add: comp_metric_def Let_def)

lemma select_primary:
  assumes "components \<noteq> []"
  shows "\<exists>c. SelectPrimaryComponent components p Is = Ret c \<and> c \<in> set components \<and>
    (\<forall>d \<in> set components. metric_key (comp_metric p Is c) \<le> metric_key (comp_metric p Is d))"
proof (cases "length components = 1")
  case True
  then obtain c where "components = [c]" by (cases components) auto
  then show ?thesis by (simp add: SelectPrimaryComponent_def)
next
  case False
  let ?ms = "map (comp_metric p Is) components"
  obtain m ms where s: "sort_key metric_key ?ms = m # ms"
    using assms by (metis list.exhaust list.map_disc_iff set_sort set_empty)
  have "m \<in> set (sort_key metric_key ?ms)" by (simp add: s)
  then have "m \<in> set ?ms" by (simp only: set_sort)
  then obtain c where c: "c \<in> set components" "m = comp_metric p Is c" by auto
  have "metric_key m \<le> metric_key (comp_metric p Is d)" if "d \<in> set components" for d
    using hd_sort_key_le [of "comp_metric p Is d" ?ms metric_key] that by (simp add: s)
  moreover have "SelectPrimaryComponent components p Is = Ret c"
    using False by (simp add: SelectPrimaryComponent_def sort_metrics s c)
  ultimately show ?thesis using c by auto
qed

lemma select_primary_Panic_iff: "SelectPrimaryComponent components p Is = Panic \<longleftrightarrow> components = []"
  using select_primary [of components p Is] by (cases "components = []") (auto simp: SelectPrimaryComponent_def)

subsection \<open>Consensus\<close>

lemma sint_go_len: "length xs < 2 ^ 63 \<Longrightarrow> sint (go_len xs) = int (length xs)"
  unfolding go_len_def by (rule sint_of_int64) (simp_all add: in_i64_def)

lemma sint_threshold:
  assumes "length Is < 2 ^ 63" "0 \<le> sint F"
  shows "sint (go_len Is - F) = int (length Is) - sint F"
  using assms sint_lt [of F] by (subst sint_sub_exact) (simp_all add: sint_go_len in_i64_def)

lemma covered_hull:
  assumes "separated cs" "cs \<noteq> []" "t \<in> covered cs"
  shows "encloses (interval (Earliest (hd cs)) (Latest (last cs))) t"
proof -
  have lo: "sint (Earliest (hd cs)) \<le> sint (Earliest c)" if "c \<in> set cs" for c
    using assms(1,2) that by (cases cs) (force simp: separated_Cons ordered_def)+
  have hi: "sint (Latest c) \<le> sint (Latest (last cs))" if "c \<in> set cs" for c
    using assms(1,2) that
  proof (induction cs)
    case (Cons d ds)
    show ?case
    proof (cases "ds = []")
      case False
      then have "sint (Latest d) \<le> sint (Earliest (last ds))" "ordered (last ds)"
        using Cons.prems(1) last_in_set [of ds] by (auto simp: separated_def intro: less_imp_le)
      then show ?thesis using Cons False by (auto simp: separated_Cons ordered_def)
    qed (use Cons in auto)
  qed simp
  obtain c where "c \<in> set cs" "encloses c t"
    using assms(3) by (auto simp: covered_def)
  with lo [of c] hi [of c] have "pt (Earliest (hd cs)) \<le> pt (Earliest c)" "pt (Latest c) \<le> pt (Latest (last cs))"
    by simp_all
  with \<open>encloses c t\<close> show ?thesis
    by (auto simp: encloses_pt simp del: pt_simps)
qed

lemma hull_ends_covered:
  assumes "separated cs" "cs \<noteq> []"
  shows "pt (Earliest (hd cs)) \<in> covered cs" "pt (Latest (last cs)) \<in> covered cs"
proof -
  have "hd cs \<in> set cs" "last cs \<in> set cs" using assms(2) by simp_all
  moreover from this have "ordered (hd cs)" "ordered (last cs)" using assms(1) by (auto simp: separated_def)
  ultimately show "pt (Earliest (hd cs)) \<in> covered cs" "pt (Latest (last cs)) \<in> covered cs"
    by (auto simp: covered_def encloses_pt ordered_def)
qed

text \<open>What a successful consensus returns.\<close>

lemma consensus_Inr:
  assumes "ComputeAssuranceConsensus Is F mv mh p e = Ret (Inr res)"
  shows "ComputeCoverageComponents Is F = Inr (cr_Components res)" "cr_Components res \<noteq> []"
    "cr_Hull res = interval (Earliest (hd (cr_Components res))) (Latest (last (cr_Components res)))"
    "SelectPrimaryComponent (cr_Components res) p Is = Ret (cr_PrimaryComponent res)"
    "cr_ControlTarget res = (if e <s Earliest (cr_PrimaryComponent res) then Earliest (cr_PrimaryComponent res)
       else if Latest (cr_PrimaryComponent res) <s e then Latest (cr_PrimaryComponent res) else e)"
    "cr_ControlBridge res = cr_ControlTarget res - e"
    "cr_EligibleDomains res = go_len Is" "cr_FaultBudget res = F" "cr_ThresholdK res = go_len Is - F"
    "mh \<le>s go_len Is - F" "mv \<le>s go_len Is" "2 * F + 1 \<le>s go_len Is"
  using assms
  by (auto simp: ComputeAssuranceConsensus_def Let_def go_signed split: if_splits sum.splits outcome.splits)

lemma consensus_components:
  assumes "ComputeAssuranceConsensus Is F mv mh p e = Ret (Inr res)" "0 <s mh"
  shows "covered (cr_Components res) = {t. sint (go_len Is - F) \<le> depth Is t} \<and> separated (cr_Components res)
    \<and> 0 < sint (go_len Is - F)"
proof -
  have "0 < sint (go_len Is - F)"
    using consensus_Inr(10) [OF assms(1)] assms(2) by (simp add: go_signed)
  with coverage_components [OF consensus_Inr(1) [OF assms(1)]] show ?thesis by blast
qed

lemma consensus_no_panic: "ComputeAssuranceConsensus Is F mv mh p e \<noteq> Panic"
  by (auto simp: ComputeAssuranceConsensus_def Let_def select_primary_Panic_iff split: sum.splits outcome.splits)

text \<open>The number of domains whose interval misses the true instant.\<close>

definition faulty :: "TimeInterval list \<Rightarrow> real \<Rightarrow> int" where
  "faulty Is tau = count (\<lambda>I. \<not> encloses I tau) Is"

lemma depth_faulty: "depth Is tau = int (length Is) - faulty Is tau"
  using count_compl [of "\<lambda>I. encloses I tau" Is] by (simp add: depth_def faulty_def)

lemma faulty_nonneg: "0 \<le> faulty Is tau"
  by (simp add: faulty_def)

lemma consensus_hull_encloses:
  assumes run: "ComputeAssuranceConsensus Is F mv mh p e = Ret (Inr res)"
    and "0 <s mh" "length Is < 2 ^ 63" "faulty Is tau \<le> sint F"
  shows "encloses (cr_Hull res) tau"
proof -
  note cov = consensus_components [OF run assms(2)]
  have F: "0 \<le> sint F" using assms(4) faulty_nonneg [of Is tau] by linarith
  have "sint (go_len Is - F) \<le> depth Is tau"
    using assms(4) unfolding sint_threshold [OF assms(3) F] depth_faulty by simp
  then show ?thesis
    using covered_hull [of "cr_Components res" tau] cov consensus_Inr(2,3) [OF run] by auto
qed

text \<open>Every instant of a component lies in many intervals of any set of domains that misses few.\<close>

lemma count_split: "count P xs \<le> count (\<lambda>x. Q x \<and> P x) xs + count (\<lambda>x. \<not> Q x) xs"
  by (induction xs) (auto simp: of_bool_def)

lemma count_pos: "0 < count P xs \<Longrightarrow> \<exists>x \<in> set xs. P x"
  using count_zero [of xs P] by fastforce

lemma covered_honest:
  assumes run: "ComputeAssuranceConsensus Is F mv mh p e = Ret (Inr res)"
    and "0 <s mh" "length Is < 2 ^ 63" "0 \<le> sint F" "t \<in> covered (cr_Components res)"
  shows "int (length Is) - sint F - count (\<lambda>I. \<not> honest I) Is \<le> count (\<lambda>I. honest I \<and> encloses I t) Is"
proof -
  have "int (length Is) - sint F \<le> depth Is t"
    using consensus_components [OF run assms(2)] assms(5) by (simp add: sint_threshold [OF assms(3,4)])
  then show ?thesis
    using count_split [of "\<lambda>I. encloses I t" Is honest] by (simp add: depth_def)
qed

lemma consensus_hull_honest:
  assumes run: "ComputeAssuranceConsensus Is F mv mh p e = Ret (Inr res)"
    and "0 <s mh" "length Is < 2 ^ 63" "sint F < 2 ^ 62" "count (\<lambda>I. \<not> honest I) Is \<le> sint F"
    and "t \<in> covered (cr_Components res)"
  shows "\<exists>I \<in> set Is. honest I \<and> encloses I t"
proof -
  have F: "0 \<le> sint F" using assms(5) count_nonneg [of "\<lambda>I. \<not> honest I" Is] by linarith
  have "sint (2 * F) = 2 * sint F"
    using F assms(4) sint_add_exact [of F F] by (simp add: in_i64_def)
  then have "sint (2 * F + 1) = 2 * sint F + 1"
    using F assms(4) sint_add_exact [of "2 * F" 1] by (simp add: in_i64_def)
  then have "2 * sint F + 1 \<le> int (length Is)"
    using consensus_Inr(12) [OF run] by (simp add: go_signed sint_go_len [OF assms(3)])
  then have "0 < count (\<lambda>I. honest I \<and> encloses I t) Is"
    using covered_honest [OF run assms(2,3) F assms(6), of honest] assms(5) by linarith
  then show ?thesis using count_pos by force
qed

text \<open>Consensus succeeds whenever enough domains agree.\<close>

lemma collect_events_total: "\<forall>I \<in> set Is. ordered I \<Longrightarrow> \<exists>evs'. collect_events Is evs = Inr evs'"
  by (induction Is evs rule: collect_events.induct) (auto simp: ordered_def go_signed)

lemma consensus_succeeds:
  assumes ord: "\<forall>I \<in> set Is. ordered I"
    and N: "length Is < 2 ^ 63" "mv \<le>s go_len Is" "2 * F + 1 \<le>s go_len Is" "mh \<le>s go_len Is - F" "0 <s mh"
    and tau: "faulty Is tau \<le> sint F"
  shows "\<exists>res. ComputeAssuranceConsensus Is F mv mh p e = Ret (Inr res)"
proof -
  have F: "0 \<le> sint F" using tau faulty_nonneg [of Is tau] by linarith
  have k: "0 < sint (go_len Is - F)" using N(4,5) by (simp add: go_signed)
  obtain evs where "collect_events Is [] = Inr evs" using collect_events_total [OF ord] by blast
  then obtain cs where cs: "ComputeCoverageComponents Is F = Inr cs"
    using N(3) by (auto simp: ComputeCoverageComponents_def Let_def go_signed)
  have "tau \<in> covered cs"
    using coverage_components [OF cs k] tau by (simp add: sint_threshold [OF N(1) F] depth_faulty)
  then have "cs \<noteq> []" by auto
  with select_primary [of cs p Is] cs show ?thesis
    using N by (auto simp: ComputeAssuranceConsensus_def Let_def go_signed)
qed

lemma consensus_control_target:
  assumes run: "ComputeAssuranceConsensus Is F mv mh p e = Ret (Inr res)" and "0 <s mh"
  shows "contains (cr_PrimaryComponent res) (sint (cr_ControlTarget res)) \<and>
    (contains (cr_PrimaryComponent res) (sint e) \<longrightarrow> cr_ControlTarget res = e) \<and>
    cr_ControlBridge res = cr_ControlTarget res - e"
proof -
  have "cr_PrimaryComponent res \<in> set (cr_Components res)"
    using select_primary [OF consensus_Inr(2) [OF run], of p Is] consensus_Inr(4) [OF run] by auto
  then have "ordered (cr_PrimaryComponent res)"
    using consensus_components [OF assms] by (auto simp: separated_def)
  then show ?thesis
    using consensus_Inr(5,6) [OF run] by (auto simp: contains_def ordered_def go_signed)
qed

subsection \<open>Properties\<close>

definition sample_domains :: "TimeInterval list" where
  "sample_domains = [interval 10 20, interval 15 25, interval 90 95, interval 18 40]"

definition sample_consensus :: AssuranceConsensusResult where
  "sample_consensus =
    \<lparr>cr_Hull = interval 18 20, cr_Components = [interval 18 20], cr_PrimaryComponent = interval 18 20,
     cr_ControlTarget = 20, cr_ControlBridge = - 10, cr_EligibleDomains = 4, cr_FaultBudget = 1,
     cr_ThresholdK = 3\<rparr>"

lemma sample_components: "ComputeCoverageComponents sample_domains 1 = Inr [interval 18 20]"
  by code_simp

lemma sample_consensus_run: "ComputeAssuranceConsensus sample_domains 1 3 2 0 30 = Ret (Inr sample_consensus)"
  by code_simp

lemma sample_facts: "length sample_domains = 4" "0 < sint (go_len sample_domains - 1)"
  by code_simp+

text \<open>C9: the coverage sweep is exact. The components returned are ordered, pairwise separated and
  in ascending order, and together they are the set of instants (between nanoseconds too) that lie
  in at least N-F of the domain intervals.\<close>

theorem coverage_components_exact:
  assumes "ComputeCoverageComponents Is F = Inr cs" "0 < sint (go_len Is - F)"
  shows "(\<Union>c \<in> set cs. {t. encloses c t}) =
      {t. sint (go_len Is - F) \<le> int (length (filter (\<lambda>I. encloses I t) Is))} \<and>
    sorted_wrt (\<lambda>c d. sint (Latest c) < sint (Earliest d)) cs \<and> list_all ordered cs"
  using coverage_components [OF assms] by (auto simp: covered_def depth_def count_def separated_def list_all_iff)

theorem coverage_components_exact_witness:
  "{t. encloses (interval 18 20) t} = {t. 3 \<le> int (length (filter (\<lambda>I. encloses I t) sample_domains))}"
proof -
  have "sint (go_len sample_domains - 1) = 3" by code_simp
  then show ?thesis
    using coverage_components_exact [OF sample_components sample_facts(2)] by simp
qed

text \<open>C4: safety of the consensus hull. If at most F of the domain intervals miss true time, the
  hull of a successful consensus contains it.\<close>

theorem consensus_hull_contains_true_time:
  assumes "ComputeAssuranceConsensus Is F minVoting minHonest p e = Ret (Inr res)"
    and "0 <s minHonest" "length Is < 2 ^ 63"
    and "int (length (filter (\<lambda>I. \<not> encloses I tau) Is)) \<le> sint F"
  shows "encloses (cr_Hull res) tau"
  using assms by (intro consensus_hull_encloses) (simp_all add: faulty_def count_def)

theorem consensus_hull_contains_true_time_witness: "encloses (interval 18 20) 19"
  using consensus_hull_contains_true_time [OF sample_consensus_run, of 19]
  by (simp add: sample_domains_def encloses_def sample_consensus_def go_signed)

text \<open>Containment against Byzantine domains. Whatever intervals at most F domains report, both
  ends of the hull lie in the interval of some other domain, so faulty domains cannot move the
  hull outside the span of the honest intervals.\<close>

theorem consensus_hull_within_honest_span:
  assumes "ComputeAssuranceConsensus Is F minVoting minHonest p e = Ret (Inr res)"
    and "0 <s minHonest" "length Is < 2 ^ 63" "sint F < 2 ^ 62"
    and "int (length (filter (\<lambda>I. \<not> honest I) Is)) \<le> sint F"
  shows "(\<exists>I \<in> set Is. honest I \<and> contains I (sint (Earliest (cr_Hull res)))) \<and>
    (\<exists>I \<in> set Is. honest I \<and> contains I (sint (Latest (cr_Hull res))))"
proof -
  note run = assms(1)
  have c: "contains I (sint x) \<longleftrightarrow> encloses I (pt x)" for I x
    by (simp add: contains_def encloses_pt)
  have "pt (Earliest (cr_Hull res)) \<in> covered (cr_Components res)"
    "pt (Latest (cr_Hull res)) \<in> covered (cr_Components res)"
    using hull_ends_covered consensus_components [OF run assms(2)] consensus_Inr(2,3) [OF run] by auto
  then show ?thesis
    unfolding c using consensus_hull_honest [OF run assms(2-4), of honest] assms(5) by (simp add: count_def)
qed

theorem consensus_hull_within_honest_span_witness:
  "\<exists>I \<in> set sample_domains. I \<noteq> interval 90 95 \<and> contains I 18"
  using consensus_hull_within_honest_span [OF sample_consensus_run, of "\<lambda>I. I \<noteq> interval 90 95"]
  by (simp add: sample_domains_def go_signed sample_consensus_def)

text \<open>C29: liveness of the consensus. If the configured minimum counts are met, every domain
  interval is ordered and all but at most F of them share an instant, the consensus succeeds.\<close>

theorem consensus_succeeds_when_domains_agree:
  assumes "list_all ordered Is" "length Is < 2 ^ 63" "minVoting \<le>s go_len Is"
    and "2 * F + 1 \<le>s go_len Is" "minHonest \<le>s go_len Is - F" "0 <s minHonest"
    and "int (length (filter (\<lambda>I. \<not> encloses I tau) Is)) \<le> sint F"
  shows "\<exists>res. ComputeAssuranceConsensus Is F minVoting minHonest p e = Ret (Inr res)"
  using assms by (intro consensus_succeeds) (simp_all add: faulty_def count_def list_all_iff)

theorem consensus_succeeds_when_domains_agree_witness:
  "\<exists>res. ComputeAssuranceConsensus sample_domains 1 3 2 0 30 = Ret (Inr res)"
proof -
  have "list_all ordered sample_domains" "3 \<le>s go_len sample_domains" "2 * 1 + 1 \<le>s go_len sample_domains"
    "2 \<le>s go_len sample_domains - 1" "0 <s (2 :: i64)"
    by code_simp+
  then show ?thesis
    by (intro consensus_succeeds_when_domains_agree [where tau = 19])
      (simp_all add: sample_domains_def encloses_def)
qed

text \<open>The consensus fails only for a reason it names. It never panics, and each error means
  what its name says: too few domains for the counts asked for, a disordered interval, or no
  instant covered N-F times.\<close>

theorem consensus_errors:
  "case ComputeAssuranceConsensus Is F minVoting minHonest p e of
     Panic \<Rightarrow> False
   | Ret (Inr res) \<Rightarrow> cr_ThresholdK res = go_len Is - F \<and> cr_EligibleDomains res = go_len Is
   | Ret (Inl err) \<Rightarrow>
       (if go_len Is <s 2 * F + 1 \<or> go_len Is <s minVoting \<or> go_len Is - F <s minHonest
        then err = ErrInsufficientDomains
        else if \<not> list_all ordered Is then err = ErrInvalidRange
        else err = ErrEmptyCoverageSet)"
proof -
  have bad: "(\<exists>e. collect_events Is evs = Inl e) \<longleftrightarrow> \<not> list_all ordered Is" for evs
    by (induction Is evs rule: collect_events.induct) (auto simp: ordered_def go_signed)
  have err: "collect_events Is evs = Inl e \<Longrightarrow> e = ErrInvalidRange" for evs e
    by (induction Is evs rule: collect_events.induct) (auto split: if_splits)
  show ?thesis
    using consensus_no_panic [of Is F minVoting minHonest p e] bad [of "[]"] err [of "[]"]
    by (auto simp: ComputeAssuranceConsensus_def ComputeCoverageComponents_def Let_def go_signed
        select_primary_Panic_iff split: outcome.splits sum.splits if_splits)
qed

text \<open>The primary component and the control target. Among the components the primary is least
  for the documented order (containing the prior target first, then distance to it, then depth at
  the middle, then width, then position), and the control target is the point of the primary
  component nearest to the estimate.\<close>

theorem consensus_steers_to_primary:
  assumes "ComputeAssuranceConsensus Is F minVoting minHonest p e = Ret (Inr res)" "0 <s minHonest"
  shows "cr_PrimaryComponent res \<in> set (cr_Components res) \<and>
    list_all (\<lambda>c. \<not> metric_less (comp_metric p Is c) (comp_metric p Is (cr_PrimaryComponent res))) (cr_Components res) \<and>
    sint (cr_ControlTarget res) =
      max (sint (Earliest (cr_PrimaryComponent res))) (min (sint (Latest (cr_PrimaryComponent res))) (sint e)) \<and>
    cr_ControlBridge res = cr_ControlTarget res - e"
proof -
  note run = assms(1)
  have prim: "cr_PrimaryComponent res \<in> set (cr_Components res) \<and>
      (\<forall>d \<in> set (cr_Components res). metric_key (comp_metric p Is (cr_PrimaryComponent res)) \<le> metric_key (comp_metric p Is d))"
    using select_primary [OF consensus_Inr(2) [OF run], of p Is] consensus_Inr(4) [OF run] by auto
  moreover from this have "ordered (cr_PrimaryComponent res)"
    using consensus_components [OF assms] by (auto simp: separated_def)
  then have "sint (cr_ControlTarget res) =
      max (sint (Earliest (cr_PrimaryComponent res))) (min (sint (Latest (cr_PrimaryComponent res))) (sint e))"
    using consensus_Inr(5) [OF run] by (auto simp: ordered_def go_signed)
  ultimately show ?thesis
    using consensus_Inr(6) [OF run] by (simp add: list_all_iff metric_less_key not_less)
qed

theorem consensus_steers_to_primary_witness:
  "cr_PrimaryComponent sample_consensus \<in> set (cr_Components sample_consensus)"
  using consensus_steers_to_primary [OF sample_consensus_run] by (simp add: go_signed)

text \<open>Consolidation of a fault domain. The endpoints of one domain are reduced to the
  intersection of their intervals; the domain is marked inconsistent exactly when it has no
  endpoint or the intervals share no instant.\<close>

theorem ConsolidateDomainIntervals_exact:
  "(let d = ConsolidateDomainIntervals name Is
    in if Is = [] \<or> {t. list_all (\<lambda>I. contains I t) Is} = {}
       then cd_Inconsistent d
       else \<not> cd_Inconsistent d \<and> {t. contains (cd_Interval d) t} = {t. list_all (\<lambda>I. contains I t) Is})"
  using consolidate_inconsistent_iff [of name Is] consolidate_contains [of name Is]
  by (auto simp: Let_def list_all_iff)

end
