(* ===== verification/Float64.thy ===== *)
theory Float64
  imports Prelude "HOL-Library.Log_Nat"
begin

text \<open>
  The float64 arithmetic that the integer code relies on, as exact functions on integers:
  the conversion of an integer to float64 (round to nearest, ties to even, 53 bits of
  significand) and the correctly rounded quotient of two positive integers. All values that occur are
  far below the float64 exponent range, so neither infinities nor subnormals arise.
\<close>

definition round_half_even :: "int \<Rightarrow> int \<Rightarrow> int" where
  "round_half_even n d =
    (let q = n div d; r = n mod d
     in if d < 2 * r \<or> (2 * r = d \<and> odd q) then q + 1 else q)"

text \<open>The magnitude of \<open>float64(n)\<close> for an integer \<open>n\<close> that is not negative.\<close>

definition f64_round :: "int \<Rightarrow> int" where
  "f64_round n = (let s = nat (bitlen n - 53) in round_half_even n (2 ^ s) * 2 ^ s)"

definition f64_of_int :: "int \<Rightarrow> int" where
  "f64_of_int n = (if n < 0 then - f64_round (- n) else f64_round n)"

text \<open>
  The quotient of two positive integers as a pair \<open>(m, k)\<close> standing for \<open>m / 2^k\<close>, with
  \<open>m\<close> of 53 bits. The exponent is not negative for \<open>n < 2^52 * d\<close>.
\<close>

definition f64_quot :: "int \<Rightarrow> int \<Rightarrow> int \<times> nat" where
  "f64_quot n d =
    (let k0 = nat (53 + bitlen d - bitlen n);
         k = (if 2 ^ 53 \<le> n * 2 ^ k0 div d then k0 - 1 else k0)
     in (round_half_even (n * 2 ^ k) d, k))"

lemma round_half_even_1 [simp]: "round_half_even n 1 = n"
  by (simp add: round_half_even_def)

lemma round_half_even_ge: "n div d \<le> round_half_even n d"
  by (simp add: round_half_even_def Let_def)

lemma round_half_even_le: "round_half_even n d \<le> n div d + 1"
  by (simp add: round_half_even_def Let_def)

lemma round_half_even_nonneg: "0 \<le> n \<Longrightarrow> 0 \<le> d \<Longrightarrow> 0 \<le> round_half_even n d"
  by (rule order_trans [OF _ round_half_even_ge]) (rule div_int_pos_iff [THEN iffD2], auto)

lemma f64_round_nonneg: "0 \<le> n \<Longrightarrow> 0 \<le> f64_round n"
  by (simp add: f64_round_def Let_def round_half_even_nonneg)

lemma f64_quot_nonneg: "0 \<le> n \<Longrightarrow> 0 \<le> d \<Longrightarrow> 0 \<le> fst (f64_quot n d)"
  by (simp add: f64_quot_def Let_def round_half_even_nonneg)

text \<open>Integers of up to 53 bits are exact, and rounding does not bring a larger one below \<open>2^53\<close>.\<close>

lemma f64_round_exact: "0 \<le> n \<Longrightarrow> n < 2 ^ 53 \<Longrightarrow> f64_round n = n"
  using bitlen_le_iff_power [of n 53] by (cases "n = 0") (simp_all add: f64_round_def)

lemma f64_round_large:
  assumes "2 ^ 53 \<le> n"
  shows "2 ^ 53 \<le> f64_round n"
proof -
  define s where "s = nat (bitlen n - 53)"
  have pos: "0 < n" by (rule less_le_trans [OF _ assms]) simp
  have fl: "53 < bitlen n" using bitlen_le_iff_power [of n 53] assms by (simp add: not_less [symmetric])
  have "2 ^ nat (bitlen n - 1) \<le> n"
    using bitlen_bounds [OF pos] by simp
  moreover have "nat (bitlen n - 1) = 52 + s" using fl by (simp add: s_def)
  ultimately have "2 ^ 52 * 2 ^ s \<le> n" by (simp add: power_add)
  then have "2 ^ 52 \<le> n div 2 ^ s"
    by (simp add: le_zdiv_iff)
  then have "2 ^ 52 \<le> round_half_even n (2 ^ s)"
    using round_half_even_ge [of n "2 ^ s"] by (rule order_trans)
  moreover have "(2 :: int) \<le> 2 ^ s"
    using fl power_increasing [of 1 s "2 :: int"] by (simp add: s_def)
  ultimately have "2 ^ 52 * 2 \<le> round_half_even n (2 ^ s) * 2 ^ s"
    by (intro mult_mono) simp_all
  then show ?thesis by (simp add: f64_round_def Let_def s_def)
qed

lemma f64_of_int_exact: "\<bar>n\<bar> < 2 ^ 53 \<Longrightarrow> f64_of_int n = n"
  using f64_round_exact [of n] f64_round_exact [of "- n"] by (simp add: f64_of_int_def)

lemma f64_of_int_large: "2 ^ 53 \<le> \<bar>n\<bar> \<Longrightarrow> 2 ^ 53 \<le> \<bar>f64_of_int n\<bar>"
  using f64_round_large [of n] f64_round_large [of "- n"]
  by (simp add: f64_of_int_def abs_if split: if_splits)

lemma f64_of_int_small_iff: "\<bar>f64_of_int n\<bar> < 2 ^ 53 \<Longrightarrow> f64_of_int n = n"
  using f64_of_int_large [of n] f64_of_int_exact [of n] by linarith

end
