(* ===== verification/Floats.thy ===== *)
theory Floats
  imports Float64
begin

text \<open>
  The type float64 of Go: IEEE 754 binary64 with signed zeros, infinities and one NaN. A finite value is
  the rational number it stands for; the result of an operation is the exact one rounded to nearest, ties to even, with
  gradual underflow and overflow to infinity. Products and sums are rounded separately, as on amd64 below v3, where
  the compiler does not fuse them. Conversions to integers are those of amd64.
\<close>

unbundle bit_operations_syntax

subsection \<open>Rounding\<close>

text \<open>The exponent of the binade of a number that is not zero: \<open>2^e \<le> |x| < 2^(e+1)\<close>.\<close>

definition binade :: "rat \<Rightarrow> int" where
  "binade x =
    (let (p, q) = quotient_of \<bar>x\<bar>; k = bitlen p - bitlen q
     in if \<bar>x\<bar> < 2 powi k then k - 1 else k)"

text \<open>The distance of neighbouring values around \<open>x\<close>, subnormal ones included.\<close>

definition ulp :: "rat \<Rightarrow> rat" where
  "ulp x = 2 powi (max (binade x - 52) (- 1074))"

definition round_even :: "rat \<Rightarrow> int" where
  "round_even x = (let f = \<lfloor>x\<rfloor>; r = x - of_int f in if 1 / 2 < r \<or> (r = 1 / 2 \<and> odd f) then f + 1 else f)"

definition rnd :: "rat \<Rightarrow> rat" where
  "rnd x = (if x = 0 then 0 else of_int (round_even (x / ulp x)) * ulp x)"

lemma rnd_code [code]: "rnd x = (if x = 0 then 0 else let u = ulp x in of_int (round_even (x / u)) * u)"
  by (simp add: rnd_def Let_def)

lemma bitlen_rat_bounds:
  assumes "0 < (p :: int)"
  shows "(2 :: rat) powi (bitlen p - 1) \<le> of_int p" "of_int p < (2 :: rat) powi (bitlen p)"
proof -
  have b: "0 < bitlen p" using bitlen_le_iff_power [of p 0] assms by simp
  have "2 ^ nat (bitlen p - 1) \<le> p" "p < 2 ^ nat (bitlen p)" using bitlen_bounds [OF assms] by auto
  then have "(of_int (2 ^ nat (bitlen p - 1)) :: rat) \<le> of_int p" "of_int p < (of_int (2 ^ nat (bitlen p)) :: rat)"
    by (simp_all only: of_int_le_iff of_int_less_iff)
  then show "(2 :: rat) powi (bitlen p - 1) \<le> of_int p" "of_int p < (2 :: rat) powi (bitlen p)"
    using b by (simp_all add: power_int_def)
qed

lemma powi_2_pos [simp]: "0 < (2 :: rat) powi k"
  by (rule zero_less_power_int) simp

lemma powi_2_add: "(2 :: rat) powi (a + b) = 2 powi a * 2 powi b"
  by (rule power_int_add) simp

lemma powi_2_mono: "a \<le> b \<Longrightarrow> (2 :: rat) powi a \<le> 2 powi b"
  by (rule power_int_increasing) simp_all

lemma powi_2_less_iff [simp]: "(2 :: rat) powi a < 2 powi b \<longleftrightarrow> a < b"
  using power_int_strict_increasing [of a b "2 :: rat"] powi_2_mono [of b a] by (cases "a < b") (auto simp: not_less)

lemma binade_bounds:
  assumes "x \<noteq> 0"
  shows "2 powi (binade x) \<le> \<bar>x\<bar>" "\<bar>x\<bar> < 2 powi (binade x + 1)"
proof -
  obtain p q where pq: "quotient_of \<bar>x\<bar> = (p, q)" by (metis surj_pair)
  have q: "0 < q" using quotient_of_denom_pos [OF pq] .
  have x: "\<bar>x\<bar> = of_int p / of_int q" using quotient_of_div [OF pq] .
  moreover have "0 < \<bar>x\<bar>" using assms by simp
  ultimately have p: "0 < p" using q by (simp add: zero_less_divide_iff)
  define k where "k = bitlen p - bitlen q"
  have "2 powi (k - 1) * of_int q \<le> (of_int p :: rat)"
  proof -
    have "2 powi (k - 1) * of_int q \<le> (2 :: rat) powi (k - 1) * 2 powi (bitlen q)"
      using bitlen_rat_bounds(2) [OF q] by (intro mult_left_mono) simp_all
    also have "\<dots> = 2 powi (bitlen p - 1)" by (simp add: k_def powi_2_add [symmetric])
    finally show ?thesis using bitlen_rat_bounds(1) [OF p] by simp
  qed
  then have lo: "2 powi (k - 1) \<le> \<bar>x\<bar>" using q by (simp add: x pos_le_divide_eq)
  have "(of_int p :: rat) < 2 powi (k + 1) * of_int q"
  proof -
    have "(2 :: rat) powi (bitlen p) = 2 powi (k + 1) * 2 powi (bitlen q - 1)" by (simp add: k_def powi_2_add [symmetric])
    also have "\<dots> \<le> 2 powi (k + 1) * of_int q"
      using bitlen_rat_bounds(1) [OF q] by (intro mult_left_mono) simp_all
    finally show ?thesis using bitlen_rat_bounds(2) [OF p] by simp
  qed
  then have hi: "\<bar>x\<bar> < 2 powi (k + 1)" using q by (simp add: x pos_divide_less_eq)
  show "2 powi (binade x) \<le> \<bar>x\<bar>" "\<bar>x\<bar> < 2 powi (binade x + 1)"
    using lo hi by (auto simp: binade_def pq k_def [symmetric] Let_def)
qed

lemma binade_unique:
  assumes "2 powi e \<le> \<bar>x\<bar>" "\<bar>x\<bar> < 2 powi (e + 1)"
  shows "binade x = e"
proof -
  have "x \<noteq> 0" using assms(1) by (metis abs_zero not_le powi_2_pos)
  from binade_bounds [OF this] have "2 powi e < (2 :: rat) powi (binade x + 1)" "2 powi (binade x) < (2 :: rat) powi (e + 1)"
    using assms by (meson le_less_trans)+
  then show ?thesis by simp
qed

lemma binade_mono: "x \<noteq> 0 \<Longrightarrow> \<bar>x\<bar> \<le> \<bar>y\<bar> \<Longrightarrow> binade x \<le> binade y"
  using binade_bounds(1) [of x] binade_bounds(2) [of y] powi_2_less_iff [of "binade x" "binade y + 1"] by fastforce

lemma binade_minus [simp]: "binade (- x) = binade x"
  by (simp add: binade_def)

lemma ulp_pos [simp]: "0 < ulp x"
  by (simp add: ulp_def)

lemma ulp_ge [simp]: "0 \<le> ulp x"
  by (rule less_imp_le) simp

lemma ulp_minus [simp]: "ulp (- x) = ulp x"
  by (simp add: ulp_def)

lemma ulp_mono: "x \<noteq> 0 \<Longrightarrow> \<bar>x\<bar> \<le> \<bar>y\<bar> \<Longrightarrow> ulp x \<le> ulp y"
  unfolding ulp_def by (rule powi_2_mono) (use binade_mono [of x y] in simp)

text \<open>Rounding to integers.\<close>

lemma round_even_error: "\<bar>of_int (round_even x) - x\<bar> \<le> 1 / 2"
proof -
  have "of_int \<lfloor>x\<rfloor> \<le> x" "x < of_int \<lfloor>x\<rfloor> + 1" by linarith+
  then show ?thesis by (auto simp: round_even_def Let_def abs_le_iff)
qed

lemma round_even_of_int [simp]: "round_even (of_int n) = n"
  by (simp add: round_even_def)

lemma round_even_mono:
  assumes "x \<le> y"
  shows "round_even x \<le> round_even y"
proof (cases "\<lfloor>x\<rfloor> = \<lfloor>y\<rfloor>")
  case True
  then show ?thesis using assms by (auto simp: round_even_def Let_def)
next
  case False
  then have "\<lfloor>x\<rfloor> < \<lfloor>y\<rfloor>" using floor_mono [OF assms] by simp
  then show ?thesis by (auto simp: round_even_def Let_def)
qed

lemma round_even_minus: "round_even (- x) = - round_even x"
proof (cases "x \<in> \<int>")
  case True
  then obtain n where "x = of_int n" by (elim Ints_cases)
  then show ?thesis by (metis of_int_minus round_even_of_int)
next
  case False
  have f: "\<lfloor>- x\<rfloor> = - \<lfloor>x\<rfloor> - 1"
    using False by (metis Ints_of_int ceiling_altdef floor_minus minus_add_distrib uminus_add_conv_diff add.commute)
  show ?thesis by (auto simp: round_even_def Let_def f)
qed

lemma rnd_0 [simp]: "rnd 0 = 0"
  by (simp add: rnd_def)

lemma rnd_minus [simp]: "rnd (- x) = - rnd x"
  by (simp add: rnd_def round_even_minus)

lemma rnd_error: "\<bar>rnd x - x\<bar> \<le> ulp x / 2"
proof (cases "x = 0")
  case True
  then show ?thesis using less_imp_le [OF ulp_pos [of 0]] by simp
next
  case False
  have "ulp x \<noteq> 0" using ulp_pos [of x] by (simp del: ulp_pos)
  then have "rnd x - x = (of_int (round_even (x / ulp x)) - x / ulp x) * ulp x"
    using False by (simp add: rnd_def left_diff_distrib)
  then have "\<bar>rnd x - x\<bar> = \<bar>of_int (round_even (x / ulp x)) - x / ulp x\<bar> * ulp x" by (simp add: abs_mult less_imp_le)
  also have "\<dots> \<le> 1 / 2 * ulp x" using round_even_error [of "x / ulp x"] by (intro mult_right_mono) simp_all
  finally show ?thesis by simp
qed

text \<open>A multiple of the distance is a barrier that rounding does not cross.\<close>

lemma rnd_le_grid:
  assumes "x \<noteq> 0" "x \<le> of_int n * ulp x"
  shows "rnd x \<le> of_int n * ulp x"
proof -
  have "x / ulp x \<le> of_int n" using assms(2) by (simp add: pos_divide_le_eq)
  from round_even_mono [OF this] have "round_even (x / ulp x) \<le> n" by simp
  then show ?thesis using assms(1) by (simp add: rnd_def)
qed

lemma rnd_ge_grid:
  assumes "x \<noteq> 0" "of_int n * ulp x \<le> x"
  shows "of_int n * ulp x \<le> rnd x"
  using rnd_le_grid [of "- x" "- n"] assms by simp

lemma powi_2_grid:
  assumes "b \<le> a"
  shows "(2 :: rat) powi a = of_int (2 ^ nat (a - b)) * 2 powi b"
proof -
  have "(2 :: rat) powi a = 2 powi (a - b) * 2 powi b" by (simp add: powi_2_add [symmetric])
  then show ?thesis using assms by (simp add: power_int_def)
qed

lemma rnd_pos_mono:
  assumes "0 < x" "x \<le> y"
  shows "rnd x \<le> rnd y"
proof (cases "ulp x = ulp y")
  case True
  then show ?thesis using assms by (simp add: rnd_def round_even_mono divide_right_mono less_imp_le)
next
  case False
  define c B where "c = max (binade x - 52) (- 1074)" and "B = (2 :: rat) powi (binade y)"
  have b: "binade x \<le> binade y" using assms by (intro binade_mono) simp_all
  have ne: "binade x \<noteq> binade y" using False by (auto simp: ulp_def)
  have ny: "ulp y = 2 powi (binade y - 52)" "c < binade y - 52"
    using False b ne by (auto simp: ulp_def c_def max_def split: if_splits)
  have "x < 2 powi (binade x + 1)" "B \<le> y" using binade_bounds [of x] binade_bounds [of y] assms by (auto simp: B_def)
  moreover have "2 powi (binade x + 1) \<le> B" unfolding B_def by (rule powi_2_mono) (use ny(2) in \<open>simp add: c_def\<close>)
  ultimately have xB: "x \<le> B" "B \<le> y" by linarith+
  have gx: "B = of_int (2 ^ nat (binade y - c)) * ulp x"
    using ny(2) powi_2_grid [of c "binade y"] by (simp add: B_def ulp_def c_def)
  have gy: "B = of_int (2 ^ 52) * ulp y" using powi_2_grid [of "binade y - 52" "binade y"] by (simp add: B_def ny(1))
  have "rnd x \<le> B" using rnd_le_grid [of x "2 ^ nat (binade y - c)"] assms xB(1) unfolding gx [symmetric] by simp
  also have "B \<le> rnd y" using rnd_ge_grid [of y "2 ^ 52"] assms xB(2) unfolding gy [symmetric] by simp
  finally show ?thesis .
qed

lemma rnd_nonneg: "0 \<le> x \<Longrightarrow> 0 \<le> rnd x"
  using rnd_ge_grid [of x 0] by (cases "x = 0") simp_all

lemma rnd_mono:
  assumes "x \<le> y"
  shows "rnd x \<le> rnd y"
proof -
  consider "0 < x" | "x \<le> 0" "0 \<le> y" | "y < 0" by linarith
  then show ?thesis
  proof cases
    case 2
    then show ?thesis using rnd_nonneg [of "- x"] rnd_nonneg [of y] by simp
  next
    case 3
    then show ?thesis using rnd_pos_mono [of "- y" "- x"] assms by simp
  qed (use assms rnd_pos_mono in simp)
qed

lemma rnd_exact_less:
  assumes "\<bar>m\<bar> < 2 ^ 53" "- 1074 \<le> k"
  shows "rnd (of_int m * 2 powi k) = of_int m * 2 powi k"
proof (cases "m = 0")
  case False
  define x where "x = of_int m * (2 :: rat) powi k"
  have x: "x \<noteq> 0" using False by (simp add: x_def)
  have "(of_int \<bar>m\<bar> :: rat) < of_int (2 ^ 53)" using assms(1) by (simp only: of_int_less_iff)
  then have "\<bar>x\<bar> < 2 ^ 53 * 2 powi k" by (simp add: x_def abs_mult)
  also have "\<dots> = 2 powi (k + 53)" using powi_2_grid [of k "k + 53"] by simp
  finally have "(2 :: rat) powi (binade x) < 2 powi (k + 53)" by (rule le_less_trans [OF binade_bounds(1) [OF x]])
  then have "binade x < k + 53" by simp
  then have "max (binade x - 52) (- 1074) \<le> k" using assms(2) by simp
  from powi_2_grid [OF this] obtain j :: nat where "2 powi k = of_int (2 ^ j) * ulp x" unfolding ulp_def by blast
  then have g: "x = of_int (m * 2 ^ j) * ulp x" by (simp add: x_def)
  then have "x / ulp x = of_int (m * 2 ^ j)" by (simp add: nonzero_divide_eq_eq less_imp_neq [OF ulp_pos, symmetric])
  then show ?thesis using x g unfolding x_def [symmetric] rnd_def by (metis round_even_of_int)
qed simp

text \<open>The values that float64 represents, above the least exponent.\<close>

lemma rnd_exact:
  assumes "\<bar>m\<bar> \<le> 2 ^ 53" "- 1074 \<le> k"
  shows "rnd (of_int m * 2 powi k) = of_int m * 2 powi k"
proof (cases "\<bar>m\<bar> = 2 ^ 53")
  case True
  define n where "n = sgn m * 2 ^ 52"
  have m: "m = n * 2" using True mult_sgn_abs [of m] by (simp add: n_def)
  have "\<bar>n\<bar> < (2 :: int) ^ 53" by (simp add: n_def abs_mult sgn_if)
  from rnd_exact_less [OF this, of "k + 1"] show ?thesis
    using assms(2) by (simp add: m powi_2_add mult.assoc mult.commute [of 2])
qed (use assms rnd_exact_less in simp)

lemma rnd_of_int: "\<bar>n\<bar> \<le> 2 ^ 53 \<Longrightarrow> rnd (of_int n) = of_int n"
  using rnd_exact [of n 0] by simp

lemma rnd_idem [simp]: "rnd (rnd x) = rnd x"
proof (cases "x = 0")
  case False
  define c where "c = max (binade x - 52) (- 1074)"
  have u: "ulp x = 2 powi c" by (simp add: ulp_def c_def)
  have g: "2 powi (binade x + 1) = of_int (2 ^ nat (binade x + 1 - c)) * ulp x \<and> nat (binade x + 1 - c) \<le> 53" if "c \<le> binade x + 1"
    using powi_2_grid [OF that] by (simp add: u c_def)
  have "\<bar>rnd x\<bar> \<le> 2 ^ 53 * ulp x"
  proof (cases "c \<le> binade x + 1")
    case True
    have "\<bar>x\<bar> \<le> 2 powi (binade x + 1)" using binade_bounds(2) [OF False] by simp
    also have "\<dots> \<le> 2 ^ 53 * ulp x"
      using g [OF True] power_increasing [of "nat (binade x + 1 - c)" 53 "2 :: rat"] by (auto intro!: mult_right_mono simp: less_imp_le)
    finally have "\<bar>x\<bar> \<le> of_int (2 ^ 53) * ulp x" by simp
    then have "x \<le> of_int (2 ^ 53) * ulp x" "- x \<le> of_int (2 ^ 53) * ulp x" by (simp_all add: abs_le_iff)
    from rnd_le_grid [OF False this(1)] rnd_le_grid [of "- x" "2 ^ 53"] False this(2)
    show ?thesis by (simp add: abs_le_iff)
  next
    case False': False
    have "2 powi (binade x + 1) \<le> ulp x" unfolding u by (rule powi_2_mono) (use False' in simp)
    then have "\<bar>x\<bar> \<le> of_int 1 * ulp x" using binade_bounds(2) [OF False] by simp
    then have "x \<le> of_int 1 * ulp x" "- x \<le> of_int 1 * ulp x" by (simp_all add: abs_le_iff)
    from rnd_le_grid [OF False this(1)] rnd_le_grid [of "- x" 1] False this(2)
    have "\<bar>rnd x\<bar> \<le> ulp x" by (simp add: abs_le_iff)
    moreover have "1 * ulp x \<le> 2 ^ 53 * ulp x" by (rule mult_right_mono) (simp_all add: less_imp_le)
    ultimately show ?thesis by simp
  qed
  then have "\<bar>of_int (round_even (x / ulp x)) :: rat\<bar> \<le> 2 ^ 53"
    using False by (simp add: rnd_def abs_mult abs_of_pos mult_le_cancel_right_pos)
  then have "(of_int \<bar>round_even (x / ulp x)\<bar> :: rat) \<le> of_int (2 ^ 53)" by simp
  then have "\<bar>round_even (x / ulp x)\<bar> \<le> 2 ^ 53" by (simp only: of_int_le_iff)
  from rnd_exact [OF this, of c] have "rnd (of_int (round_even (x / ulp x)) * ulp x) = of_int (round_even (x / ulp x)) * ulp x"
    by (simp add: u) (simp add: c_def)
  then show ?thesis using False by (simp add: rnd_def [of x])
qed simp

lemma rnd_relative: "\<bar>rnd x - x\<bar> \<le> \<bar>x\<bar> * 2 powi (- 53) + 2 powi (- 1075)"
proof (cases "x = 0")
  case False
  have h: "ulp x / 2 = 2 powi (max (binade x - 52) (- 1074) - 1)" by (simp add: ulp_def powi_2_add [of _ "-1"] flip: add_uminus_conv_diff)
  show ?thesis
  proof (cases "binade x - 52 \<le> - 1074")
    case True
    then have "ulp x / 2 = 2 powi (- 1075)" by (simp add: h max_def)
    moreover have "0 \<le> \<bar>x\<bar> * 2 powi (- 53)" by (simp add: less_imp_le)
    ultimately show ?thesis using rnd_error [of x] by linarith
  next
    case False': False
    then have "ulp x / 2 = 2 powi (binade x) * 2 powi (- 53)" unfolding powi_2_add [symmetric] by (simp add: h max_def)
    also have "\<dots> \<le> \<bar>x\<bar> * 2 powi (- 53)" using binade_bounds(1) [OF False] by (intro mult_right_mono) (simp_all add: less_imp_le)
    finally have "ulp x / 2 \<le> \<bar>x\<bar> * 2 powi (- 53)" .
    then show ?thesis using rnd_error [of x] less_imp_le [OF powi_2_pos [of "- 1075"]] by linarith
  qed
qed (simp add: less_imp_le)

text \<open>Rounding keeps an argument on its side of the integers when it is nearer to itself than to them.\<close>

lemma floor_rnd:
  assumes "\<bar>x\<bar> \<le> 2 ^ 53" "\<And>n. of_int n \<noteq> x \<Longrightarrow> \<bar>rnd x - x\<bar> < \<bar>x - of_int n\<bar>"
  shows "\<lfloor>rnd x\<rfloor> = \<lfloor>x\<rfloor> \<and> \<lceil>rnd x\<rceil> = \<lceil>x\<rceil>"
proof (cases "of_int \<lfloor>x\<rfloor> = x")
  case True
  have "(of_int \<bar>\<lfloor>x\<rfloor>\<bar> :: rat) = \<bar>x\<bar>" using True by (metis of_int_abs)
  then have "(of_int \<bar>\<lfloor>x\<rfloor>\<bar> :: rat) \<le> of_int (2 ^ 53)" using assms(1) by simp
  then have "\<bar>\<lfloor>x\<rfloor>\<bar> \<le> 2 ^ 53" by (simp only: of_int_le_iff)
  then have "rnd x = x" using rnd_of_int True by metis
  then show ?thesis by simp
next
  case False
  then have f: "of_int \<lfloor>x\<rfloor> < x" "x < of_int (\<lfloor>x\<rfloor> + 1)" by linarith+
  then have "\<bar>rnd x - x\<bar> < x - of_int \<lfloor>x\<rfloor>" "\<bar>rnd x - x\<bar> < of_int (\<lfloor>x\<rfloor> + 1) - x"
    using assms(2) [OF False] assms(2) [of "\<lfloor>x\<rfloor> + 1"] by auto
  then have r: "of_int \<lfloor>x\<rfloor> < rnd x" "rnd x < of_int (\<lfloor>x\<rfloor> + 1)" by linarith+
  have "\<lfloor>rnd x\<rfloor> = \<lfloor>x\<rfloor>" by (rule floor_unique) (use r in simp_all)
  moreover have "\<lceil>rnd x\<rceil> = \<lfloor>x\<rfloor> + 1" by (rule ceiling_unique) (use r in simp_all)
  moreover have "\<lceil>x\<rceil> = \<lfloor>x\<rfloor> + 1" by (rule ceiling_unique) (use f in simp_all)
  ultimately show ?thesis by simp
qed

text \<open>A value of float64 is a multiple of the distance of its neighbours, with a factor of 53 bits.\<close>

lemma representable_grid:
  assumes "rnd p = p"
  obtains m where "p = of_int m * ulp p" "\<bar>m\<bar> \<le> 2 ^ 53"
proof (cases "p = 0")
  case False
  define m where "m = round_even (p / ulp p)"
  have m: "p = of_int m * ulp p" using assms False by (simp add: rnd_def m_def)
  have "\<bar>p\<bar> < 2 powi (binade p + 1)" by (rule binade_bounds(2) [OF False])
  also have "\<dots> \<le> 2 powi (53 + max (binade p - 52) (- 1074))" by (rule powi_2_mono) simp
  also have "\<dots> = 2 ^ 53 * ulp p" by (subst powi_2_add) (simp add: ulp_def)
  finally have "\<bar>of_int m\<bar> * ulp p < 2 ^ 53 * ulp p" by (subst (asm) m) (simp add: abs_mult)
  then have "(of_int \<bar>m\<bar> :: rat) < of_int (2 ^ 53)" using mult_less_cancel_right_pos [OF ulp_pos] by simp
  then have "\<bar>m\<bar> \<le> 2 ^ 53" by (simp only: of_int_less_iff)
  then show ?thesis using that m by blast
qed (use that [of 0] in simp)

lemma rnd_scaled:
  assumes "rnd p = p"
  shows "rnd (p * 2 ^ k) = p * 2 ^ k"
proof -
  obtain m where m: "p = of_int m * ulp p" "\<bar>m\<bar> \<le> 2 ^ 53" by (rule representable_grid [OF assms])
  define c where "c = max (binade p - 52) (- 1074)"
  have "p * 2 ^ k = of_int m * (2 powi c * 2 powi (int k))" by (subst m(1)) (simp add: ulp_def c_def power_int_def)
  also have "\<dots> = of_int m * 2 powi (c + int k)" by (simp add: powi_2_add)
  finally have e: "p * 2 ^ k = of_int m * 2 powi (c + int k)" .
  show ?thesis unfolding e by (rule rnd_exact [OF m(2)]) (simp add: c_def)
qed

text \<open>The rounding of integers agrees with that of the integer code.\<close>

lemma round_even_int_quotient:
  assumes "0 < d"
  shows "round_even (of_int n / of_int d) = round_half_even n d"
proof -
  have f: "\<lfloor>(of_int n :: rat) / of_int d\<rfloor> = n div d" by (rule floor_divide_of_int_eq)
  have "(of_int n :: rat) = of_int (n div d * d + n mod d)" by simp
  then have n: "(of_int n :: rat) = of_int (n div d) * of_int d + of_int (n mod d)" by (simp only: of_int_add of_int_mult)
  have r: "(of_int n :: rat) / of_int d - of_int (n div d) = of_int (n mod d) / of_int d" using assms by (simp add: n field_simps)
  have "1 / 2 < (of_int (n mod d) :: rat) / of_int d \<longleftrightarrow> (of_int d :: rat) < of_int (2 * (n mod d))"
    using assms by (simp add: pos_less_divide_eq mult.commute)
  also have "\<dots> \<longleftrightarrow> d < 2 * (n mod d)" by (simp only: of_int_less_iff)
  finally have lt: "1 / 2 < (of_int (n mod d) :: rat) / of_int d \<longleftrightarrow> d < 2 * (n mod d)" .
  have "(of_int (n mod d) :: rat) / of_int d = 1 / 2 \<longleftrightarrow> (of_int (2 * (n mod d)) :: rat) = of_int d"
    using assms by (simp add: divide_eq_eq mult.commute)
  also have "\<dots> \<longleftrightarrow> 2 * (n mod d) = d" by (simp only: of_int_eq_iff)
  finally show ?thesis unfolding round_even_def round_half_even_def Let_def f r lt by simp
qed

lemma rnd_of_nonneg_int:
  assumes "0 \<le> n"
  shows "rnd (of_int n) = of_int (f64_round n)"
proof (cases "n < 2 ^ 53")
  case True
  then show ?thesis using assms rnd_of_int [of n] by (simp add: f64_round_exact)
next
  case False
  then have n: "0 < n" "n \<noteq> 0" using less_le_trans [of 0 "2 ^ 53" n] by simp_all
  have l: "53 < bitlen n" using bitlen_le_iff_power [of n 53] False by (simp add: not_less [symmetric])
  define s where "s = nat (bitlen n - 53)"
  have "binade (of_int n) = bitlen n - 1" using bitlen_rat_bounds [OF n(1)] n(1) by (intro binade_unique) simp_all
  then have u: "ulp (of_int n) = of_int (2 ^ s)" using l by (simp add: ulp_def power_int_def s_def)
  show ?thesis using n by (simp add: rnd_def u round_even_int_quotient [symmetric] f64_round_def s_def [symmetric])
qed

lemma rnd_int: "rnd (of_int n) = of_int (f64_of_int n)"
proof (cases "n < 0")
  case True
  then have "rnd (- of_int n) = of_int (f64_round (- n))" using rnd_of_nonneg_int [of "- n"] by simp
  then have "rnd (of_int n) = - of_int (f64_round (- n))" unfolding rnd_minus by linarith
  then show ?thesis using True by (simp add: f64_of_int_def)
qed (simp add: f64_of_int_def rnd_of_nonneg_int)

subsection \<open>Values and operations\<close>

datatype float64 = Fin rat | NegZero | Inf bool | NaN

text \<open>\<open>Inf True\<close> is the negative infinity.\<close>

fun f_val :: "float64 \<Rightarrow> rat" where
  "f_val (Fin x) = x"
| "f_val _ = 0"

fun f_neg :: "float64 \<Rightarrow> bool" where
  "f_neg (Fin x) = (x < 0)"
| "f_neg NegZero = True"
| "f_neg (Inf s) = s"
| "f_neg NaN = False"

definition f_zero :: "bool \<Rightarrow> float64" where
  "f_zero s = (if s then NegZero else Fin 0)"

text \<open>A finite result; \<open>s\<close> is the sign it has when it is zero.\<close>

definition f_make :: "bool \<Rightarrow> rat \<Rightarrow> float64" where
  "f_make s x =
    (let y = rnd x
     in if y = 0 then f_zero (if x = 0 then s else x < 0) else if 1024 \<le> binade y then Inf (y < 0) else Fin y)"

text \<open>The float64 of a constant of the source.\<close>

definition f_lit :: "rat \<Rightarrow> float64" where
  "f_lit x = f_make False x"

fun f_uminus :: "float64 \<Rightarrow> float64" where
  "f_uminus (Fin x) = (if x = 0 then NegZero else Fin (- x))"
| "f_uminus NegZero = Fin 0"
| "f_uminus (Inf s) = Inf (\<not> s)"
| "f_uminus NaN = NaN"

definition f_add :: "float64 \<Rightarrow> float64 \<Rightarrow> float64" where
  "f_add a b =
    (case (a, b) of
       (NaN, _) \<Rightarrow> NaN | (_, NaN) \<Rightarrow> NaN
     | (Inf s, Inf t) \<Rightarrow> if s = t then Inf s else NaN
     | (Inf s, _) \<Rightarrow> Inf s | (_, Inf t) \<Rightarrow> Inf t
     | (NegZero, NegZero) \<Rightarrow> NegZero
     | _ \<Rightarrow> f_make False (f_val a + f_val b))"

definition f_sub :: "float64 \<Rightarrow> float64 \<Rightarrow> float64" where
  "f_sub a b = f_add a (f_uminus b)"

definition f_mul :: "float64 \<Rightarrow> float64 \<Rightarrow> float64" where
  "f_mul a b =
    (let s = (f_neg a \<noteq> f_neg b)
     in case (a, b) of
          (NaN, _) \<Rightarrow> NaN | (_, NaN) \<Rightarrow> NaN
        | (Inf _, Inf _) \<Rightarrow> Inf s
        | (Inf _, _) \<Rightarrow> if f_val b = 0 then NaN else Inf s
        | (_, Inf _) \<Rightarrow> if f_val a = 0 then NaN else Inf s
        | _ \<Rightarrow> f_make s (f_val a * f_val b))"

definition f_div :: "float64 \<Rightarrow> float64 \<Rightarrow> float64" where
  "f_div a b =
    (let s = (f_neg a \<noteq> f_neg b)
     in case (a, b) of
          (NaN, _) \<Rightarrow> NaN | (_, NaN) \<Rightarrow> NaN
        | (Inf _, Inf _) \<Rightarrow> NaN
        | (Inf _, _) \<Rightarrow> Inf s
        | (_, Inf _) \<Rightarrow> f_zero s
        | _ \<Rightarrow> if f_val b = 0 then (if f_val a = 0 then NaN else Inf s) else f_make s (f_val a / f_val b))"

definition f_less :: "float64 \<Rightarrow> float64 \<Rightarrow> bool" where
  "f_less a b =
    (case (a, b) of
       (NaN, _) \<Rightarrow> False | (_, NaN) \<Rightarrow> False
     | (Inf s, Inf t) \<Rightarrow> s \<and> \<not> t
     | (Inf s, _) \<Rightarrow> s | (_, Inf t) \<Rightarrow> \<not> t
     | _ \<Rightarrow> f_val a < f_val b)"

definition f_leq :: "float64 \<Rightarrow> float64 \<Rightarrow> bool" where
  "f_leq a b \<longleftrightarrow> a \<noteq> NaN \<and> b \<noteq> NaN \<and> \<not> f_less b a"

subsection \<open>Functions of package math\<close>

fun f_Abs :: "float64 \<Rightarrow> float64" where
  "f_Abs (Fin x) = Fin \<bar>x\<bar>"
| "f_Abs NegZero = Fin 0"
| "f_Abs (Inf _) = Inf False"
| "f_Abs NaN = NaN"

definition f_Copysign :: "float64 \<Rightarrow> float64 \<Rightarrow> float64" where
  "f_Copysign a b = (if f_neg b then f_uminus (f_Abs a) else f_Abs a)"

text \<open>An integral result, which keeps the sign of the argument.\<close>

definition f_integral :: "rat \<Rightarrow> int \<Rightarrow> float64" where
  "f_integral x n = (if n = 0 then f_zero (x < 0) else Fin (of_int n))"

fun f_Floor :: "float64 \<Rightarrow> float64" where
  "f_Floor (Fin x) = f_integral x \<lfloor>x\<rfloor>"
| "f_Floor a = a"

fun f_Ceil :: "float64 \<Rightarrow> float64" where
  "f_Ceil (Fin x) = f_integral x \<lceil>x\<rceil>"
| "f_Ceil a = a"

text \<open>\<open>math.Round\<close>: half away from zero.\<close>

definition round_away :: "rat \<Rightarrow> int" where
  "round_away x = (if x < 0 then - \<lfloor>- x + 1 / 2\<rfloor> else \<lfloor>x + 1 / 2\<rfloor>)"

fun f_Round :: "float64 \<Rightarrow> float64" where
  "f_Round (Fin x) = f_integral x (round_away x)"
| "f_Round a = a"

definition f_Min :: "float64 \<Rightarrow> float64 \<Rightarrow> float64" where
  "f_Min a b =
    (if a = Inf True \<or> b = Inf True then Inf True
     else if a = NaN \<or> b = NaN then NaN
     else if f_val a = 0 \<and> a \<noteq> Inf False \<and> f_val a = f_val b \<and> b \<noteq> Inf False then (if f_neg a then a else b)
     else if f_less a b then a else b)"

text \<open>\<open>math.Sqrt\<close>, correctly rounded: the integral root of the argument scaled to 53 bits, and the comparison with
  the next half.\<close>

function isqrt :: "int \<Rightarrow> int" where
  "isqrt n = (if n \<le> 0 then 0 else let r = 2 * isqrt (n div 4) in if (r + 1) * (r + 1) \<le> n then r + 1 else r)"
  by auto
termination by (relation "measure nat") auto

definition sqrt_round :: "rat \<Rightarrow> rat" where
  "sqrt_round x =
    (let u = 2 powi (binade x div 2 - 52); y = x / (u * u); m = isqrt \<lfloor>y\<rfloor>
     in of_int (if of_int (m * m + m) + 1 / 4 < y then m + 1 else m) * u)"

fun f_Sqrt :: "float64 \<Rightarrow> float64" where
  "f_Sqrt (Fin x) = (if x < 0 then NaN else if x = 0 then Fin 0 else Fin (sqrt_round x))"
| "f_Sqrt NegZero = NegZero"
| "f_Sqrt (Inf s) = (if s then NaN else Inf False)"
| "f_Sqrt NaN = NaN"

declare isqrt.simps [simp del]

subsection \<open>Conversions\<close>

definition f_of_i64 :: "64 word \<Rightarrow> float64" where
  "f_of_i64 w = Fin (of_int (f64_of_int (sint w)))"

definition toward_zero :: "rat \<Rightarrow> int" where
  "toward_zero x = (if x < 0 then - \<lfloor>- x\<rfloor> else \<lfloor>x\<rfloor>)"

text \<open>Truncation; the amd64 instruction gives the least integer when the result does not fit.\<close>

fun f_to_i64 :: "float64 \<Rightarrow> 64 word" where
  "f_to_i64 (Fin x) = (let n = toward_zero x in if - (2 ^ 63) \<le> n \<and> n < 2 ^ 63 then of_int n else of_int (- (2 ^ 63)))"
| "f_to_i64 NegZero = 0"
| "f_to_i64 _ = of_int (- (2 ^ 63))"

text \<open>Values from \<open>2^63\<close> on are converted less \<open>2^63\<close>, and the top bit is flipped.\<close>

definition f_to_u64 :: "float64 \<Rightarrow> 64 word" where
  "f_to_u64 a =
    (if f_less a (Fin (2 ^ 63)) then f_to_i64 a else f_to_i64 (f_sub a (Fin (2 ^ 63))) XOR of_int (2 ^ 63))"

subsection \<open>Finite values\<close>

text \<open>On finite values the operations are the rational ones, rounded.\<close>

fun f_finite :: "float64 \<Rightarrow> bool" where
  "f_finite (Fin _) = True"
| "f_finite NegZero = True"
| "f_finite _ = False"

named_theorems float_val

lemma f_zero_val [float_val]: "f_finite (f_zero s)" "f_val (f_zero s) = 0"
  by (simp_all add: f_zero_def)

lemma binade_small: "\<bar>x\<bar> < 2 powi e \<Longrightarrow> x \<noteq> 0 \<Longrightarrow> binade x < e"
  using binade_bounds(1) [of x] powi_2_less_iff [of "binade x" e] by (simp del: powi_2_less_iff) 

lemma rnd_small: "\<bar>x\<bar> \<le> of_int n \<Longrightarrow> n \<le> 2 ^ 53 \<Longrightarrow> \<bar>rnd x\<bar> \<le> of_int n"
proof -
  assume x: "\<bar>x\<bar> \<le> of_int n" and n: "n \<le> 2 ^ 53"
  have "0 \<le> n" using order_trans [OF abs_ge_zero x] by simp
  then have "rnd (of_int n) = of_int n" "rnd (of_int (- n)) = of_int (- n)" using n by (simp_all add: rnd_of_int del: of_int_minus)
  then show ?thesis using rnd_mono [of x "of_int n"] rnd_mono [of "- of_int n" x] x by (simp add: abs_le_iff)
qed

lemma rnd_large_bound:
  assumes "\<bar>x\<bar> \<le> 2 powi e" "- 1022 \<le> e"
  shows "\<bar>rnd x\<bar> \<le> 2 powi e"
proof -
  have "rnd (2 powi e) = 2 powi e" using rnd_exact [of 1 e] assms(2) by simp
  then show ?thesis using rnd_mono [of x "2 powi e"] rnd_mono [of "- (2 powi e)" x] assms(1) by (simp add: abs_le_iff)
qed

lemma f_make_val:
  assumes "\<bar>x\<bar> \<le> 2 powi 1023"
  shows "f_finite (f_make s x)" "f_val (f_make s x) = rnd x"
proof -
  have "\<bar>rnd x\<bar> \<le> 2 powi 1023" by (rule rnd_large_bound [OF assms]) simp
  also have "\<dots> < (2 :: rat) powi 1024" by simp
  finally have "rnd x = 0 \<or> binade (rnd x) < 1024" using binade_small by blast
  then show "f_finite (f_make s x)" "f_val (f_make s x) = rnd x" by (auto simp: f_make_def Let_def float_val)
qed

lemma f_uminus_val [float_val]: "f_finite (f_uminus a) = f_finite a" "f_val (f_uminus a) = - f_val a"
  by (cases a; simp)+

lemma f_Abs_val [float_val]: "f_finite (f_Abs a) = f_finite a" "f_val (f_Abs a) = \<bar>f_val a\<bar>"
  by (cases a; simp)+

lemma f_add_val:
  assumes "f_finite a" "f_finite b" "\<bar>f_val a + f_val b\<bar> \<le> 2 powi 1023"
  shows "f_finite (f_add a b) \<and> f_val (f_add a b) = rnd (f_val a + f_val b)"
  using assms f_make_val [OF assms(3)] by (cases a; cases b; simp add: f_add_def)

lemma f_sub_val:
  assumes "f_finite a" "f_finite b" "\<bar>f_val a - f_val b\<bar> \<le> 2 powi 1023"
  shows "f_finite (f_sub a b) \<and> f_val (f_sub a b) = rnd (f_val a - f_val b)"
  using f_add_val [of a "f_uminus b"] assms by (simp add: f_sub_def float_val)

lemma f_mul_val:
  assumes "f_finite a" "f_finite b" "\<bar>f_val a * f_val b\<bar> \<le> 2 powi 1023"
  shows "f_finite (f_mul a b) \<and> f_val (f_mul a b) = rnd (f_val a * f_val b)"
  using assms f_make_val [OF assms(3)] by (cases a; cases b; simp add: f_mul_def Let_def)

lemma f_div_val:
  assumes "f_finite a" "f_finite b" "f_val b \<noteq> 0" "\<bar>f_val a / f_val b\<bar> \<le> 2 powi 1023"
  shows "f_finite (f_div a b) \<and> f_val (f_div a b) = rnd (f_val a / f_val b)"
  using assms f_make_val [OF assms(4)] by (cases a; cases b; simp add: f_div_def Let_def)

lemma f_less_val: "f_finite a \<Longrightarrow> f_finite b \<Longrightarrow> f_less a b \<longleftrightarrow> f_val a < f_val b"
  by (cases a; cases b; simp add: f_less_def)

lemma f_leq_val: "f_finite a \<Longrightarrow> f_finite b \<Longrightarrow> f_leq a b \<longleftrightarrow> f_val a \<le> f_val b"
  using f_less_val [of b a] by (cases a; cases b; simp add: f_leq_def not_less)

lemma f_integral_val [float_val]: "f_finite (f_integral x n)" "f_val (f_integral x n) = of_int n"
  by (simp_all add: f_integral_def float_val)

lemma f_Floor_val: "f_finite a \<Longrightarrow> f_finite (f_Floor a) \<and> f_val (f_Floor a) = of_int \<lfloor>f_val a\<rfloor>"
  by (cases a; simp add: float_val)

lemma f_Ceil_val: "f_finite a \<Longrightarrow> f_finite (f_Ceil a) \<and> f_val (f_Ceil a) = of_int \<lceil>f_val a\<rceil>"
  by (cases a; simp add: float_val)

lemma round_away_0 [simp]: "round_away 0 = 0"
  using floor_unique [of 0 "1 / 2 :: rat"] by (simp add: round_away_def)

lemma f_Round_val: "f_finite a \<Longrightarrow> f_finite (f_Round a) \<and> f_val (f_Round a) = of_int (round_away (f_val a))"
  by (cases a; simp add: float_val)

lemma toward_zero_of_int [simp]: "toward_zero (of_int n) = n"
proof (cases "n < 0")
  case True
  then have "\<lfloor>- (of_int n :: rat)\<rfloor> = - n" by (metis floor_of_int of_int_minus)
  then show ?thesis using True by (simp add: toward_zero_def)
qed (simp add: toward_zero_def)

lemma f_to_i64_val: "f_finite a \<Longrightarrow> in_i64 (toward_zero (f_val a)) \<Longrightarrow> sint (f_to_i64 a) = toward_zero (f_val a)"
  by (cases a; simp add: toward_zero_def in_i64_def sint_of_int64)

lemma f_of_i64_val [float_val]: "f_finite (f_of_i64 w)" "f_val (f_of_i64 w) = rnd (of_int (sint w))"
  by (simp_all only: f_of_i64_def rnd_int f_finite.simps f_val.simps)

subsection \<open>Relative errors\<close>

text \<open>\<open>near k x y\<close>: the positive \<open>y\<close> is \<open>x\<close> up to \<open>k\<close> relative roundings. The factor makes the relation a
  multiplicative one, so that products and quotients add the counts, and sums take their maximum.\<close>

definition fq :: rat where "fq = 1 + 1 / 2 ^ 52"

definition near :: "nat \<Rightarrow> rat \<Rightarrow> rat \<Rightarrow> bool" where
  "near k x y \<longleftrightarrow> 0 < x \<and> 0 < y \<and> x \<le> y * fq ^ k \<and> y \<le> x * fq ^ k"

lemma fq_gt [simp]: "1 < fq" "0 < fq" "1 \<le> fq"
  by (simp_all add: fq_def)

lemma fq_ge [simp]: "0 \<le> fq"
  by (simp add: fq_def)

lemma near_refl: "0 < x \<Longrightarrow> near k x x"
  by (simp add: near_def)

lemma near_sym: "near k x y \<Longrightarrow> near k y x"
  by (auto simp: near_def)

lemma near_mono: "near k x y \<Longrightarrow> k \<le> l \<Longrightarrow> near l x y"
  unfolding near_def using power_increasing [of k l fq]
  by (auto intro: order_trans mult_left_mono less_imp_le)

lemma near_trans:
  assumes "near k x y" "near l y z"
  shows "near (k + l) x z"
proof -
  have "x \<le> y * fq ^ k" "y \<le> z * fq ^ l" "y \<le> x * fq ^ k" "z \<le> y * fq ^ l" and pos: "0 < x" "0 < z"
    using assms by (auto simp: near_def)
  moreover have "y * fq ^ k \<le> z * fq ^ l * fq ^ k" "y * fq ^ l \<le> x * fq ^ k * fq ^ l"
    using calculation by (auto intro!: mult_right_mono)
  ultimately have "x \<le> z * fq ^ l * fq ^ k" "z \<le> x * fq ^ k * fq ^ l" by linarith+
  then show ?thesis using pos by (simp add: near_def power_add ac_simps)
qed

lemma near_mult:
  assumes "near k x y" "near l x' y'"
  shows "near (k + l) (x * x') (y * y')"
proof -
  have "x * x' \<le> (y * fq ^ k) * (y' * fq ^ l)" "y * y' \<le> (x * fq ^ k) * (x' * fq ^ l)"
    using assms by (auto simp: near_def intro!: mult_mono)
  then show ?thesis using assms by (simp add: near_def power_add mult.assoc mult.left_commute)
qed

lemma near_inverse: "near k x y \<Longrightarrow> near k (1 / x) (1 / y)"
  by (auto simp: near_def field_simps)

lemma near_divide: "near k x y \<Longrightarrow> near l x' y' \<Longrightarrow> near (k + l) (x / x') (y / y')"
  using near_mult [OF _ near_inverse, of k x y l x' y'] by simp

lemma near_add:
  assumes "near k x y" "near k x' y'"
  shows "near k (x + x') (y + y')"
  using assms by (auto simp: near_def distrib_right intro: add_mono)

lemma near_rnd:
  assumes "2 powi (- 1022) \<le> x"
  shows "near 1 x (rnd x)"
proof -
  have x: "0 < x" using less_le_trans [OF powi_2_pos assms] .
  have "rnd (2 powi (- 1022)) = 2 powi (- 1022)" using rnd_exact [of 1 "- 1022"] by simp
  then have p: "0 < rnd x" using rnd_mono [OF assms] less_le_trans [OF powi_2_pos [of "- 1022"]] by metis
  have "2 powi (- 1022) < (2 :: rat) powi (binade x + 1)" using le_less_trans [OF assms] binade_bounds(2) [of x] x by simp
  then have "- 1022 < binade x + 1" by (simp only: powi_2_less_iff)
  then have "ulp x = 2 powi (binade x) * 2 powi (- 52)" unfolding powi_2_add [symmetric] by (simp add: ulp_def)
  also have "\<dots> \<le> x * 2 powi (- 52)" using binade_bounds(1) [of x] x by (intro mult_right_mono) simp_all
  finally have "ulp x \<le> x / 2 ^ 52" by (simp add: power_int_def power_one_over)
  then have "\<bar>rnd x - x\<bar> \<le> x / 2 ^ 53" using rnd_error [of x] by simp
  then have "rnd x \<le> x + x / 2 ^ 53" "x - x / 2 ^ 53 \<le> rnd x" unfolding abs_le_iff by linarith+
  moreover have "(x - x / 2 ^ 53) * fq \<le> rnd x * fq" using calculation(2) by (intro mult_right_mono) simp_all
  ultimately show ?thesis using x p by (simp add: near_def fq_def algebra_simps)
qed

lemma isqrt_spec:
  assumes "0 \<le> n"
  shows "0 \<le> isqrt n \<and> isqrt n * isqrt n \<le> n \<and> n < (isqrt n + 1) * (isqrt n + 1)"
  using assms
proof (induction n rule: isqrt.induct)
  case (1 n)
  show ?case
  proof (cases "n \<le> 0")
    case True
    then show ?thesis using 1 by (subst (1 2 3 4 5) isqrt.simps) simp
  next
    case False
    define r where "r = isqrt (n div 4)"
    have r: "0 \<le> r" "r * r \<le> n div 4" "n div 4 < (r + 1) * (r + 1)" using 1 False by (simp_all add: r_def)
    then have "4 * (r * r) \<le> n" "n < 4 * ((r + 1) * (r + 1))" by linarith+
    then have lo: "2 * r * (2 * r) \<le> n" and hi: "n < (2 * r + 2) * (2 * r + 2)" by (simp_all add: algebra_simps)
    have i: "isqrt n = (if (2 * r + 1) * (2 * r + 1) \<le> n then 2 * r + 1 else 2 * r)"
      using False by (subst isqrt.simps) (simp add: r_def Let_def)
    show ?thesis using lo hi r(1) by (cases "(2 * r + 1) * (2 * r + 1) \<le> n") (simp_all add: i add.commute)
  qed
qed

text \<open>The square of the root is the argument up to two roundings.\<close>

lemma half_root_error:
  assumes "2 ^ 52 \<le> M" "(M - 1 / 2) * (M - 1 / 2) \<le> y" "y \<le> (M + 1 / 2) * (M + 1 / 2)"
  shows "near 2 y (M * M)"
proof -
  have q: "M \<le> (M - 1 / 2) * fq" "M + 1 / 2 \<le> M * fq" using assms(1) by (simp_all add: fq_def algebra_simps)
  have "M * M \<le> ((M - 1 / 2) * fq) * ((M - 1 / 2) * fq)" using q(1) assms(1) by (intro mult_mono) simp_all
  also have "\<dots> = ((M - 1 / 2) * (M - 1 / 2)) * fq ^ 2" by (simp add: power2_eq_square ac_simps)
  also have "\<dots> \<le> y * fq ^ 2" using assms(2) by (intro mult_right_mono) simp_all
  finally have a: "M * M \<le> y * fq ^ 2" .
  have "(M + 1 / 2) * (M + 1 / 2) \<le> (M * fq) * (M * fq)" using assms(1) by (intro mult_mono q(2)) (simp_all add: less_imp_le)
  with assms(3) have "y \<le> (M * fq) * (M * fq)" by (rule order_trans)
  then have b: "y \<le> M * M * fq ^ 2" by (simp add: power2_eq_square ac_simps)
  have "0 < (M - 1 / 2) * (M - 1 / 2)" using assms(1) by simp
  then have "0 < y" by (rule less_le_trans [OF _ assms(2)])
  then show ?thesis using a b assms(1) by (simp add: near_def)
qed

lemma sqrt_round_near:
  assumes "0 < x"
  shows "near 2 x (sqrt_round x * sqrt_round x)"
proof -
  define h where "h = binade x div 2"
  define u :: rat where "u = 2 powi (h - 52)"
  define y where "y = x / (u * u)"
  define m where "m = isqrt \<lfloor>y\<rfloor>"
  define M where "M = (if of_int (m * m + m) + 1 / 4 < y then m + 1 else m)"
  have u: "0 < u" by (simp add: u_def)
  have uu: "u * u = 2 powi (2 * h - 104)" unfolding u_def powi_2_add [symmetric] by simp
  have "(2 :: rat) ^ 104 * (u * u) = 2 powi (2 * h)" unfolding uu using powi_2_grid [of "2 * h - 104" "2 * h"] by simp
  also have "\<dots> \<le> 2 powi (binade x)" by (rule powi_2_mono) (simp add: h_def)
  also have "\<dots> \<le> x" using binade_bounds(1) [of x] assms by simp
  finally have y: "2 ^ 104 \<le> y" using u by (simp add: y_def pos_le_divide_eq)
  then have fl: "2 ^ 104 \<le> \<lfloor>y\<rfloor>" by (simp add: le_floor_iff)
  then have m: "0 \<le> m" "m * m \<le> \<lfloor>y\<rfloor>" "\<lfloor>y\<rfloor> < (m + 1) * (m + 1)" using isqrt_spec [of "\<lfloor>y\<rfloor>"] by (simp_all add: m_def)
  have m52: "2 ^ 52 \<le> m"
  proof (rule ccontr)
    assume "\<not> 2 ^ 52 \<le> m"
    then have "(m + 1) * (m + 1) \<le> 2 ^ 52 * 2 ^ 52" using m(1) by (intro mult_mono) simp_all
    then have "(m + 1) * (m + 1) \<le> 2 ^ 104" by simp
    then show False using m(3) fl by (meson leD le_less_trans)
  qed
  have "of_int (m * m) \<le> y" using m(2) by (simp only: le_floor_iff)
  moreover have "y < of_int ((m + 1) * (m + 1))" using m(3) by (simp only: floor_less_iff)
  ultimately have b: "(of_int M - 1 / 2) * (of_int M - 1 / 2) \<le> y" "y \<le> (of_int M + 1 / 2) * (of_int M + 1 / 2)"
    using m52 by (auto simp: M_def algebra_simps)
  have "(2 :: rat) ^ 52 \<le> of_int M" using m52 by (simp add: M_def)
  from half_root_error [OF this b] have "near (2 + 0) (y * (u * u)) ((of_int M * of_int M) * (u * u))"
    by (rule near_mult) (rule near_refl, use u in simp)
  moreover have "y * (u * u) = x" using u by (simp add: y_def)
  moreover have "sqrt_round x = of_int M * u"
    by (simp add: sqrt_round_def Let_def u_def [symmetric] h_def [symmetric] y_def [symmetric] m_def [symmetric] M_def)
  ultimately show ?thesis by (simp add: ac_simps flip: numeral_2_eq_2)
qed

text \<open>Powers of two bound a rounded value when they bound the exact one.\<close>

lemma rnd_ge_powi: "2 powi e \<le> x \<Longrightarrow> - 1074 \<le> e \<Longrightarrow> 2 powi e \<le> rnd x"
  using rnd_mono [of "2 powi e" x] rnd_exact [of 1 e] by simp

definition f_within :: "int \<Rightarrow> float64 \<Rightarrow> bool" where
  "f_within e a \<longleftrightarrow> f_finite a \<and> \<bar>f_val a\<bar> \<le> 2 powi e"

lemma f_within_mono: "f_within e a \<Longrightarrow> e \<le> e' \<Longrightarrow> f_within e' a"
  using powi_2_mono [of e e'] by (auto simp: f_within_def)

lemma f_within_mul:
  assumes "f_within e a" "f_within e' b" "- 1022 \<le> e + e'" "e + e' \<le> 1023"
  shows "f_within (e + e') (f_mul a b)" "f_val (f_mul a b) = rnd (f_val a * f_val b)"
proof -
  have b: "\<bar>f_val a * f_val b\<bar> \<le> 2 powi (e + e')"
    unfolding powi_2_add abs_mult by (rule mult_mono) (use assms(1,2) in \<open>simp_all add: f_within_def less_imp_le\<close>)
  then have "f_finite (f_mul a b) \<and> f_val (f_mul a b) = rnd (f_val a * f_val b)"
    using assms by (intro f_mul_val order_trans [OF b powi_2_mono]) (simp_all add: f_within_def)
  then show "f_within (e + e') (f_mul a b)" "f_val (f_mul a b) = rnd (f_val a * f_val b)"
    using rnd_large_bound [OF b assms(3)] by (simp_all add: f_within_def)
qed

lemma f_within_add:
  assumes "f_within e a" "f_within e b" "- 1023 \<le> e" "e < 1023"
  shows "f_within (e + 1) (f_add a b)" "f_val (f_add a b) = rnd (f_val a + f_val b)"
proof -
  have "\<bar>f_val a + f_val b\<bar> \<le> 2 powi e + 2 powi e"
    using assms(1,2) by (intro order_trans [OF abs_triangle_ineq] add_mono) (simp_all add: f_within_def)
  also have "\<dots> = 2 powi (e + 1)" by (simp add: powi_2_add)
  finally have b: "\<bar>f_val a + f_val b\<bar> \<le> 2 powi (e + 1)" .
  then have "f_finite (f_add a b) \<and> f_val (f_add a b) = rnd (f_val a + f_val b)"
    using assms by (intro f_add_val order_trans [OF b powi_2_mono]) (simp_all add: f_within_def)
  then show "f_within (e + 1) (f_add a b)" "f_val (f_add a b) = rnd (f_val a + f_val b)"
    using rnd_large_bound [OF b] assms(3) by (simp_all add: f_within_def)
qed

lemma f_within_uminus [simp]: "f_within e (f_uminus a) = f_within e a"
  by (simp add: f_within_def float_val)

lemma f_lit_val:
  assumes "\<bar>x\<bar> \<le> 2 powi 1023"
  shows "f_finite (f_lit x)" "f_val (f_lit x) = rnd x"
  using f_make_val [OF assms] by (simp_all add: f_lit_def)

lemma sqrt_round_rep:
  assumes "2 powi (- 1022) \<le> x"
  shows "rnd (sqrt_round x) = sqrt_round x" "0 < sqrt_round x"
proof -
  have x: "0 < x" using less_le_trans [OF powi_2_pos assms] .
  define h where "h = binade x div 2"
  define u :: rat where "u = 2 powi (h - 52)"
  define y where "y = x / (u * u)"
  define m where "m = isqrt \<lfloor>y\<rfloor>"
  define M where "M = (if of_int (m * m + m) + 1 / 4 < y then m + 1 else m)"
  have u: "0 < u" by (simp add: u_def)
  have uu: "u * u = 2 powi (2 * h - 104)" unfolding u_def powi_2_add [symmetric] by simp
  have "x < 2 powi (binade x + 1)" using binade_bounds(2) [of x] x by simp
  also have "\<dots> \<le> 2 powi (2 * h + 2)" by (rule powi_2_mono) (simp add: h_def)
  also have "\<dots> = 2 ^ 106 * (u * u)" unfolding uu using powi_2_grid [of "2 * h - 104" "2 * h + 2"] by simp
  finally have y: "0 \<le> y" "y < 2 ^ 106" using u x by (simp_all add: y_def pos_divide_less_eq)
  then have m: "0 \<le> m" "m * m \<le> \<lfloor>y\<rfloor>" "\<lfloor>y\<rfloor> < 2 ^ 106" using isqrt_spec [of "\<lfloor>y\<rfloor>"] by (simp_all add: m_def floor_less_iff)
  have "m < 2 ^ 53"
  proof (rule ccontr)
    assume "\<not> m < 2 ^ 53"
    then have "2 ^ 53 * 2 ^ 53 \<le> m * m" by (intro mult_mono) simp_all
    then show False using le_less_trans [OF m(2,3)] by simp
  qed
  then have M: "\<bar>M\<bar> \<le> 2 ^ 53" using m(1) by (simp add: M_def)
  have "(2 :: rat) powi (- 1022) < 2 powi (binade x + 1)" using le_less_trans [OF assms] binade_bounds(2) [of x] x by simp
  then have "- 1022 < binade x + 1" by (simp only: powi_2_less_iff)
  then have k: "- 1074 \<le> h - 52" by (simp add: h_def)
  have s: "sqrt_round x = of_int M * 2 powi (h - 52)"
    by (simp add: sqrt_round_def Let_def u_def [symmetric] h_def [symmetric] y_def [symmetric] m_def [symmetric] M_def)
  show "rnd (sqrt_round x) = sqrt_round x" unfolding s by (rule rnd_exact [OF M k])
  have "0 \<le> sqrt_round x" using m(1) by (simp add: s M_def less_imp_le)
  moreover have "sqrt_round x \<noteq> 0" using sqrt_round_near [OF x] by (auto simp: near_def)
  ultimately show "0 < sqrt_round x" by simp
qed

end
