(* ===== verification/Rates.thy ===== *)
theory Rates
  imports FixedPoint Floats
begin

text \<open>
  The conversions between parts per million and Q16.48 rates (\<open>core/fixedpoint.go\<close>), with float64 as in
  \<open>Floats\<close>.
\<close>

definition RateFromPpmEstimate :: "float64 \<Rightarrow> RateFrac" where
  "RateFromPpmEstimate ppm =
    (let val = f_div (f_mul ppm (f_of_i64 OneQ48)) (f_lit 1000000)
     in if f_leq (f_lit 0) val then f_to_i64 (f_add val (f_lit (1 / 2))) else f_to_i64 (f_sub val (f_lit (1 / 2))))"

definition RateFromPpmLower :: "float64 \<Rightarrow> RateFrac" where
  "RateFromPpmLower ppm = f_to_i64 (f_Floor (f_div (f_mul ppm (f_of_i64 OneQ48)) (f_lit 1000000)))"

definition RateFromPpmUpper :: "float64 \<Rightarrow> RateFrac" where
  "RateFromPpmUpper ppm = f_to_i64 (f_Ceil (f_div (f_mul ppm (f_of_i64 OneQ48)) (f_lit 1000000)))"

definition PpmFromRate :: "RateFrac \<Rightarrow> float64" where
  "PpmFromRate r = f_div (f_mul (f_of_i64 r) (f_lit 1000000)) (f_of_i64 OneQ48)"

text \<open>The constants of the raw clock backends.\<close>

lemma rate_50ppm: "RateFromPpmLower (f_lit (- 50)) = - 14073748836" "RateFromPpmUpper (f_lit 50) = 14073748836"
  by code_simp+

lemma rate_200ppm: "RateFromPpmLower (f_lit (- 200)) = - 56294995343" "RateFromPpmUpper (f_lit 200) = 56294995343"
  by code_simp+

lemma f_constants: "f_of_i64 OneQ48 = Fin (2 ^ 48)" "f_lit 1000000 = Fin 1000000" "f_lit 0 = Fin 0" "f_lit (1 / 2) = Fin (1 / 2)"
  by code_simp+

text \<open>A quotient that is not an integer \<open>n\<close> is at least a millionth of its grid away from \<open>n\<close>.\<close>

lemma ppm_quotient_far:
  assumes c: "c \<le> - 43" "p = of_int m * 2 powi c" and x: "x = p * 2 ^ 48 / 10 ^ 6" "of_int n \<noteq> x"
  shows "2 powi (c + 42) / 15625 \<le> \<bar>x - of_int n :: rat\<bar>"
proof -
  define g where "g = (2 :: rat) powi (c + 42)"
  have g0: "0 < g" by (simp add: g_def)
  define j where "j = m - 15625 * n * 2 ^ nat (- (c + 42))"
  have one: "1 = of_int (2 ^ nat (- (c + 42))) * g" using powi_2_grid [of "c + 42" 0] c by (simp add: g_def)
  have "15625 * (x - of_int n) = of_int m * (2 powi c * 2 powi 42) - 15625 * of_int n * 1"
    by (simp add: x(1) c(2))
  also have "\<dots> = of_int j * g" unfolding powi_2_add [symmetric] g_def [symmetric] by (subst one) (simp add: j_def left_diff_distrib)
  finally have d: "15625 * (x - of_int n) = of_int j * g" .
  then have "j \<noteq> 0" using x(2) by auto
  then have "1 \<le> \<bar>j\<bar>" by simp
  then have "(1 :: rat) \<le> of_int \<bar>j\<bar>" by (simp only: of_int_le_iff [of 1, symmetric, where ?'a = rat] of_int_1)
  then have "1 * g \<le> of_int \<bar>j\<bar> * g" using g0 by (intro mult_right_mono) simp_all
  also have "\<dots> = \<bar>of_int j * g\<bar>" using g0 by (simp add: abs_mult)
  also have "\<dots> = 15625 * \<bar>x - of_int n\<bar>" unfolding d [symmetric] abs_mult by simp
  finally show ?thesis by (simp add: g_def)
qed

text \<open>Below 1024 ppm that is more than the rounding error of the quotient.\<close>

lemma ppm_quotient_ulp:
  assumes p: "p \<noteq> 0" and c: "- 1074 \<le> c" "binade p - 52 \<le> c" and x: "x = p * 2 ^ 48 / 10 ^ 6"
  shows "ulp x / 2 < 2 powi (c + 42) / 15625"
proof -
  have xb: "\<bar>x\<bar> < 2 powi (binade p + 43) / 15625"
  proof -
    have "\<bar>x\<bar> = \<bar>p\<bar> * 2 powi 42 / 15625" by (simp add: x abs_mult power_int_def)
    also have "\<dots> < 2 powi (binade p + 1) * 2 powi 42 / 15625"
      using binade_bounds(2) [OF p] by (intro divide_strict_right_mono mult_strict_right_mono) simp_all
    also have "2 powi (binade p + 1) * 2 powi 42 = (2 :: rat) powi (binade p + 43)" unfolding powi_2_add [symmetric] by (simp add: add.commute)
    finally show ?thesis .
  qed
  have x0: "x \<noteq> 0" using p by (simp add: x)
  have "2 powi (max (binade x - 53) (- 1075) + 1) = ulp x" by (simp add: ulp_def max_add_distrib_left)
  then have h: "ulp x / 2 = 2 powi (max (binade x - 53) (- 1075))" by (simp add: powi_2_add)
  have "2 powi (binade x - 53) < (2 :: rat) powi (c + 42) / 15625"
  proof -
    have "2 powi (binade x) * 2 powi (- 53) < 2 powi (binade p + 43) / 15625 * (2 :: rat) powi (- 53)"
      using binade_bounds(1) [OF x0] xb by (intro mult_strict_right_mono) simp_all
    also have "\<dots> = (2 powi (binade p + 43) * 2 powi (- 53)) / 15625" by simp
    also have "\<dots> = 2 powi (binade p - 10) / 15625" unfolding powi_2_add [symmetric] by simp
    also have "\<dots> \<le> 2 powi (c + 42) / 15625" by (intro divide_right_mono powi_2_mono) (use c(2) in simp_all)
    finally show ?thesis unfolding powi_2_add [symmetric] by simp
  qed
  moreover have "2 powi (- 1075) < (2 :: rat) powi (c + 42) / 15625"
  proof -
    have "(2 :: rat) powi (- 1075) * 15625 < 2 powi (- 1075) * 2 powi 14" by (intro mult_strict_left_mono) simp_all
    also have "\<dots> = 2 powi (- 1061)" by (simp add: powi_2_add [symmetric])
    also have "\<dots> \<le> 2 powi (c + 42)" by (rule powi_2_mono) (use c(1) in simp)
    finally show ?thesis by simp
  qed
  ultimately show ?thesis by (simp add: h max_def)
qed

lemma ppm_quotient_rounding:
  assumes p: "rnd p = p" "\<bar>p\<bar> < 2 ^ 10" and x: "x = p * 2 ^ 48 / 10 ^ 6" "of_int n \<noteq> x"
  shows "\<bar>rnd x - x\<bar> < \<bar>x - of_int n\<bar>"
proof (cases "p = 0")
  case True
  then show ?thesis using x by simp
next
  case p0: False
  define c where "c = max (binade p - 52) (- 1074)"
  have bp: "binade p < 10" by (rule binade_small) (use p p0 in simp_all)
  then have c: "c \<le> - 43" "- 1074 \<le> c" "binade p - 52 \<le> c" by (simp_all add: c_def)
  obtain m where m: "p = of_int m * 2 powi c" by (rule representable_grid [OF p(1)]) (simp add: ulp_def c_def)
  show ?thesis
    using rnd_error [of x] ppm_quotient_far [OF c(1) m x] ppm_quotient_ulp [OF p0 c(2,3) x(1)] by linarith
qed

lemma ppm_value:
  assumes "f_finite ppm" "rnd (f_val ppm) = f_val ppm" "\<bar>f_val ppm\<bar> < 2 ^ 10"
  shows "f_finite (f_div (f_mul ppm (f_of_i64 OneQ48)) (f_lit 1000000))"
    "f_val (f_div (f_mul ppm (f_of_i64 OneQ48)) (f_lit 1000000)) = rnd (f_val ppm * 2 ^ 48 / 10 ^ 6)"
proof -
  define p where "p = f_val ppm"
  have big: "(2 :: rat) ^ 58 \<le> 2 powi 1023"
    using powi_2_mono [of 58 1023] by (simp add: power_int_def)
  have pb: "\<bar>p\<bar> < 2 ^ 10" using assms(3) by (simp add: p_def)
  then have b: "\<bar>p * 2 ^ 48\<bar> < 2 ^ 58" by (simp add: abs_mult)
  have "f_finite (f_mul ppm (Fin (2 ^ 48))) \<and> f_val (f_mul ppm (Fin (2 ^ 48))) = rnd (p * 2 ^ 48)"
    using f_mul_val [OF assms(1), of "Fin (2 ^ 48)"] b big by (simp add: p_def [symmetric])
  moreover have "rnd (p * 2 ^ 48) = p * 2 ^ 48" by (rule rnd_scaled) (use assms(2) in \<open>simp add: p_def\<close>)
  ultimately have mul: "f_finite (f_mul ppm (Fin (2 ^ 48)))" "f_val (f_mul ppm (Fin (2 ^ 48))) = p * 2 ^ 48" by simp_all
  have "\<bar>p * 2 ^ 48 / 10 ^ 6\<bar> \<le> 2 powi 1023" using b big by (simp add: abs_mult)
  then show "f_finite (f_div (f_mul ppm (f_of_i64 OneQ48)) (f_lit 1000000))"
    "f_val (f_div (f_mul ppm (f_of_i64 OneQ48)) (f_lit 1000000)) = rnd (f_val ppm * 2 ^ 48 / 10 ^ 6)"
    using f_div_val [OF mul(1), of "Fin 1000000"] mul(2) by (simp_all add: f_constants p_def [symmetric])
qed

text \<open>C39: (\<open>RateFromPpmLower\<close>, \<open>RateFromPpmUpper\<close>) Although the division rounds to nearest before it is rounded down or up,
  below 1024 ppm the lower and the upper rate are the exact floor and ceiling of the rational quotient. (From 3906 ppm on
  they are not, \<open>RateFromPpm_not_directed\<close>.)\<close>
theorem RateFromPpm_directed:
  assumes "f_finite ppm" "rnd (f_val ppm) = f_val ppm" "\<bar>f_val ppm\<bar> < 2 ^ 10"
  shows "sint (RateFromPpmLower ppm) = \<lfloor>f_val ppm * 2 ^ 48 / 10 ^ 6\<rfloor> \<and>
    sint (RateFromPpmUpper ppm) = \<lceil>f_val ppm * 2 ^ 48 / 10 ^ 6\<rceil>"
proof -
  define x where "x = f_val ppm * 2 ^ 48 / 10 ^ 6"
  have xb: "\<bar>x\<bar> < 2 ^ 53" using assms(3) by (simp add: x_def abs_mult)
  have fl: "\<lfloor>rnd x\<rfloor> = \<lfloor>x\<rfloor> \<and> \<lceil>rnd x\<rceil> = \<lceil>x\<rceil>"
    by (rule floor_rnd) (use xb ppm_quotient_rounding [OF assms(2,3) x_def] in simp_all)
  have r: "in_i64 \<lfloor>x\<rfloor>" "in_i64 \<lceil>x\<rceil>" using xb by (simp_all add: in_i64_def) linarith+
  note q = ppm_value [OF assms, folded x_def]
  have "sint (RateFromPpmLower ppm) = \<lfloor>x\<rfloor>" "sint (RateFromPpmUpper ppm) = \<lceil>x\<rceil>"
    using f_Floor_val [OF q(1)] f_Ceil_val [OF q(1)] fl r
    by (simp_all add: RateFromPpmLower_def RateFromPpmUpper_def f_to_i64_val q(2))
  then show ?thesis by (simp only: x_def)
qed

lemma RateFromPpm_directed_witness:
  "sint (RateFromPpmLower (Fin (- 200))) = - 56294995343 \<and> sint (RateFromPpmUpper (Fin (- 200))) = - 56294995342"
proof -
  have "rnd (- 200) = - 200" using rnd_of_int [of "- 200"] by simp
  moreover have "\<lfloor>(- 200) * 2 ^ 48 / 10 ^ 6 :: rat\<rfloor> = - 56294995343" "\<lceil>(- 200) * 2 ^ 48 / 10 ^ 6 :: rat\<rceil> = - 56294995342"
    by (rule floor_unique ceiling_unique; simp)+
  ultimately show ?thesis using RateFromPpm_directed [of "Fin (- 200)"] by simp
qed

lemma RateFromPpm_not_directed:
  "\<exists>p. rnd p = p \<and> p * 2 ^ 48 / 10 ^ 6 < of_int (sint (RateFromPpmLower (Fin p)))"
proof (intro exI conjI)
  show "rnd (67108864003479 / 17179869184) = 67108864003479 / 17179869184" by code_simp
  have "RateFromPpmLower (Fin (67108864003479 / 17179869184)) = 1099511627833" by code_simp
  then show "(67108864003479 / 17179869184) * 2 ^ 48 / 10 ^ 6 < (of_int (sint (RateFromPpmLower (Fin (67108864003479 / 17179869184)))) :: rat)"
    by simp
qed

end
