(* ===== verification/SmearError.thy ===== *)
theory SmearError
  imports Rates
begin

text \<open>
  The rounding errors of a smear plan, on rational numbers: the bias at the end of a triangular and of a
  trapezoidal plan is the displacement up to eleven relative roundings.
\<close>

text \<open>A sum of which a part is taken away again.\<close>

lemma near_cancel:
  assumes "near 2 (c + S) X" "0 \<le> c" "c \<le> S" "0 < S"
  shows "near 5 S (X - c)"
proof -
  have X: "c + S \<le> X * fq ^ 2" "X \<le> (c + S) * fq ^ 2" using assms(1) by (simp_all add: near_def)
  have q: "2 * fq ^ 2 - 1 \<le> fq ^ 5" "1 \<le> (2 - fq ^ 2) * fq ^ 3" "0 \<le> fq ^ 2 - 1" by (simp_all add: fq_def power_divide)
  have cS: "c * (fq ^ 2 - 1) \<le> S * (fq ^ 2 - 1)" using assms(3) q(3) by (rule mult_right_mono)
  have "X - c \<le> S * (2 * fq ^ 2 - 1)" using X(2) cS by (simp add: algebra_simps)
  also have "\<dots> \<le> S * fq ^ 5" using q(1) assms(4) by (intro mult_left_mono) simp_all
  finally have up: "X - c \<le> S * fq ^ 5" .
  have lo: "S * (2 - fq ^ 2) \<le> (X - c) * fq ^ 2" using X(1) cS by (simp add: algebra_simps)
  have "S * 1 \<le> S * ((2 - fq ^ 2) * fq ^ 3)" using q(2) assms(4) by (intro mult_left_mono) simp_all
  also have "\<dots> \<le> ((X - c) * fq ^ 2) * fq ^ 3"
    using mult_right_mono [OF lo, of "fq ^ 3"] by (simp add: mult.assoc)
  also have "\<dots> = (X - c) * fq ^ 5" by (simp add: mult.assoc power_add [symmetric])
  finally have "S \<le> (X - c) * fq ^ 5" by simp
  then have "0 < (X - c) * fq ^ 5" using assms(4) by simp
  then have "0 < X - c" by (rule zero_less_mult_pos2) simp
  then show ?thesis using assms(4) up \<open>S \<le> (X - c) * fq ^ 5\<close> by (simp add: near_def)
qed

text \<open>A nanosecond count of up to 40 bits survives thirteen roundings.\<close>

lemma near_round_away:
  assumes "near 13 (of_int n) y" "n \<le> 2 ^ 40"
  shows "round_away y = n"
proof -
  have n: "0 < (of_int n :: rat)" and y: "0 < y" "of_int n \<le> y * fq ^ 13" "y \<le> of_int n * fq ^ 13"
    using assms(1) by (simp_all add: near_def)
  have nb: "(of_int n :: rat) \<le> 2 ^ 40" using assms(2) of_int_le_iff [of n "2 ^ 40", where ?'a = rat] by simp
  have q: "fq ^ 13 - 1 < 1 / 2 ^ 42" by (simp add: fq_def power_divide)
  have "of_int n * (fq ^ 13 - 1) \<le> 2 ^ 40 * (1 / 2 ^ 42)" using nb n q by (intro mult_mono) simp_all
  then have up: "y < of_int n + 1 / 2" using y(3) by (simp add: algebra_simps)
  then have "y \<le> 2 ^ 41" using nb by simp
  then have "y * (fq ^ 13 - 1) \<le> 2 ^ 41 * (1 / 2 ^ 42)" using y(1) q by (intro mult_mono) simp_all
  then have lo: "of_int n - 1 / 2 \<le> y" using y(2) by (simp add: algebra_simps)
  have "\<lfloor>y + 1 / 2\<rfloor> = n" by (rule floor_unique) (use up lo in simp_all)
  then show ?thesis using y(1) by (simp add: round_away_def)
qed

text \<open>A difference of values of float64 is a multiple of the smaller distance.\<close>

lemma representable_multiple:
  assumes "rnd x = x" "2 powi e \<le> x" "- 1022 \<le> e"
  shows "\<exists>n. x = of_int n * 2 powi (e - 52)"
proof -
  have x: "x \<noteq> 0" using assms(2) powi_2_pos [of e] by (metis not_le)
  obtain m where m: "x = of_int m * ulp x" by (rule representable_grid [OF assms(1)])
  have "e \<le> binade x"
  proof -
    have "(2 :: rat) powi e < 2 powi (binade x + 1)" using le_less_trans [OF assms(2)] binade_bounds(2) [OF x] assms(2)
      by (smt (verit) abs_of_pos powi_2_pos less_le_trans)
    then show ?thesis by simp
  qed
  then have "e - 52 \<le> max (binade x - 52) (- 1074)" by simp
  from powi_2_grid [OF this] have "ulp x = of_int (2 ^ nat (max (binade x - 52) (- 1074) - (e - 52))) * 2 powi (e - 52)"
    by (simp add: ulp_def)
  then have "x = of_int (m * 2 ^ nat (max (binade x - 52) (- 1074) - (e - 52))) * 2 powi (e - 52)"
    using m by (simp add: mult.assoc)
  then show ?thesis by blast
qed

lemma representable_difference:
  assumes "rnd x = x" "rnd y = y" "2 powi e \<le> x" "x < y" "- 1022 \<le> e"
  shows "2 powi (e - 52) \<le> y - x"
proof -
  obtain m n where mn: "x = of_int m * 2 powi (e - 52)" "y = of_int n * 2 powi (e - 52)"
    using representable_multiple [OF assms(1,3,5)] representable_multiple [OF assms(2) _ assms(5)] assms(3,4) by fastforce
  then have "(of_int m :: rat) < of_int n" using assms(4) powi_2_pos [of "e - 52"] by (simp add: mult_less_cancel_right_pos)
  then have "m < n" by (simp only: of_int_less_iff)
  then have "m + 1 \<le> n" by simp
  then have "(of_int (m + 1) :: rat) \<le> of_int n" by (simp only: of_int_le_iff)
  then have "of_int (m + 1) * 2 powi (e - 52) \<le> of_int n * (2 :: rat) powi (e - 52)" by (intro mult_right_mono) (simp_all add: less_imp_le)
  then show ?thesis by (simp add: mn algebra_simps)
qed

text \<open>Lower bounds by powers of two, which rounding respects.\<close>

lemma powi_le_mult:
  assumes "2 powi e \<le> (x :: rat)" "2 powi f \<le> y"
  shows "2 powi (e + f) \<le> x * y"
proof -
  have "(2 :: rat) powi e * 2 powi f \<le> x * y"
    using assms less_le_trans [OF powi_2_pos assms(1)] by (intro mult_mono) (simp_all add: less_imp_le)
  then show ?thesis by (simp add: powi_2_add)
qed

lemma powi_le_divide:
  assumes "2 powi e \<le> (x :: rat)" "0 < y" "y \<le> 2 powi f"
  shows "2 powi (e - f) \<le> x / y"
proof -
  have "(2 :: rat) powi (e - f) * y \<le> 2 powi (e - f) * 2 powi f" using assms(3) by (intro mult_left_mono) (simp_all add: less_imp_le)
  also have "\<dots> = 2 powi e" unfolding powi_2_add [symmetric] by simp
  finally show ?thesis using assms(1,2) by (simp add: pos_le_divide_eq)
qed

lemma near_rnd_trans: "near k x y \<Longrightarrow> 2 powi e \<le> y \<Longrightarrow> - 1022 \<le> e \<Longrightarrow> near (k + 1) x (rnd y)"
  using near_trans [OF _ near_rnd] powi_2_mono [of "- 1022" e] by (meson order_trans)

text \<open>The bias of a ramp and what a segment adds to it.\<close>

definition ramp_bias :: "rat \<Rightarrow> rat \<Rightarrow> rat" where
  "ramp_bias W t = rnd (rnd (rnd (1 / 2 * W) * t) * t)"

lemma ramp_bias_le:
  assumes "0 < W" "rnd W = W" "0 < t"
  shows "0 \<le> ramp_bias W t \<and> ramp_bias W t \<le> rnd (rnd (W * t) * t)"
proof -
  have "rnd (1 / 2 * W) \<le> W" using rnd_mono [of "1 / 2 * W" W] assms by simp
  then have le: "rnd (rnd (1 / 2 * W) * t) \<le> rnd (W * t)" using assms(3) by (intro rnd_mono mult_right_mono) simp_all
  have "0 \<le> rnd (rnd (1 / 2 * W) * t)" using assms by (intro rnd_nonneg mult_nonneg_nonneg) simp_all
  then have "0 \<le> ramp_bias W t" unfolding ramp_bias_def by (rule rnd_nonneg [OF mult_nonneg_nonneg]) (use assms(3) in simp_all)
  moreover have "ramp_bias W t \<le> rnd (rnd (W * t) * t)"
    unfolding ramp_bias_def by (rule rnd_mono [OF mult_right_mono [OF le]]) (use assms(3) in simp)
  ultimately show ?thesis ..
qed

lemma end_bias_near:
  assumes "near k \<delta> S" "near 2 (c + S) X" "0 \<le> c" "c \<le> S" "2 powi e \<le> S" "- 1000 \<le> e"
  shows "near (k + 6) \<delta> (rnd (X - c))"
proof -
  have S: "0 < S" using less_le_trans [OF powi_2_pos assms(5)] .
  have n: "near 5 S (X - c)" by (rule near_cancel [OF assms(2-4) S])
  have "2 powi (e - 1) \<le> X - c"
  proof -
    have q: "fq ^ 5 \<le> 2" by (simp add: fq_def power_divide)
    have "S \<le> (X - c) * fq ^ 5" using n by (simp add: near_def)
    also have "\<dots> \<le> (X - c) * 2" using n q by (intro mult_left_mono) (simp_all add: near_def)
    finally have "2 powi e \<le> (X - c) * 2" using assms(5) by simp
    moreover have "(2 :: rat) powi e = 2 powi (e - 1) * 2" using powi_2_add [of "e - 1" 1] by simp
    ultimately show ?thesis by simp
  qed
  then have "near (5 + 1) S (rnd (X - c))" by (rule near_rnd_trans [OF n]) (use assms(6) in simp)
  from near_trans [OF assms(1) this] show ?thesis by (simp add: ac_simps)
qed

lemma triangular_error:
  assumes W: "rnd W = W" "2 powi (- 30) \<le> W" "W \<le> 2 powi (- 3)"
    and \<delta>: "2 powi (- 30) \<le> \<delta>" and t: "0 < t" "near 2 (rnd (\<delta> / W)) (t * t)"
  shows "near 11 \<delta> (rnd (rnd (ramp_bias W t + rnd (rnd (W * t) * t)) - ramp_bias W t))"
proof -
  define c B where "c = ramp_bias W t" and "B = rnd (rnd (W * t) * t)"
  have W0: "0 < W" using less_le_trans [OF powi_2_pos W(2)] .
  have c: "0 \<le> c" "c \<le> B" using ramp_bias_le [OF W0 W(1) t(1)] by (simp_all add: c_def B_def)
  have d: "2 powi (- 27) \<le> \<delta> / W" using powi_le_divide [OF \<delta> W0 W(3)] by simp
  have d0: "0 < \<delta>" using less_le_trans [OF powi_2_pos \<delta>] .
  have "near 1 (\<delta> / W) (rnd (\<delta> / W))" using near_rnd_trans [OF near_refl d, of 0] d0 W0 by simp
  then have tt: "near 3 (\<delta> / W) (t * t)" by (rule near_mono [OF near_trans [OF _ t(2)]]) simp
  have t_lo: "2 powi (- 15) \<le> t"
  proof (rule ccontr)
    assume "\<not> 2 powi (- 15) \<le> t"
    then have "t * t \<le> 1 / 2 ^ 15 * (1 / 2 ^ 15)" using t(1) by (intro mult_mono) (simp_all add: power_int_def power_one_over)
    moreover have "\<delta> / W \<le> t * t * fq ^ 3" using tt by (simp add: near_def)
    moreover have "t * t * fq ^ 3 \<le> t * t * 2" by (intro mult_left_mono) (simp_all add: fq_def power_divide)
    ultimately show False using d by (simp add: power_int_def power_one_over)
  qed
  have v: "near 1 (W * t) (rnd (W * t))" "2 powi (- 45) \<le> W * t"
    using near_rnd_trans [OF near_refl powi_le_mult [OF W(2) t_lo], of 0] powi_le_mult [OF W(2) t_lo] W0 t(1) by simp_all
  have "near (1 + 0) (W * t * t) (rnd (W * t) * t)" by (rule near_mult [OF v(1) near_refl [OF t(1)]])
  moreover have "near (0 + 3) (W * (\<delta> / W)) (W * (t * t))" by (rule near_mult [OF near_refl [OF W0] tt])
  ultimately have "near 4 \<delta> (rnd (W * t) * t)"
    using near_mono [OF near_trans [of 3 \<delta> "W * (t * t)" 1 "rnd (W * t) * t"], of 4] W0 by (simp add: mult.assoc)
  moreover have lo: "2 powi (- 60) \<le> rnd (W * t) * t"
    using powi_le_mult [OF rnd_ge_powi [OF v(2)] t_lo] by simp
  ultimately have B: "near 5 \<delta> B" "2 powi (- 60) \<le> B"
    using near_rnd_trans [of 4 \<delta> "rnd (W * t) * t" "- 60"] rnd_ge_powi [OF lo] by (simp_all add: B_def)
  have "2 powi (- 60) \<le> c + B" using B(2) c(1) by simp
  then have "near 1 (c + B) (rnd (c + B))" using near_rnd_trans [OF near_refl, of "c + B" "- 60" 0] less_le_trans [OF powi_2_pos] by simp
  then have "near 2 (c + B) (rnd (c + B))" by (rule near_mono) simp
  from end_bias_near [OF B(1) this c B(2)] show ?thesis by (simp add: c_def B_def)
qed

lemma near_mult_rnd:
  assumes "near k x y" "near l x' y'" "2 powi e \<le> y * y'" "- 1022 \<le> e"
  shows "near (k + l + 1) (x * x') (rnd (y * y'))"
  by (rule near_rnd_trans [OF near_mult [OF assms(1,2)] assms(3,4)])

lemma near_divide_rnd:
  assumes "near k x y" "near l x' y'" "2 powi e \<le> y / y'" "- 1022 \<le> e"
  shows "near (k + l + 1) (x / x') (rnd (y / y'))"
  by (rule near_rnd_trans [OF near_divide [OF assms(1,2)] assms(3,4)])

lemma trapezoid_error:
  assumes W: "rnd W = W" "2 powi (- 30) \<le> W" "W \<le> 2 powi (- 3)" and R: "2 powi (- 20) \<le> R" "R \<le> 2 powi (- 3)"
    and \<delta>: "rnd \<delta> = \<delta>" "rnd (R * rnd (R / W)) < \<delta>"
  defines "\<rho> \<equiv> rnd (R / W)"
  defines "\<phi> \<equiv> rnd (rnd (\<delta> - rnd (R * \<rho>)) / R)"
  shows "near 11 \<delta> (rnd (rnd (rnd (ramp_bias W \<rho> + rnd (rnd (W * \<rho>) * \<phi>)) + rnd (rnd (W * \<rho>) * \<rho>)) - ramp_bias W \<rho>))"
proof -
  define v \<alpha> c A B where "v = rnd (W * \<rho>)" and "\<alpha> = rnd (R * \<rho>)" and "c = ramp_bias W \<rho>" and "A = rnd (v * \<phi>)"
    and "B = rnd (v * \<rho>)"
  have pos: "0 < W" "0 < R" using less_le_trans [OF powi_2_pos W(2)] less_le_trans [OF powi_2_pos R(1)] .
  have l\<rho>: "2 powi (- 17) \<le> R / W" using powi_le_divide [OF R(1) pos(1) W(3)] by simp
  then have \<rho>: "near 1 (R / W) \<rho>" "2 powi (- 17) \<le> \<rho>" "0 < \<rho>"
    using near_rnd_trans [OF near_refl l\<rho>, of 0] rnd_ge_powi [OF l\<rho>] less_le_trans [OF powi_2_pos l\<rho>] by (simp_all add: \<rho>_def near_def)
  have l\<alpha>: "2 powi (- 37) \<le> R * \<rho>" using powi_le_mult [OF R(1) \<rho>(2)] by simp
  then have \<alpha>: "near 1 (R * \<rho>) \<alpha>" "2 powi (- 37) \<le> \<alpha>"
    using near_rnd_trans [OF near_refl l\<alpha>, of 0] rnd_ge_powi [OF l\<alpha>] pos \<rho>(3) by (simp_all add: \<alpha>_def)
  have l\<phi>: "2 powi (- 89) \<le> \<delta> - \<alpha>"
    using representable_difference [OF _ \<delta>(1) \<alpha>(2)] \<delta>(2) by (simp add: \<alpha>_def \<rho>_def)
  then have d: "0 < \<delta> - \<alpha>" "near 1 (\<delta> - \<alpha>) (rnd (\<delta> - \<alpha>))" "2 powi (- 89) \<le> rnd (\<delta> - \<alpha>)"
    using near_rnd_trans [OF near_refl l\<phi>, of 0] rnd_ge_powi [OF l\<phi>] less_le_trans [OF powi_2_pos l\<phi>] by simp_all
  have l: "2 powi (- 86) \<le> rnd (\<delta> - \<alpha>) / R" using powi_le_divide [OF d(3) pos(2) R(2)] by simp
  have "near (1 + 0 + 1) ((\<delta> - \<alpha>) / R) \<phi>"
    unfolding \<phi>_def \<alpha>_def [symmetric] by (rule near_divide_rnd [OF d(2) near_refl [OF pos(2)] l]) simp
  moreover have l\<phi>': "2 powi (- 86) \<le> \<phi>" unfolding \<phi>_def \<alpha>_def [symmetric] by (rule rnd_ge_powi [OF l]) simp
  ultimately have \<phi>: "near 2 ((\<delta> - \<alpha>) / R) \<phi>" by (elim near_mono) simp
  have lv: "2 powi (- 47) \<le> W * \<rho>" using powi_le_mult [OF W(2) \<rho>(2)] by simp
  have "near (0 + 1 + 1) (W * (R / W)) v" unfolding v_def by (rule near_mult_rnd [OF near_refl [OF pos(1)] \<rho>(1) lv]) simp
  then have "near (0 + 1 + 1) R v" using pos(1) by simp
  then have v: "near 2 R v" by (rule near_mono) simp
  have v_lo: "2 powi (- 47) \<le> v" unfolding v_def by (rule rnd_ge_powi [OF lv]) simp
  have "near (2 + 2 + 1) (R * ((\<delta> - \<alpha>) / R)) A" unfolding A_def by (rule near_mult_rnd [OF v \<phi> powi_le_mult [OF v_lo l\<phi>']]) simp
  then have "near (2 + 2 + 1) (\<delta> - \<alpha>) A" using pos(2) by simp
  then have A: "near 5 (\<delta> - \<alpha>) A" by (rule near_mono) simp
  have lA: "2 powi (- 133) \<le> A" unfolding A_def using powi_le_mult [OF v_lo l\<phi>'] by (intro rnd_ge_powi) simp_all
  have lB: "2 powi (- 64) \<le> v * \<rho>" using powi_le_mult [OF v_lo \<rho>(2)] by simp
  have "near (2 + 0 + 1) (R * \<rho>) B" unfolding B_def by (rule near_mult_rnd [OF v near_refl [OF \<rho>(3)] lB]) simp
  then have "near (1 + (2 + 0 + 1)) \<alpha> B" by (rule near_trans [OF near_sym [OF \<alpha>(1)]])
  then have "near 5 \<alpha> B" by (rule near_mono) simp
  moreover have lB': "2 powi (- 64) \<le> B" unfolding B_def by (rule rnd_ge_powi [OF lB]) simp
  ultimately have S: "near 5 \<delta> (A + B)" "2 powi (- 64) \<le> A + B"
    using near_add [OF A, of \<alpha> B] A by (simp_all add: near_def)
  have c: "0 \<le> c" "c \<le> A + B"
    using ramp_bias_le [OF pos(1) W(1) \<rho>(3)] A by (simp_all add: c_def B_def v_def near_def)
  have "2 powi (- 133) \<le> c + A" using lA c(1) by simp
  then have n: "near 1 (c + A) (rnd (c + A))" "0 < rnd (c + A)"
    using near_rnd [of "c + A"] powi_2_mono [of "- 1022" "- 133"] by (auto simp: near_def)
  have "near 1 (c + A + B) (rnd (c + A) + B)"
    by (rule near_add [OF n(1) near_refl]) (use lB' less_le_trans [OF powi_2_pos] in \<open>simp_all\<close>)
  moreover have "2 powi (- 64) \<le> rnd (c + A) + B" using lB' n(2) by simp
  ultimately have "near (1 + 1) (c + A + B) (rnd (rnd (c + A) + B))" by (rule near_rnd_trans) simp
  then have X: "near 2 (c + (A + B)) (rnd (rnd (c + A) + B))" by (simp add: ac_simps flip: numeral_2_eq_2)
  from end_bias_near [OF S(1) X c S(2)] have "near (5 + 6) \<delta> (rnd (rnd (rnd (c + A) + B) - c))" by simp
  then show ?thesis by (simp add: c_def A_def B_def v_def)
qed

end
