(* ===== verification/Smear.thy ===== *)
theory Smear
  imports CoreTypes SmearError
begin

text \<open>
  The smear plans of the public clock (\<open>clock/public.go\<close>): their evaluation at a raw instant, and the
  planner with its braking, triangular and trapezoidal stages, all in float64.
\<close>

subsection \<open>Segments and plans\<close>

record SmearSegment =
  sg_StartRaw :: RawNanos
  sg_DurationSec :: float64
  sg_InitialRate :: float64
  sg_Wander :: float64
  sg_InitialBias :: float64

definition Segment_Evaluate :: "SmearSegment \<Rightarrow> float64 \<Rightarrow> float64 \<times> float64" where
  "Segment_Evaluate s t0 =
    (let t1 = (if f_less t0 (f_lit 0) then f_lit 0 else t0);
         t = (if f_less (sg_DurationSec s) t1 then sg_DurationSec s else t1);
         rate = f_add (sg_InitialRate s) (f_mul (sg_Wander s) t);
         bias = f_add (f_add (sg_InitialBias s) (f_mul (sg_InitialRate s) t))
                  (f_mul (f_mul (f_mul (f_lit (1 / 2)) (sg_Wander s)) t) t)
     in (rate, bias))"

record SmearPlan =
  sp_Segments :: "SmearSegment list"
  sp_TerminalBiasNs :: PhaseNs
  sp_ResidualNs :: PhaseNs

text \<open>\<open>core.RawNanos(d * 1e9)\<close>\<close>

definition raw_nanos :: "float64 \<Rightarrow> RawNanos" where
  "raw_nanos d = f_to_u64 (f_mul d (f_lit 1000000000))"

definition segment_bias :: "SmearSegment \<Rightarrow> RawNanos \<Rightarrow> PhaseNs" where
  "segment_bias seg r =
    (let t0 = f_div (f_of_i64 (r - sg_StartRaw seg)) (f_lit 1000000000);
         t = (if f_less (sg_DurationSec seg) t0 then sg_DurationSec seg else t0)
     in f_to_i64 (f_Round (f_mul (snd (Segment_Evaluate seg t)) (f_lit 1000000000))))"

fun bias_loop :: "PhaseNs \<Rightarrow> SmearSegment list \<Rightarrow> RawNanos \<Rightarrow> PhaseNs" where
  "bias_loop terminal [] r = terminal"
| "bias_loop terminal (seg # segs) r =
     (if r \<le> sg_StartRaw seg + raw_nanos (sg_DurationSec seg) \<or> segs = [] then segment_bias seg r
      else bias_loop terminal segs r)"

definition EvaluateBiasAt :: "SmearPlan \<Rightarrow> RawNanos \<Rightarrow> PhaseNs" where
  "EvaluateBiasAt sp r = (if sp_Segments sp = [] then 0 else bias_loop (sp_TerminalBiasNs sp) (sp_Segments sp) r)"

subsection \<open>The planner\<close>

definition segment :: "RawNanos \<Rightarrow> float64 \<Rightarrow> float64 \<Rightarrow> float64 \<Rightarrow> float64 \<Rightarrow> SmearSegment" where
  "segment start dur rate wander bias =
    \<lparr>sg_StartRaw = start, sg_DurationSec = dur, sg_InitialRate = rate, sg_Wander = wander, sg_InitialBias = bias\<rparr>"

text \<open>Step 1, braking: the segments, the raw instant and the bias after them.\<close>

definition brake :: "RawNanos \<Rightarrow> float64 \<Rightarrow> float64 \<Rightarrow> float64 \<Rightarrow> SmearSegment list \<times> RawNanos \<times> float64" where
  "brake startRaw b0 v0 W =
    (if f_less (f_lit (1 / 10 ^ 15)) (f_Abs v0)
     then let dur = f_div (f_Abs v0) W;
              seg = segment startRaw dur v0 (f_uminus (f_Copysign W v0)) b0
          in ([seg], startRaw + raw_nanos dur, snd (Segment_Evaluate seg dur))
     else ([], startRaw, b0))"

definition triangular :: "RawNanos \<Rightarrow> float64 \<Rightarrow> float64 \<Rightarrow> float64 \<Rightarrow> SmearSegment list" where
  "triangular start bias D W =
    (let sgn = f_Copysign (f_lit 1) D;
         t = f_Sqrt (f_div (f_Abs D) W);
         seg1 = segment start t (f_lit 0) (f_mul sgn W) bias;
         (r1, b1) = Segment_Evaluate seg1 t
     in [seg1, segment (start + raw_nanos t) t r1 (f_mul (f_uminus sgn) W) b1])"

definition trapezoidal :: "RawNanos \<Rightarrow> float64 \<Rightarrow> float64 \<Rightarrow> float64 \<Rightarrow> float64 \<Rightarrow> float64 \<Rightarrow> float64 \<Rightarrow> SmearSegment list" where
  "trapezoidal start bias D R W rampTime rampArea =
    (let sgn = f_Copysign (f_lit 1) D;
         flatTime = f_div (f_sub (f_Abs D) rampArea) R;
         seg1 = segment start rampTime (f_lit 0) (f_mul sgn W) bias;
         raw2 = start + raw_nanos rampTime;
         (r1, b1) = Segment_Evaluate seg1 rampTime;
         seg2 = segment raw2 flatTime r1 (f_lit 0) b1;
         (r2, b2) = Segment_Evaluate seg2 flatTime
     in [seg1, seg2, segment (raw2 + raw_nanos flatTime) rampTime r2 (f_mul (f_uminus sgn) W) b2])"

definition limit_or :: "float64 \<Rightarrow> float64 \<Rightarrow> float64" where
  "limit_or d x = (if f_leq x (f_lit 0) then d else x)"

definition ReplanSmearFromState ::
  "RawNanos \<Rightarrow> float64 \<Rightarrow> float64 \<Rightarrow> PhaseNs \<Rightarrow> float64 \<Rightarrow> float64 \<Rightarrow> SmearPlan" where
  "ReplanSmearFromState startRaw b0 v0 targetBiasNs maxRatePpm maxWanderPpmSec =
    (let R = limit_or (f_lit (100 / 10 ^ 6)) (f_mul maxRatePpm (f_lit (1 / 10 ^ 6)));
         W = limit_or (f_lit (10 / 10 ^ 6)) (f_mul maxWanderPpmSec (f_lit (1 / 10 ^ 6)));
         (segments, currRaw, currBias) = brake startRaw b0 v0 W;
         targetSec = f_div (f_of_i64 targetBiasNs) (f_lit 1000000000);
         D = f_sub targetSec currBias
     in if f_less (f_Abs D) (f_lit (1 / 10 ^ 12))
        then \<lparr>sp_Segments = segments, sp_TerminalBiasNs = targetBiasNs, sp_ResidualNs = 0\<rparr>
        else
          let rampTime = f_div R W; rampArea = f_mul R rampTime
          in \<lparr>sp_Segments = segments @
                (if f_leq (f_Abs D) rampArea then triangular currRaw currBias D W
                 else trapezoidal currRaw currBias D R W rampTime rampArea),
              sp_TerminalBiasNs = targetBiasNs, sp_ResidualNs = 0\<rparr>)"

definition PlanSmear :: "RawNanos \<Rightarrow> PhaseNs \<Rightarrow> float64 \<Rightarrow> float64 \<Rightarrow> SmearPlan" where
  "PlanSmear startRaw targetBiasNs maxRatePpm maxWanderPpmSec =
    ReplanSmearFromState startRaw (f_lit 0) (f_lit 0) targetBiasNs maxRatePpm maxWanderPpmSec"

subsection \<open>A segment at its end\<close>

lemma ramp_bias_minus: "ramp_bias (- W) t = - ramp_bias W t"
  by (simp add: ramp_bias_def)

lemma ramp_bias_0 [simp]: "ramp_bias 0 t = 0"
  by (simp add: ramp_bias_def)

lemma segment_simps [simp]:
  "sg_StartRaw (segment start dur rate wander bias) = start" "sg_DurationSec (segment start dur rate wander bias) = dur"
  "sg_InitialRate (segment start dur rate wander bias) = rate" "sg_Wander (segment start dur rate wander bias) = wander"
  "sg_InitialBias (segment start dur rate wander bias) = bias"
  by (simp_all add: segment_def)

lemma f_half: "f_within 0 (f_lit (1 / 2))" "f_val (f_lit (1 / 2)) = 1 / 2"
  by (simp_all add: f_constants f_within_def)

lemma Segment_Evaluate_end:
  assumes d: "f_within 40 d" "0 \<le> f_val d" and w: "f_within 0 w" and v: "f_within n v" and b: "f_within m b"
    and n: "40 \<le> n" "n + 40 \<le> m" "m < 900"
  shows "f_within (n + 1) (fst (Segment_Evaluate (segment start d v w b) d))"
    "f_val (fst (Segment_Evaluate (segment start d v w b) d)) = rnd (f_val v + rnd (f_val w * f_val d))"
    "f_within (m + 2) (snd (Segment_Evaluate (segment start d v w b) d))"
    "f_val (snd (Segment_Evaluate (segment start d v w b) d))
       = rnd (rnd (f_val b + rnd (f_val v * f_val d)) + ramp_bias (f_val w) (f_val d))"
proof -
  have fin: "f_finite d" using d(1) by (simp add: f_within_def)
  have t: "\<not> f_less d (f_lit 0)" "\<not> f_less d d" using d(2) fin by (simp_all add: f_constants f_less_val)
  have wd: "f_within 40 (f_mul w d)" "f_val (f_mul w d) = rnd (f_val w * f_val d)" using f_within_mul [OF w d(1)] by simp_all
  have rate: "f_within (n + 1) (f_add v (f_mul w d))" "f_val (f_add v (f_mul w d)) = rnd (f_val v + rnd (f_val w * f_val d))"
    using f_within_add [OF v f_within_mono [OF wd(1), of n]] n wd(2) by simp_all
  have vd: "f_within m (f_mul v d)" "f_val (f_mul v d) = rnd (f_val v * f_val d)"
    using f_within_mul [OF v d(1)] n by (auto intro: f_within_mono)
  have bv: "f_within (m + 1) (f_add b (f_mul v d))" "f_val (f_add b (f_mul v d)) = rnd (f_val b + rnd (f_val v * f_val d))"
    using f_within_add [OF b vd(1)] n vd(2) by simp_all
  have hw: "f_within 0 (f_mul (f_lit (1 / 2)) w)" "f_val (f_mul (f_lit (1 / 2)) w) = rnd (1 / 2 * f_val w)"
    using f_within_mul [OF f_half(1) w] f_half(2) by simp_all
  have h1: "f_within 40 (f_mul (f_mul (f_lit (1 / 2)) w) d)"
    "f_val (f_mul (f_mul (f_lit (1 / 2)) w) d) = rnd (rnd (1 / 2 * f_val w) * f_val d)"
    using f_within_mul [OF hw(1) d(1)] hw(2) by simp_all
  have h2: "f_within (m + 1) (f_mul (f_mul (f_mul (f_lit (1 / 2)) w) d) d)"
    "f_val (f_mul (f_mul (f_mul (f_lit (1 / 2)) w) d) d) = ramp_bias (f_val w) (f_val d)"
    using f_within_mul [OF h1(1) d(1)] h1(2) n by (auto intro: f_within_mono simp: ramp_bias_def)
  note bias = f_within_add [OF bv(1) h2(1)]
  show "f_within (n + 1) (fst (Segment_Evaluate (segment start d v w b) d))"
    "f_val (fst (Segment_Evaluate (segment start d v w b) d)) = rnd (f_val v + rnd (f_val w * f_val d))"
    using rate t by (simp_all add: Segment_Evaluate_def Let_def)
  show "f_within (m + 2) (snd (Segment_Evaluate (segment start d v w b) d))"
    "f_val (snd (Segment_Evaluate (segment start d v w b) d))
       = rnd (rnd (f_val b + rnd (f_val v * f_val d)) + ramp_bias (f_val w) (f_val d))"
    using bias n t bv(2) h2(2) by (simp_all add: Segment_Evaluate_def Let_def add.assoc)
qed

subsection \<open>After the end of a segment\<close>

lemma f_lit_1e9: "f_lit 1000000000 = Fin 1000000000"
  by code_simp

lemma rnd_le_powi: "x \<le> 2 powi e \<Longrightarrow> - 1074 \<le> e \<Longrightarrow> rnd x \<le> 2 powi e"
  using rnd_mono [of x "2 powi e"] rnd_exact [of 1 e] by simp

text \<open>The rounding error below \<open>2^61\<close>.\<close>

lemma rnd_error_61: "0 \<le> x \<Longrightarrow> x \<le> 2 ^ 61 \<Longrightarrow> \<bar>rnd x - x\<bar> \<le> 257"
proof -
  assume x: "0 \<le> x" "x \<le> 2 ^ 61"
  have "(2 :: rat) powi (- 1075) \<le> 2 powi 0" by (rule powi_2_mono) simp
  moreover have "\<bar>x\<bar> * 2 powi (- 53) \<le> 2 ^ 61 * 2 powi (- 53)" using x by (intro mult_right_mono) (simp_all add: less_imp_le)
  ultimately show ?thesis using rnd_relative [of x] by (simp add: power_int_def power_one_over)
qed

lemma raw_nanos_val:
  assumes "f_within 31 d" "0 \<le> f_val d"
  shows "uint (raw_nanos d) = \<lfloor>rnd (f_val d * 1000000000)\<rfloor>" "rnd (f_val d * 1000000000) \<le> 2 ^ 61" "0 \<le> rnd (f_val d * 1000000000)"
proof -
  define x where "x = rnd (f_val d * 1000000000)"
  have d: "f_finite d" "f_val d \<le> 2 ^ 31" using assms by (simp_all add: f_within_def power_int_def)
  have w: "f_within 30 (f_lit 1000000000)" by (simp add: f_lit_1e9 f_within_def power_int_def)
  have m: "f_finite (f_mul d (f_lit 1000000000))" "f_val (f_mul d (f_lit 1000000000)) = x"
    using f_within_mul [OF assms(1) w] by (simp_all add: f_within_def x_def f_lit_1e9)
  have "f_val d * 1000000000 \<le> 2 powi 61" using d(2) by (simp add: power_int_def)
  then have xb: "0 \<le> x" "x \<le> 2 ^ 61" using rnd_le_powi [of "f_val d * 1000000000" 61] rnd_nonneg assms(2) by (simp_all add: x_def power_int_def)
  then have t: "toward_zero x = \<lfloor>x\<rfloor>" "0 \<le> \<lfloor>x\<rfloor>" "\<lfloor>x\<rfloor> \<le> 2 ^ 61" using floor_mono [OF xb(2)] by (simp_all add: toward_zero_def)
  have "f_less (f_mul d (f_lit 1000000000)) (Fin (2 ^ 63))" using m xb(2) by (simp add: f_less_val)
  then have "raw_nanos d = f_to_i64 (f_mul d (f_lit 1000000000))" by (simp add: raw_nanos_def f_to_u64_def)
  moreover have "sint (f_to_i64 (f_mul d (f_lit 1000000000))) = \<lfloor>x\<rfloor>"
    using f_to_i64_val [OF m(1)] m(2) t by (simp add: in_i64_def)
  ultimately have "sint (raw_nanos d) = \<lfloor>x\<rfloor>" by simp
  then show "uint (raw_nanos d) = \<lfloor>rnd (f_val d * 1000000000)\<rfloor>" using t(2) using uint_eq_sint64 [of "raw_nanos d"] by (simp add: x_def)
  show "rnd (f_val d * 1000000000) \<le> 2 ^ 61" "0 \<le> rnd (f_val d * 1000000000)" using xb by (simp_all add: x_def)
qed

text \<open>A microsecond after its end the evaluation of a segment is clamped to its duration.\<close>

lemma f_equal_val: "f_finite a \<Longrightarrow> f_finite b \<Longrightarrow> f_val a = f_val b \<Longrightarrow> f_val b \<noteq> 0 \<Longrightarrow> a = b"
  by (cases a; cases b; simp)

lemma elapsed_ge_duration:
  assumes d: "0 < d" "d \<le> 2 ^ 31" "rnd d = d" and k: "\<lfloor>rnd (d * 1000000000)\<rfloor> + 1000 \<le> k" "k < 2 ^ 63"
  shows "d \<le> rnd (rnd (of_int k) / 1000000000)" "rnd (of_int k) \<le> 2 ^ 63"
proof -
  define x where "x = rnd (d * 1000000000)"
  have d9: "d * 1000000000 \<le> 2 ^ 31 * 1000000000" using d(2) by simp
  then have x: "\<bar>x - d * 1000000000\<bar> \<le> 257" using rnd_error_61 [of "d * 1000000000"] d(1) by (simp add: x_def)
  have k0: "0 \<le> rnd (d * 1000000000)" using d(1) by (intro rnd_nonneg) simp
  then have "0 \<le> \<lfloor>x\<rfloor>" by (simp add: x_def)
  have "(of_int (\<lfloor>x\<rfloor> + 1000) :: rat) \<le> of_int k" using k(1) by (simp only: of_int_le_iff x_def)
  then have kx: "x + 999 \<le> of_int k" by simp linarith
  have "d * 1000000000 \<le> rnd (of_int k)"
  proof (cases "(of_int k :: rat) \<le> 2 ^ 61")
    case True
    then have "\<bar>rnd (of_int k) - of_int k\<bar> \<le> 257" using rnd_error_61 [of "of_int k"] kx k0 by (simp add: x_def)
    then show ?thesis using kx x by linarith
  next
    case False
    then have "(2 :: rat) powi 61 \<le> of_int k" by (simp add: power_int_def)
    then have "2 powi 61 \<le> rnd (of_int k)" by (rule rnd_ge_powi) simp
    then show ?thesis using d9 by (simp add: power_int_def)
  qed
  then have "rnd d \<le> rnd (rnd (of_int k) / 1000000000)" by (intro rnd_mono) (simp add: pos_le_divide_eq)
  then show "d \<le> rnd (rnd (of_int k) / 1000000000)" using d(3) by simp
  have "(of_int k :: rat) \<le> of_int (2 ^ 63)" using k(2) by (simp only: of_int_le_iff less_imp_le)
  then show "rnd (of_int k) \<le> 2 ^ 63" using rnd_le_powi [of "of_int k" 63] by (simp add: power_int_def)
qed

lemma segment_bias_end:
  assumes d: "f_within 31 (sg_DurationSec seg)" "0 < f_val (sg_DurationSec seg)" "rnd (f_val (sg_DurationSec seg)) = f_val (sg_DurationSec seg)"
    and r: "uint (sg_StartRaw seg) + uint (raw_nanos (sg_DurationSec seg)) + 1000 \<le> uint r" "uint r < 2 ^ 63"
  shows "segment_bias seg r =
    f_to_i64 (f_Round (f_mul (snd (Segment_Evaluate seg (sg_DurationSec seg))) (f_lit 1000000000)))"
proof -
  define dur where "dur = sg_DurationSec seg"
  define k where "k = uint r - uint (sg_StartRaw seg)"
  have "sg_StartRaw seg \<le> r" using r(1) uint_ge_0 [of "raw_nanos (sg_DurationSec seg)"] unfolding word_le_def by linarith
  then have "uint (r - sg_StartRaw seg) = k" by (simp add: k_def uint_sub_exact)
  moreover have kb: "k < 2 ^ 63" using r(2) uint_ge_0 [of "sg_StartRaw seg"] unfolding k_def by linarith
  ultimately have k: "sint (r - sg_StartRaw seg) = k" by (subst sint_eq_uint64) simp_all
  have "\<lfloor>rnd (f_val dur * 1000000000)\<rfloor> + 1000 \<le> k" "k < 2 ^ 63"
    using r kb raw_nanos_val(1) [of dur] d by (simp_all add: k_def dur_def)
  moreover have "f_val dur \<le> 2 ^ 31" using d(1) abs_ge_self [of "f_val dur"] by (simp add: f_within_def dur_def power_int_def)
  ultimately have el: "f_val dur \<le> rnd (rnd (of_int k) / 1000000000)" "rnd (of_int k) \<le> 2 ^ 63"
    using elapsed_ge_duration [of "f_val dur" k] d by (simp_all add: dur_def)
  have "0 \<le> k" using \<open>sg_StartRaw seg \<le> r\<close> by (simp add: k_def word_le_def)
  then have rk: "0 \<le> rnd (of_int k)" by (intro rnd_nonneg) simp
  moreover have "(2 :: rat) ^ 63 \<le> 2 powi 1023" using powi_2_mono [of 63 1023] by (simp add: power_int_def)
  ultimately have pos: "\<bar>rnd (of_int k) / 1000000000\<bar> \<le> 2 powi 1023" using el(2) by simp
  have fk: "f_within 63 (f_of_i64 (r - sg_StartRaw seg))"
    using el(2) rk by (simp add: f_within_def float_val k power_int_def)
  define t0 where "t0 = f_div (f_of_i64 (r - sg_StartRaw seg)) (f_lit 1000000000)"
  have t0: "f_finite t0" "f_val t0 = rnd (rnd (of_int k) / 1000000000)"
    unfolding t0_def using f_div_val [of "f_of_i64 (r - sg_StartRaw seg)" "f_lit 1000000000"] fk el(2) k pos
    by (auto simp: f_lit_1e9 float_val f_within_def)
  have "f_finite dur" using d(1) by (simp add: f_within_def dur_def)
  then have "(if f_less dur t0 then dur else t0) = dur"
    using f_equal_val [of t0 dur] t0 el(1) d(2) by (auto simp: f_less_val dur_def)
  then show ?thesis by (simp only: segment_bias_def Let_def t0_def [symmetric] dur_def [symmetric])
qed

subsection \<open>After the end of a plan\<close>

definition duration_ok :: "float64 \<Rightarrow> bool" where
  "duration_ok d \<longleftrightarrow> f_within 31 d \<and> 0 < f_val d \<and> rnd (f_val d) = f_val d"

text \<open>Segments each of which begins where the one before ends.\<close>

fun chained :: "RawNanos \<Rightarrow> SmearSegment list \<Rightarrow> bool" where
  "chained a [] = True"
| "chained a (s # ss) \<longleftrightarrow>
     sg_StartRaw s = a \<and> duration_ok (sg_DurationSec s) \<and> chained (a + raw_nanos (sg_DurationSec s)) ss"

definition segment_end :: "SmearSegment \<Rightarrow> int" where
  "segment_end s = uint (sg_StartRaw s) + uint (raw_nanos (sg_DurationSec s))"

lemma raw_nanos_bound: "duration_ok d \<Longrightarrow> uint (raw_nanos d) \<le> 2 ^ 61"
  using raw_nanos_val [of d] floor_mono [of "rnd (f_val d * 1000000000)" "2 ^ 61"] by (simp add: duration_ok_def)

lemma chained_ends:
  assumes "chained a segs" "segs \<noteq> []" "uint a + int (length segs) * 2 ^ 61 < 2 ^ 63"
  shows "uint a \<le> segment_end (last segs)"
  using assms
proof (induction segs arbitrary: a)
  case (Cons s ss)
  define n where "n = raw_nanos (sg_DurationSec s)"
  have s: "sg_StartRaw s = a" "uint n \<le> 2 ^ 61" "chained (a + n) ss"
    using Cons.prems raw_nanos_bound by (simp_all add: n_def)
  show ?case
  proof (cases "ss = []")
    case True
    then show ?thesis using s by (simp add: segment_end_def)
  next
    case False
    have "uint a + uint n < 2 ^ 64" using s(2) Cons.prems(3) False by (cases ss) (simp_all add: algebra_simps)
    then have u: "uint (a + n) = uint a + uint n" by (rule uint_add_exact)
    have "uint (a + n) + int (length ss) * 2 ^ 61 < 2 ^ 63" using u s(2) Cons.prems(3) by (simp add: algebra_simps)
    from Cons.IH [OF s(3) False this] have "uint a \<le> segment_end (last ss)" using u uint_ge_0 [of n] by linarith
    then show ?thesis using False by simp
  qed
qed simp

lemma bias_after_chain:
  assumes "chained a segs" "segs \<noteq> []" "uint a + int (length segs) * 2 ^ 61 < 2 ^ 63"
    and r: "segment_end (last segs) + 1000 \<le> uint r" "uint r < 2 ^ 63"
  shows "bias_loop terminal segs r =
    f_to_i64 (f_Round (f_mul (snd (Segment_Evaluate (last segs) (sg_DurationSec (last segs)))) (f_lit 1000000000)))"
  using assms(1-4)
proof (induction segs arbitrary: a)
  case (Cons s ss)
  define n where "n = raw_nanos (sg_DurationSec s)"
  have s: "sg_StartRaw s = a" "uint n \<le> 2 ^ 61" "chained (a + n) ss" "duration_ok (sg_DurationSec s)"
    using Cons.prems raw_nanos_bound by (simp_all add: n_def)
  show ?case
  proof (cases "ss = []")
    case True
    then show ?thesis
      using segment_bias_end [of s r] s(4) Cons.prems(4) r(2) by (simp add: duration_ok_def segment_end_def)
  next
    case False
    have "uint a + uint n < 2 ^ 64" using s(2) Cons.prems(3) False by (cases ss) (simp_all add: algebra_simps)
    then have u: "uint (a + n) = uint a + uint n" by (rule uint_add_exact)
    have l: "uint (a + n) + int (length ss) * 2 ^ 61 < 2 ^ 63" using u s(2) Cons.prems(3) by (simp add: algebra_simps)
    have e: "segment_end (last ss) + 1000 \<le> uint r" using Cons.prems(4) False by simp
    have "uint (a + n) < uint r" using chained_ends [OF s(3) False l] e by linarith
    then have "\<not> r \<le> a + n" by (simp add: word_le_def)
    then show ?thesis using Cons.IH [OF s(3) False l e] False by (simp add: s(1) n_def)
  qed
qed simp

text \<open>The last step: a bias in seconds near the target becomes the target.\<close>

lemma round_away_minus: "round_away (- x) = - round_away x"
proof (cases "x = 0")
  case True
  then show ?thesis by simp
qed (auto simp: round_away_def)

lemma bias_to_target:
  assumes \<sigma>: "\<sigma> = 1 \<or> \<sigma> = - 1" and b: "f_within 100 b" "f_val b = of_int \<sigma> * \<beta>" "near 12 (of_int n / 1000000000) \<beta>"
    and n: "1 \<le> n" "n \<le> 2 ^ 40" "sint target = \<sigma> * n"
  shows "f_to_i64 (f_Round (f_mul b (f_lit 1000000000))) = target"
proof -
  have n0: "(1 :: rat) \<le> of_int n" using n(1) by simp
  have w: "f_within 30 (f_lit 1000000000)" by (simp add: f_lit_1e9 f_within_def power_int_def)
  have m: "f_finite (f_mul b (f_lit 1000000000))" "f_val (f_mul b (f_lit 1000000000)) = rnd (of_int \<sigma> * \<beta> * 1000000000)"
    using f_within_mul [OF b(1) w] by (simp_all add: f_within_def b(2) f_lit_1e9)
  have nn: "near 12 (of_int n) (\<beta> * 1000000000)" using near_mult [OF b(3) near_refl [of 1000000000 0]] by simp
  then have "of_int n \<le> (\<beta> * 1000000000) * fq ^ 12" "0 < \<beta> * 1000000000" by (simp_all add: near_def)
  moreover have "(\<beta> * 1000000000) * fq ^ 12 \<le> (\<beta> * 1000000000) * 2" using calculation(2) by (intro mult_left_mono) (simp_all add: fq_def power_divide)
  ultimately have "2 powi (- 1) \<le> \<beta> * 1000000000" using n0 by (simp add: power_int_def)
  from near_rnd_trans [OF nn this] have "near (12 + 1) (of_int n) (rnd (\<beta> * 1000000000))" by simp
  then have "round_away (rnd (\<beta> * 1000000000)) = n" using near_round_away [of n] n(2) by simp
  moreover have "rnd (of_int \<sigma> * \<beta> * 1000000000) = of_int \<sigma> * rnd (\<beta> * 1000000000)" using \<sigma> by auto
  ultimately have ra: "round_away (f_val (f_mul b (f_lit 1000000000))) = \<sigma> * n"
    using \<sigma> by (auto simp: m(2) round_away_minus)
  have "f_finite (f_Round (f_mul b (f_lit 1000000000)))" "f_val (f_Round (f_mul b (f_lit 1000000000))) = of_int (\<sigma> * n)"
    using f_Round_val [OF m(1)] ra by simp_all
  then have t: "toward_zero (f_val (f_Round (f_mul b (f_lit 1000000000)))) = sint target"
    unfolding n(3) by (simp only: toward_zero_of_int)
  have "sint (f_to_i64 (f_Round (f_mul b (f_lit 1000000000)))) = sint target"
    using f_to_i64_val [of "f_Round (f_mul b (f_lit 1000000000))"] \<open>f_finite (f_Round _)\<close> unfolding t by simp
  then show ?thesis by (rule sint_eqI)
qed

text \<open>\<open>reaches a segs \<sigma> \<delta>\<close>: chained segments from \<open>a\<close>, at whose end the bias is \<open>\<sigma> * \<delta>\<close> up to eleven roundings.\<close>

definition reaches :: "RawNanos \<Rightarrow> SmearSegment list \<Rightarrow> int \<Rightarrow> rat \<Rightarrow> bool" where
  "reaches a segs \<sigma> \<delta> \<longleftrightarrow>
     chained a segs \<and> segs \<noteq> [] \<and> length segs \<le> 3 \<and>
     f_within 100 (snd (Segment_Evaluate (last segs) (sg_DurationSec (last segs)))) \<and>
     (\<exists>\<beta>. f_val (snd (Segment_Evaluate (last segs) (sg_DurationSec (last segs)))) = of_int \<sigma> * \<beta> \<and> near 11 \<delta> \<beta>)"

lemma f_sign:
  assumes "\<sigma> = 1 \<or> \<sigma> = - 1" "f_finite D" "f_val D = of_int \<sigma> * \<delta>" "0 < \<delta>"
  shows "f_Copysign (f_lit 1) D = Fin (of_int \<sigma>)"
proof -
  have "f_lit 1 = Fin 1" by code_simp
  moreover have "f_neg D \<longleftrightarrow> \<sigma> = - 1" using assms by (cases D) auto
  ultimately show ?thesis using assms(1) by (auto simp: f_Copysign_def)
qed

lemma f_signed:
  assumes "\<sigma> = 1 \<or> \<sigma> = - 1" "f_within 0 W" "rnd (f_val W) = f_val W"
  shows "f_within 0 (f_mul (Fin (of_int \<sigma>)) W)" "f_val (f_mul (Fin (of_int \<sigma>)) W) = of_int \<sigma> * f_val W"
    "f_within 0 (f_mul (f_uminus (Fin (of_int \<sigma>))) W)" "f_val (f_mul (f_uminus (Fin (of_int \<sigma>))) W) = - (of_int \<sigma> * f_val W)"
proof -
  have "f_within 0 (Fin (of_int \<sigma>))" "f_within 0 (f_uminus (Fin (of_int \<sigma>)))" using assms(1) by (auto simp: f_within_def)
  from f_within_mul [OF this(1) assms(2)] f_within_mul [OF this(2) assms(2)]
  show "f_within 0 (f_mul (Fin (of_int \<sigma>)) W)" "f_val (f_mul (Fin (of_int \<sigma>)) W) = of_int \<sigma> * f_val W"
    "f_within 0 (f_mul (f_uminus (Fin (of_int \<sigma>))) W)" "f_val (f_mul (f_uminus (Fin (of_int \<sigma>))) W) = - (of_int \<sigma> * f_val W)"
    using assms(1,3) by auto
qed

lemma rnd_sign: "\<sigma> = 1 \<or> \<sigma> = - 1 \<Longrightarrow> rnd (of_int \<sigma> * x) = of_int \<sigma> * rnd x"
  by auto

lemma ramp_bias_sign: "\<sigma> = 1 \<or> \<sigma> = - 1 \<Longrightarrow> ramp_bias (of_int \<sigma> * W) t = of_int \<sigma> * ramp_bias W t"
  by (auto simp: ramp_bias_minus)

lemma ramp_bias_rep [simp]: "rnd (ramp_bias W t) = ramp_bias W t"
  by (simp add: ramp_bias_def)

lemma f_of_val: "f_finite a \<Longrightarrow> f_val a \<noteq> 0 \<Longrightarrow> a = Fin (f_val a)"
  by (cases a) simp_all

lemma triangular_time:
  assumes W: "f_within 0 W" "2 powi (- 30) \<le> f_val W" "f_val W \<le> 2 powi (- 3)"
    and D: "f_finite D" "\<bar>f_val D\<bar> = \<delta>" "2 powi (- 30) \<le> \<delta>" "\<delta> \<le> 2 powi 11"
  shows "\<exists>t. f_Sqrt (f_div (f_Abs D) W) = Fin t \<and> duration_ok (Fin t) \<and> near 2 (rnd (\<delta> / f_val W)) (t * t)"
proof -
  have W0: "0 < f_val W" using less_le_trans [OF powi_2_pos W(2)] .
  have lo: "2 powi (- 27) \<le> \<delta> / f_val W" using powi_le_divide [OF D(3) W0 W(3)] by simp
  have "2 powi 11 = (2 :: rat) powi 41 * 2 powi (- 30)" unfolding powi_2_add [symmetric] by simp
  also have "\<dots> \<le> 2 powi 41 * f_val W" using W(2) by (intro mult_left_mono) simp_all
  finally have hi: "\<delta> / f_val W \<le> 2 powi 41" using D(4) W0 by (simp add: pos_divide_le_eq)
  define y where "y = rnd (\<delta> / f_val W)"
  have y: "2 powi (- 27) \<le> y" "y \<le> 2 powi 41" using rnd_ge_powi [OF lo] rnd_le_powi [OF hi] by (simp_all add: y_def)
  have d0: "0 < \<delta>" using less_le_trans [OF powi_2_pos D(3)] .
  have f: "f_finite (f_Abs D)" "f_finite W" "f_val (f_Abs D) = \<delta>" "f_val W \<noteq> 0"
    using D(1,2) W(1) W0 by (simp_all add: float_val f_within_def)
  have b: "\<bar>f_val (f_Abs D) / f_val W\<bar> \<le> 2 powi 1023"
  proof -
    have "\<bar>f_val (f_Abs D) / f_val W\<bar> \<le> 2 powi 41" unfolding f(3) using hi d0 W0 by simp
    also have "\<dots> \<le> 2 powi 1023" by (rule powi_2_mono) simp
    finally show ?thesis .
  qed
  have dv: "f_finite (f_div (f_Abs D) W) \<and> f_val (f_div (f_Abs D) W) = y"
    using f_div_val [OF f(1,2,4) b] unfolding f(3) y_def .
  then have q: "f_div (f_Abs D) W = Fin y" using f_of_val [of "f_div (f_Abs D) W"] less_le_trans [OF powi_2_pos y(1)] by simp
  define t where "t = sqrt_round y"
  have t: "rnd t = t" "0 < t" using sqrt_round_rep [of y] y(1) powi_2_mono [of "- 1022" "- 27"] by (simp_all add: t_def)
  have n: "near 2 y (t * t)" unfolding t_def using sqrt_round_near less_le_trans [OF powi_2_pos y(1)] by blast
  have "t \<le> 2 ^ 31"
  proof (rule ccontr)
    assume "\<not> t \<le> 2 ^ 31"
    then have "2 ^ 31 * 2 ^ 31 \<le> t * t" by (intro mult_mono) simp_all
    moreover have "t * t \<le> y * fq ^ 2" using n by (simp add: near_def)
    moreover have "y * fq ^ 2 \<le> 2 powi 41 * 2" using y(2) by (intro mult_mono) (simp_all add: fq_def power_divide)
    ultimately show False by (simp add: power_int_def)
  qed
  then have "duration_ok (Fin t)" using t by (simp add: duration_ok_def f_within_def power_int_def)
  then show ?thesis using n q y(1) less_le_trans [OF powi_2_pos y(1)] by (auto simp: t_def y_def)
qed

text \<open>A quotient between two powers of two.\<close>

lemma f_div_between:
  assumes "f_finite a" "f_finite b" "f_val b \<noteq> 0" "2 powi l \<le> f_val a / f_val b" "f_val a / f_val b \<le> 2 powi h"
    and "- 1022 \<le> l" "h \<le> 1023"
  shows "f_within h (f_div a b)" "f_val (f_div a b) = rnd (f_val a / f_val b)" "2 powi l \<le> f_val (f_div a b)"
proof -
  have p: "0 < f_val a / f_val b" using less_le_trans [OF powi_2_pos assms(4)] .
  have "\<bar>f_val a / f_val b\<bar> \<le> 2 powi 1023"
    using p order_trans [OF assms(5) powi_2_mono [OF assms(7)]] by (simp only: abs_of_pos)
  from f_div_val [OF assms(1-3) this] have v: "f_finite (f_div a b)" "f_val (f_div a b) = rnd (f_val a / f_val b)" by blast+
  have "(2 :: rat) powi l \<le> 2 powi h" using assms(4,5) by (rule order_trans)
  then have "l \<le> h" using powi_2_less_iff [of h l] by (simp add: not_less [symmetric] del: powi_2_less_iff)
  then have r: "2 powi l \<le> f_val (f_div a b)" "f_val (f_div a b) \<le> 2 powi h"
    unfolding v(2) using rnd_ge_powi [OF assms(4)] rnd_le_powi [OF assms(5)] assms(6) by simp_all
  then have "0 < f_val (f_div a b)" using less_le_trans [OF powi_2_pos] by blast
  then show "f_within h (f_div a b)" using v(1) r(2) by (simp add: f_within_def)
  show "f_val (f_div a b) = rnd (f_val a / f_val b)" "2 powi l \<le> f_val (f_div a b)" by (fact v(2), fact r(1))
qed

lemma powi_ge_divide:
  assumes "(x :: rat) \<le> 2 powi e" "2 powi f \<le> y"
  shows "x / y \<le> 2 powi (e - f)"
proof -
  have y: "0 < y" using less_le_trans [OF powi_2_pos assms(2)] .
  have "(2 :: rat) powi e = 2 powi (e - f) * 2 powi f" unfolding powi_2_add [symmetric] by simp
  also have "\<dots> \<le> 2 powi (e - f) * y" using assms(2) by (intro mult_left_mono) (simp_all add: less_imp_le)
  finally show ?thesis using assms(1) y by (simp add: pos_divide_le_eq)
qed

lemma duration_of_quotient:
  assumes "f_within 31 d" "f_val d = rnd x" "2 powi l \<le> f_val d"
  shows "duration_ok d"
  using assms less_le_trans [OF powi_2_pos assms(3)] by (simp add: duration_ok_def)

lemma trapezoidal_times:
  assumes W: "f_within 0 W" "2 powi (- 30) \<le> f_val W" "f_val W \<le> 2 powi (- 3)"
    and R: "f_finite R" "2 powi (- 20) \<le> f_val R" "f_val R \<le> 2 powi (- 3)"
    and D: "f_finite D" "\<bar>f_val D\<bar> = \<delta>" "rnd \<delta> = \<delta>" "\<delta> \<le> 2 powi 11"
    and area: "rnd (f_val R * rnd (f_val R / f_val W)) < \<delta>"
  defines "\<rho> \<equiv> f_div R W" and "flat \<equiv> f_div (f_sub (f_Abs D) (f_mul R (f_div R W))) R"
  shows "duration_ok \<rho>" "duration_ok flat" "f_val \<rho> = rnd (f_val R / f_val W)"
    "f_val flat = rnd (rnd (\<delta> - rnd (f_val R * f_val \<rho>)) / f_val R)" "0 < \<delta>"
proof -
  have pos: "0 < f_val W" "0 < f_val R" using less_le_trans [OF powi_2_pos W(2)] less_le_trans [OF powi_2_pos R(2)] .
  have fW: "f_finite W" using W(1) by (simp add: f_within_def)
  have l: "2 powi (- 17) \<le> f_val R / f_val W" using powi_le_divide [OF R(2) pos(1) W(3)] by simp
  have h: "f_val R / f_val W \<le> 2 powi 27" using powi_ge_divide [OF R(3) W(2)] by simp
  have \<rho>: "f_within 27 \<rho>" "f_val \<rho> = rnd (f_val R / f_val W)" "2 powi (- 17) \<le> f_val \<rho>"
    unfolding \<rho>_def by (rule f_div_between [OF R(1) fW _ l h]; use pos in simp)+
  show v\<rho>: "f_val \<rho> = rnd (f_val R / f_val W)" by (fact \<rho>(2))
  show "duration_ok \<rho>" by (rule duration_of_quotient [OF f_within_mono [OF \<rho>(1)] \<rho>(2,3)]) simp
  have "f_within (- 3) R" using R(1,3) pos(2) by (simp add: f_within_def)
  from f_within_mul [OF this \<rho>(1)] have \<alpha>: "f_within 24 (f_mul R \<rho>)" "f_val (f_mul R \<rho>) = rnd (f_val R * f_val \<rho>)" by simp_all
  define \<alpha> where "\<alpha> = rnd (f_val R * f_val \<rho>)"
  have l\<alpha>: "2 powi (- 37) \<le> \<alpha>" unfolding \<alpha>_def using powi_le_mult [OF R(2) \<rho>(3)] by (intro rnd_ge_powi) simp_all
  have lt: "\<alpha> < \<delta>" using area by (simp add: \<alpha>_def \<rho>(2))
  show d0: "0 < \<delta>" using less_trans [OF less_le_trans [OF powi_2_pos l\<alpha>] lt] .
  have gap: "2 powi (- 89) \<le> \<delta> - \<alpha>" using representable_difference [OF _ D(3) l\<alpha> lt] by (simp add: \<alpha>_def)
  have top: "\<delta> - \<alpha> \<le> 2 powi 11" using D(4) less_le_trans [OF powi_2_pos l\<alpha>] by linarith
  have "\<bar>f_val (f_Abs D) - f_val (f_mul R \<rho>)\<bar> \<le> 2 powi 1023"
  proof -
    have "\<bar>f_val (f_Abs D) - f_val (f_mul R \<rho>)\<bar> = \<delta> - \<alpha>" using lt by (simp add: float_val D(2) \<alpha>(2) \<alpha>_def)
    also have "\<dots> \<le> 2 powi 11" by (fact top)
    also have "\<dots> \<le> 2 powi 1023" by (rule powi_2_mono) simp
    finally show ?thesis .
  qed
  then have sub: "f_finite (f_sub (f_Abs D) (f_mul R \<rho>))" "f_val (f_sub (f_Abs D) (f_mul R \<rho>)) = rnd (\<delta> - \<alpha>)"
    using f_sub_val [of "f_Abs D" "f_mul R \<rho>"] D(1,2) \<alpha> by (simp_all add: float_val f_within_def \<alpha>_def)
  have g: "2 powi (- 89) \<le> rnd (\<delta> - \<alpha>)" "rnd (\<delta> - \<alpha>) \<le> 2 powi 11"
    using rnd_ge_powi [OF gap] rnd_le_powi [OF top] by simp_all
  have lf: "2 powi (- 86) \<le> f_val (f_sub (f_Abs D) (f_mul R \<rho>)) / f_val R"
    using powi_le_divide [OF g(1) pos(2) R(3)] by (simp add: sub(2))
  have hf: "f_val (f_sub (f_Abs D) (f_mul R \<rho>)) / f_val R \<le> 2 powi 31"
    using powi_ge_divide [OF g(2) R(2)] by (simp add: sub(2))
  have fl: "f_within 31 flat" "f_val flat = rnd (rnd (\<delta> - \<alpha>) / f_val R)" "2 powi (- 86) \<le> f_val flat"
    unfolding flat_def \<rho>_def [symmetric] sub(2) [symmetric]
    by (rule f_div_between [OF sub(1) R(1) _ lf hf]; use pos in simp)+
  show "f_val flat = rnd (rnd (\<delta> - rnd (f_val R * f_val \<rho>)) / f_val R)" using fl(2) by (simp add: \<alpha>_def)
  show "duration_ok flat" by (rule duration_of_quotient [OF fl])
qed

lemma duration_within: "duration_ok d \<Longrightarrow> f_within 40 d \<and> 0 \<le> f_val d"
  by (auto simp: duration_ok_def intro: f_within_mono)

text \<open>The sign of the target passes through all roundings.\<close>

lemma rnd_signs:
  assumes "\<sigma> = 1 \<or> \<sigma> = - 1"
  shows "rnd (of_int \<sigma> * x * y) = of_int \<sigma> * rnd (x * y)"
    "rnd (of_int \<sigma> * x + of_int \<sigma> * y) = of_int \<sigma> * rnd (x + y)"
    "rnd (of_int \<sigma> * x - of_int \<sigma> * y) = of_int \<sigma> * rnd (x - y)"
  using rnd_sign [OF assms, of "x * y"] rnd_sign [OF assms, of "x + y"] rnd_sign [OF assms, of "x - y"]
  by (simp_all only: mult.assoc distrib_left right_diff_distrib)

lemma triangular_reaches:
  assumes \<sigma>: "\<sigma> = 1 \<or> \<sigma> = - 1"
    and W: "f_within 0 W" "rnd (f_val W) = f_val W" "2 powi (- 30) \<le> f_val W" "f_val W \<le> 2 powi (- 3)"
    and D: "f_finite D" "f_val D = of_int \<sigma> * \<delta>" "2 powi (- 30) \<le> \<delta>" "\<delta> \<le> 2 powi 11"
  shows "reaches a (triangular a (Fin 0) D W) \<sigma> \<delta>"
proof -
  have d0: "0 < \<delta>" using less_le_trans [OF powi_2_pos D(3)] .
  have aD: "\<bar>f_val D\<bar> = \<delta>" using \<sigma> D(2) d0 by (auto simp: abs_mult)
  obtain t where t: "f_Sqrt (f_div (f_Abs D) W) = Fin t" "duration_ok (Fin t)" "near 2 (rnd (\<delta> / f_val W)) (t * t)"
    using triangular_time [OF W(1,3,4) D(1) aD D(3,4)] by blast
  define d where "d = Fin t"
  have d: "f_within 40 d" "0 \<le> f_val d" "f_val d = t" "0 < t" using duration_within [OF t(2)] t(2) by (simp_all add: d_def duration_ok_def)
  note sg = f_sign [OF \<sigma> D(1,2) d0]
  note w = f_signed [OF \<sigma> W(1,2)]
  define c where "c = ramp_bias (f_val W) t"
  define v where "v = rnd (f_val W * t)"
  define seg1 where "seg1 = segment a d (Fin 0) (f_mul (Fin (of_int \<sigma>)) W) (Fin 0)"
  have z: "f_within 40 (Fin 0)" "f_within 80 (Fin 0)" by (simp_all add: f_within_def)
  note e1 = Segment_Evaluate_end [OF d(1,2) w(1) z, of a, folded seg1_def]
  have r1: "f_within 41 (fst (Segment_Evaluate seg1 d))" "f_val (fst (Segment_Evaluate seg1 d)) = of_int \<sigma> * v"
    using e1(1,2) by (simp_all add: w(2) d(3) v_def rnd_sign [OF \<sigma>] mult.assoc)
  have b1: "f_within 82 (snd (Segment_Evaluate seg1 d))" "f_val (snd (Segment_Evaluate seg1 d)) = of_int \<sigma> * c"
    using e1(3,4) by (simp_all add: w(2) d(3) c_def ramp_bias_sign [OF \<sigma>] rnd_sign [OF \<sigma>])
  define seg2 where "seg2 = segment (a + raw_nanos d) d (fst (Segment_Evaluate seg1 d)) (f_mul (f_uminus (Fin (of_int \<sigma>))) W) (snd (Segment_Evaluate seg1 d))"
  note e2 = Segment_Evaluate_end [OF d(1,2) w(3) r1(1) b1(1), of "a + raw_nanos d", folded seg2_def]
  have b2: "f_within 100 (snd (Segment_Evaluate seg2 d))" by (rule f_within_mono [OF e2(3)]) simp_all
  have "f_val (snd (Segment_Evaluate seg2 d)) = rnd (rnd (of_int \<sigma> * c + rnd (of_int \<sigma> * v * t)) - of_int \<sigma> * c)"
    using e2(4) unfolding r1(2) b1(2) w(4) d(3) ramp_bias_minus ramp_bias_sign [OF \<sigma>] c_def by simp
  also have "\<dots> = of_int \<sigma> * rnd (rnd (c + rnd (v * t)) - c)"
    by (simp only: rnd_signs [OF \<sigma>])
  finally have v2: "f_val (snd (Segment_Evaluate seg2 d)) = of_int \<sigma> * rnd (rnd (c + rnd (v * t)) - c)" .
  have n: "near 11 \<delta> (rnd (rnd (c + rnd (v * t)) - c))"
    unfolding c_def v_def by (rule triangular_error [OF W(2-4) D(3) d(4) t(3)])
  have "triangular a (Fin 0) D W = [seg1, seg2]"
    by (simp add: triangular_def sg t(1) seg1_def seg2_def d_def f_constants split_beta Let_def)
  then show ?thesis
    using b2 v2 n t(2) by (auto simp: reaches_def seg1_def seg2_def d_def)
qed

lemma trapezoidal_reaches:
  assumes \<sigma>: "\<sigma> = 1 \<or> \<sigma> = - 1"
    and W: "f_within 0 W" "rnd (f_val W) = f_val W" "2 powi (- 30) \<le> f_val W" "f_val W \<le> 2 powi (- 3)"
    and R: "f_finite R" "2 powi (- 20) \<le> f_val R" "f_val R \<le> 2 powi (- 3)"
    and D: "f_finite D" "f_val D = of_int \<sigma> * \<delta>" "rnd \<delta> = \<delta>" "\<delta> \<le> 2 powi 11"
    and area: "rnd (f_val R * rnd (f_val R / f_val W)) < \<delta>"
  shows "reaches a (trapezoidal a (Fin 0) D R W (f_div R W) (f_mul R (f_div R W))) \<sigma> \<delta>"
proof -
  define c \<rho> v where "c = ramp_bias (f_val W) (f_val (f_div R W))" and "\<rho> = f_val (f_div R W)"
    and "v = rnd (f_val W * f_val (f_div R W))"
  define \<phi> where "\<phi> = f_val (f_div (f_sub (f_Abs D) (f_mul R (f_div R W))) R)"
  have pos: "0 < f_val W" "0 < f_val R" using less_le_trans [OF powi_2_pos W(3)] less_le_trans [OF powi_2_pos R(2)] .
  then have "0 \<le> rnd (f_val R / f_val W)" by (intro rnd_nonneg) simp
  then have "0 \<le> rnd (f_val R * rnd (f_val R / f_val W))" using pos(2) by (intro rnd_nonneg [OF mult_nonneg_nonneg]) simp_all
  then have "\<bar>f_val D\<bar> = \<delta>" using \<sigma> D(2) area by (auto simp: abs_mult)
  note stages = trapezoidal_times [OF W(1,3,4) R D(1) this D(3,4) area, folded \<rho>_def, folded \<phi>_def]
  define d1 d2 where "d1 = f_div R W" and "d2 = f_div (f_sub (f_Abs D) (f_mul R (f_div R W))) R"
  have d: "f_within 40 d1" "0 \<le> f_val d1" "f_val d1 = \<rho>" "f_within 40 d2" "0 \<le> f_val d2" "f_val d2 = \<phi>"
    using duration_within [OF stages(1)] duration_within [OF stages(2)] by (simp_all add: d1_def d2_def \<rho>_def \<phi>_def)
  note sg = f_sign [OF \<sigma> D(1,2) stages(5)]
  note w = f_signed [OF \<sigma> W(1,2)]
  have z: "f_within 40 (Fin 0)" "f_within 80 (Fin 0)" "f_within 0 (Fin 0)" by (simp_all add: f_within_def)
  define seg1 where "seg1 = segment a d1 (Fin 0) (f_mul (Fin (of_int \<sigma>)) W) (Fin 0)"
  note e1 = Segment_Evaluate_end [OF d(1,2) w(1) z(1,2), of a, folded seg1_def]
  have r1: "f_within 41 (fst (Segment_Evaluate seg1 d1))" "f_val (fst (Segment_Evaluate seg1 d1)) = of_int \<sigma> * v"
    using e1(1,2) by (simp_all add: w(2) d(3) v_def \<rho>_def rnd_sign [OF \<sigma>] mult.assoc)
  have b1: "f_within 82 (snd (Segment_Evaluate seg1 d1))" "f_val (snd (Segment_Evaluate seg1 d1)) = of_int \<sigma> * c"
    using e1(3,4) by (simp_all add: w(2) d(3) c_def \<rho>_def ramp_bias_sign [OF \<sigma>] rnd_sign [OF \<sigma>])
  define seg2 where "seg2 = segment (a + raw_nanos d1) d2 (fst (Segment_Evaluate seg1 d1)) (Fin 0) (snd (Segment_Evaluate seg1 d1))"
  note e2 = Segment_Evaluate_end [OF d(4,5) z(3) r1(1) b1(1), of "a + raw_nanos d1", folded seg2_def]
  have r2: "f_within 42 (fst (Segment_Evaluate seg2 d2))" "f_val (fst (Segment_Evaluate seg2 d2)) = of_int \<sigma> * v"
    using e2(1,2) by (simp_all add: r1(2) rnd_sign [OF \<sigma>] v_def)
  have b2: "f_within 84 (snd (Segment_Evaluate seg2 d2))"
    "f_val (snd (Segment_Evaluate seg2 d2)) = of_int \<sigma> * rnd (c + rnd (v * \<phi>))"
    using e2(3,4) by (simp_all add: r1(2) b1(2) d(6) rnd_signs [OF \<sigma>] rnd_sign [OF \<sigma>])
  define seg3 where "seg3 = segment (a + raw_nanos d1 + raw_nanos d2) d1 (fst (Segment_Evaluate seg2 d2))
    (f_mul (f_uminus (Fin (of_int \<sigma>))) W) (snd (Segment_Evaluate seg2 d2))"
  note e3 = Segment_Evaluate_end [OF d(1,2) w(3) r2(1) b2(1), of "a + raw_nanos d1 + raw_nanos d2", folded seg3_def]
  have b3: "f_within 100 (snd (Segment_Evaluate seg3 d1))" by (rule f_within_mono [OF e3(3)]) simp_all
  have "f_val (snd (Segment_Evaluate seg3 d1))
      = rnd (rnd (of_int \<sigma> * rnd (c + rnd (v * \<phi>)) + rnd (of_int \<sigma> * v * \<rho>)) - of_int \<sigma> * c)"
    using e3(4) unfolding r2(2) b2(2) w(4) d(3) ramp_bias_minus ramp_bias_sign [OF \<sigma>] c_def \<rho>_def by simp
  also have "\<dots> = of_int \<sigma> * rnd (rnd (rnd (c + rnd (v * \<phi>)) + rnd (v * \<rho>)) - c)"
    by (simp only: rnd_signs [OF \<sigma>])
  finally have v3: "f_val (snd (Segment_Evaluate seg3 d1)) = of_int \<sigma> * rnd (rnd (rnd (c + rnd (v * \<phi>)) + rnd (v * \<rho>)) - c)" .
  have n: "near 11 \<delta> (rnd (rnd (rnd (c + rnd (v * \<phi>)) + rnd (v * \<rho>)) - c))"
    unfolding c_def v_def stages(4) \<rho>_def [symmetric] stages(3) by (rule trapezoid_error [OF W(2-4) R(2,3) D(3) area])
  have "trapezoidal a (Fin 0) D R W d1 (f_mul R d1) = [seg1, seg2, seg3]"
    by (simp add: trapezoidal_def sg seg1_def seg2_def seg3_def d1_def [symmetric] d2_def f_constants split_beta Let_def)
  then show ?thesis
    using b3 v3 n stages(1,2) by (auto simp: reaches_def seg1_def seg2_def seg3_def d1_def d2_def)
qed

lemma f_lit_1e6: "f_lit (1 / 10 ^ 6) = Fin (4722366482869645 / 4722366482869645213696)"
  by code_simp

lemma f_lit_1e12: "f_lit (1 / 10 ^ 12) = Fin (4951760157141521 / 4951760157141521099596496896)"
  by code_simp

lemma f_lit_1e15: "f_lit (1 / 10 ^ 15) = Fin (2535301200456459 / 2535301200456458802993406410752)"
  by code_simp

text \<open>The limits in their units, for parameters of \<open>2^e\<close> up to 100000 ppm.\<close>

lemma limit_or_val:
  fixes d :: float64
  assumes "f_finite m" "2 powi e \<le> f_val m" "f_val m \<le> 100000" "- 1000 \<le> e"
  defines "X \<equiv> limit_or d (f_mul m (f_lit (1 / 10 ^ 6)))"
  shows "f_within 0 X" "rnd (f_val X) = f_val X" "2 powi (e - 20) \<le> f_val X" "f_val X \<le> 2 powi (- 3)"
proof -
  define k :: rat where "k = 4722366482869645 / 4722366482869645213696"
  have k: "2 powi (- 20) \<le> k" "k \<le> 1 / 900000" by (simp_all add: k_def)
  have m0: "0 < f_val m" using less_le_trans [OF powi_2_pos assms(2)] .
  have lo: "2 powi (e - 20) \<le> f_val m * k" using powi_le_mult [OF assms(2) k(1)] by simp
  have "f_val m * k \<le> 100000 * (1 / 900000)" using assms(3) k m0 by (intro mult_mono) (simp_all add: k_def)
  then have hi: "f_val m * k \<le> 2 powi (- 3)" by simp
  have fm: "f_within 17 m" using assms(1,3) m0 by (simp add: f_within_def power_int_def)
  have fk: "f_within 0 (f_lit (1 / 10 ^ 6))" unfolding f_within_def f_lit_1e6 by simp
  have p: "f_finite (f_mul m (f_lit (1 / 10 ^ 6)))" "f_val (f_mul m (f_lit (1 / 10 ^ 6))) = rnd (f_val m * k)"
    using f_within_mul [OF fm fk] unfolding f_within_def f_lit_1e6 k_def by simp_all
  have r: "2 powi (e - 20) \<le> rnd (f_val m * k)" "rnd (f_val m * k) \<le> 2 powi (- 3)"
    using rnd_ge_powi [OF lo] rnd_le_powi [OF hi] assms(4) by simp_all
  have r0: "0 < rnd (f_val m * k)" using less_le_trans [OF powi_2_pos r(1)] .
  have X: "X = f_mul m (f_lit (1 / 10 ^ 6))"
    using p r0 by (simp add: X_def limit_or_def f_leq_val f_constants)
  show "2 powi (e - 20) \<le> f_val X" "f_val X \<le> 2 powi (- 3)" "rnd (f_val X) = f_val X" unfolding X p(2) by (fact r(1), fact r(2), simp)
  show "f_within 0 X" unfolding X f_within_def p(2) using p(1) r0 r(2) by simp
qed

text \<open>The displacement of a plan from rest.\<close>

lemma displacement_val:
  assumes n: "1 \<le> n" "n \<le> 2 ^ 40" and \<sigma>: "\<sigma> = 1 \<or> \<sigma> = - 1" "sint target = \<sigma> * n"
  defines "D \<equiv> f_sub (f_div (f_of_i64 target) (f_lit 1000000000)) (f_lit 0)"
  shows "f_finite D" "f_val D = of_int \<sigma> * rnd (of_int n / 1000000000)" "2 powi (- 30) \<le> rnd (of_int n / 1000000000)"
    "rnd (of_int n / 1000000000) \<le> 2 powi 11" "near 1 (of_int n / 1000000000) (rnd (of_int n / 1000000000))"
proof -
  have nr: "(1 :: rat) \<le> of_int n" "(of_int n :: rat) \<le> 2 ^ 40" using n of_int_le_iff [of n "2 ^ 40", where ?'a = rat] by simp_all
  have lo: "2 powi (- 30) \<le> (of_int n / 1000000000 :: rat)" using nr(1) by simp
  have hi: "(of_int n / 1000000000 :: rat) \<le> 2 powi 11" using nr(2) by simp
  show l: "2 powi (- 30) \<le> rnd (of_int n / 1000000000)" and u: "rnd (of_int n / 1000000000) \<le> 2 powi 11"
    using rnd_ge_powi [OF lo] rnd_le_powi [OF hi] by simp_all
  show "near 1 (of_int n / 1000000000) (rnd (of_int n / 1000000000))"
    using near_rnd_trans [OF near_refl lo, of 0] nr(1) by simp
  have "\<bar>sint target\<bar> \<le> 2 ^ 53" using \<sigma> n by auto
  then have t: "f_finite (f_of_i64 target)" "f_val (f_of_i64 target) = of_int \<sigma> * of_int n"
    using rnd_of_int [of "sint target"] \<sigma>(2) by (simp_all add: float_val)
  have b: "\<bar>of_int \<sigma> * of_int n / 1000000000 :: rat\<bar> \<le> 2 powi 11" using hi nr(1) \<sigma>(1) by (auto simp: abs_mult)
  have big: "(2 :: rat) powi 11 \<le> 2 powi 1023" by (rule powi_2_mono) simp
  have "f_finite (f_div (f_of_i64 target) (f_lit 1000000000)) \<and>
      f_val (f_div (f_of_i64 target) (f_lit 1000000000)) = rnd (of_int \<sigma> * of_int n / 1000000000)"
    using f_div_val [of "f_of_i64 target" "f_lit 1000000000"] t order_trans [OF b big] by (simp only: f_lit_1e9 f_finite.simps f_val.simps)
  moreover have r: "rnd (of_int \<sigma> * of_int n / 1000000000) = of_int \<sigma> * rnd (of_int n / 1000000000)"
    using rnd_sign [OF \<sigma>(1), of "of_int n / 1000000000"] by simp
  ultimately have q: "f_finite (f_div (f_of_i64 target) (f_lit 1000000000))"
    "f_val (f_div (f_of_i64 target) (f_lit 1000000000)) = of_int \<sigma> * rnd (of_int n / 1000000000)" by simp_all
  have "\<bar>of_int \<sigma> * rnd (of_int n / 1000000000)\<bar> \<le> 2 powi 11" using u less_le_trans [OF powi_2_pos l] \<sigma>(1) by (auto simp: abs_mult)
  from order_trans [OF this big] have "f_finite D \<and> f_val D = rnd (of_int \<sigma> * rnd (of_int n / 1000000000))"
    unfolding D_def using f_sub_val [of "f_div (f_of_i64 target) (f_lit 1000000000)" "Fin 0"] q by (simp add: f_constants)
  then show "f_finite D" "f_val D = of_int \<sigma> * rnd (of_int n / 1000000000)" using rnd_sign [OF \<sigma>(1)] by simp_all
qed


lemma ramp_area_val:
  assumes W: "f_within 0 W" "2 powi (- 30) \<le> f_val W" "f_val W \<le> 2 powi (- 3)"
    and R: "f_within 0 R" "2 powi (- 20) \<le> f_val R" "f_val R \<le> 2 powi (- 3)"
  shows "f_finite (f_mul R (f_div R W))" "f_val (f_mul R (f_div R W)) = rnd (f_val R * rnd (f_val R / f_val W))"
proof -
  have pos: "0 < f_val W" "0 < f_val R" using less_le_trans [OF powi_2_pos W(2)] less_le_trans [OF powi_2_pos R(2)] .
  have fin: "f_finite W" "f_finite R" using W(1) R(1) by (simp_all add: f_within_def)
  have "2 powi (- 17) \<le> f_val R / f_val W" "f_val R / f_val W \<le> 2 powi 27"
    using powi_le_divide [OF R(2) pos(1) W(3)] powi_ge_divide [OF R(3) W(2)] by simp_all
  from f_div_between [OF fin(2,1) _ this] pos have "f_within 27 (f_div R W)" "f_val (f_div R W) = rnd (f_val R / f_val W)" by simp_all
  with f_within_mul [OF R(1) this(1)]
  show "f_finite (f_mul R (f_div R W))" "f_val (f_mul R (f_div R W)) = rnd (f_val R * rnd (f_val R / f_val W))"
    by (simp_all add: f_within_def)
qed

lemma PlanSmear_from_rest:
  assumes "R = limit_or (f_lit (100 / 10 ^ 6)) (f_mul maxRate (f_lit (1 / 10 ^ 6)))"
    and "W = limit_or (f_lit (10 / 10 ^ 6)) (f_mul maxWander (f_lit (1 / 10 ^ 6)))"
    and "D = f_sub (f_div (f_of_i64 target) (f_lit 1000000000)) (f_lit 0)"
  shows "PlanSmear start target maxRate maxWander =
    \<lparr>sp_Segments = (if f_less (f_Abs D) (f_lit (1 / 10 ^ 12)) then []
       else if f_leq (f_Abs D) (f_mul R (f_div R W)) then triangular start (Fin 0) D W
       else trapezoidal start (Fin 0) D R W (f_div R W) (f_mul R (f_div R W))),
     sp_TerminalBiasNs = target, sp_ResidualNs = 0\<rparr>"
proof -
  have "\<not> f_less (f_lit (1 / 10 ^ 15)) (f_Abs (f_lit 0))" by code_simp
  then have b: "brake start (Fin 0) (Fin 0) W = ([], start, Fin 0)" by (simp only: brake_def if_False f_constants(3))
  note D = assms(3) [unfolded f_constants(3), symmetric]
  show ?thesis
    unfolding PlanSmear_def ReplanSmearFromState_def Let_def assms(1,2) [symmetric] f_constants(3) b prod.case append_Nil D
    by simp
qed

subsection \<open>A sample plan\<close>

definition sample_R :: float64 where "sample_R = Fin (1844674407370955 / 18446744073709551616)"

definition sample_W :: float64 where "sample_W = Fin (368934881474191 / 36893488147419103232)"

lemma sample_limits:
  "limit_or (f_lit (100 / 10 ^ 6)) (f_mul (Fin 100) (f_lit (1 / 10 ^ 6))) = sample_R"
  "limit_or (f_lit (10 / 10 ^ 6)) (f_mul (Fin 10) (f_lit (1 / 10 ^ 6))) = sample_W"
  unfolding f_lit_1e6 by code_simp+

lemma sample_displacement: "f_sub (f_div (f_of_i64 1000000000) (f_lit 1000000000)) (f_lit 0) = Fin 1"
  unfolding f_lit_1e9 by code_simp

lemma sample_stages:
  "f_div sample_R sample_W = Fin 10" "f_mul sample_R (Fin 10) = Fin (1152921504606847 / 1152921504606846976)"
  "f_div (f_sub (Fin 1) (Fin (1152921504606847 / 1152921504606846976))) sample_R = Fin 9990"
  by code_simp+

lemma sample_durations: "raw_nanos (Fin 10) = 10000000000" "raw_nanos (Fin 9990) = 9990000000000"
  unfolding raw_nanos_def f_lit_1e9 by code_simp+

lemma sample_plan:
  "sp_Segments (PlanSmear 1000000000 1000000000 (Fin 100) (Fin 10))
     = trapezoidal 1000000000 (Fin 0) (Fin 1) sample_R sample_W (Fin 10) (Fin (1152921504606847 / 1152921504606846976))"
proof -
  have "\<not> f_less (f_Abs (Fin 1)) (f_lit (1 / 10 ^ 12))"
    "\<not> f_leq (f_Abs (Fin 1)) (Fin (1152921504606847 / 1152921504606846976))"
    unfolding f_lit_1e12 by code_simp+
  then show ?thesis
    unfolding PlanSmear_from_rest [OF sample_limits [symmetric] sample_displacement [symmetric]] sample_stages by simp
qed

subsection \<open>Arrival\<close>

text \<open>C33: (\<open>PlanSmear\<close>, \<open>EvaluateBiasAt\<close>) A smear plan arrives. For limits of 1 ppm (rate) and 1/1024 ppm per second
  (wander) up to 100000 ppm and targets of up to \<open>2^40\<close> nanoseconds of either sign, a microsecond after the end of its last
  segment the plan yields exactly the target, in float64 with all its roundings, whether the plan is triangular or
  trapezoidal. (At the zero target there is no segment.)\<close>
theorem smear_plan_reaches_target:
  assumes "f_finite maxRate" "1 \<le> f_val maxRate" "f_val maxRate \<le> 100000"
    and "f_finite maxWander" "1 / 2 ^ 10 \<le> f_val maxWander" "f_val maxWander \<le> 100000"
    and "\<bar>sint target\<bar> \<le> 2 ^ 40" "uint start \<le> 2 ^ 60"
    and "\<forall>s \<in> set (sp_Segments (PlanSmear start target maxRate maxWander)). segment_end s + 1000 \<le> uint r" "uint r < 2 ^ 63"
  shows "EvaluateBiasAt (PlanSmear start target maxRate maxWander) r = target"
proof (cases "sint target = 0")
  case True
  then have "target = 0" by (metis sint_0 sint_eqI)
  moreover have "f_less (f_Abs (f_sub (f_div (f_of_i64 0) (f_lit 1000000000)) (f_lit 0))) (f_lit (1 / 10 ^ 12))" by code_simp
  ultimately show ?thesis by (simp only: EvaluateBiasAt_def PlanSmear_from_rest [OF refl refl refl] if_True SmearPlan.simps simp_thms if_True)
next
  case False
  define \<sigma> n where "\<sigma> = sgn (sint target)" and "n = \<bar>sint target\<bar>"
  have \<sigma>: "\<sigma> = 1 \<or> \<sigma> = - 1" "sint target = \<sigma> * n" and n: "1 \<le> n" "n \<le> 2 ^ 40"
    using False assms(7) by (auto simp: \<sigma>_def n_def sgn_if)
  define R W D where "R = limit_or (f_lit (100 / 10 ^ 6)) (f_mul maxRate (f_lit (1 / 10 ^ 6)))"
    and "W = limit_or (f_lit (10 / 10 ^ 6)) (f_mul maxWander (f_lit (1 / 10 ^ 6)))"
    and "D = f_sub (f_div (f_of_i64 target) (f_lit 1000000000)) (f_lit 0)"
  define \<delta> where "\<delta> = rnd (of_int n / 1000000000)"
  have R: "f_within 0 R" "2 powi (- 20) \<le> f_val R" "f_val R \<le> 2 powi (- 3)"
    unfolding R_def using limit_or_val [OF assms(1), of 0] assms(2,3) by simp_all
  have W: "f_within 0 W" "rnd (f_val W) = f_val W" "2 powi (- 30) \<le> f_val W" "f_val W \<le> 2 powi (- 3)"
    unfolding W_def using limit_or_val [OF assms(4), of "- 10"] assms(5,6) by simp_all
  note D = displacement_val [OF n \<sigma>, folded D_def \<delta>_def]
  define segs where "segs = (if f_leq (f_Abs D) (f_mul R (f_div R W)) then triangular start (Fin 0) D W
    else trapezoidal start (Fin 0) D R W (f_div R W) (f_mul R (f_div R W)))"
  have "f_finite (f_Abs D)" "f_val (f_Abs D) = \<delta>"
    using D(1,2) \<sigma>(1) less_le_trans [OF powi_2_pos D(3)] by (auto simp: float_val abs_mult)
  note aD = this and area = ramp_area_val [OF W(1,3,4) R]
  have "\<not> f_less (f_Abs D) (f_lit (1 / 10 ^ 12))"
  proof -
    have "(4951760157141521 / 4951760157141521099596496896 :: rat) \<le> 2 powi (- 30)" by simp
    then show ?thesis using D(3) aD by (simp add: f_lit_1e12 [simplified] f_less_val)
  qed
  then have plan: "PlanSmear start target maxRate maxWander = \<lparr>sp_Segments = segs, sp_TerminalBiasNs = target, sp_ResidualNs = 0\<rparr>"
    by (simp only: PlanSmear_from_rest [OF R_def W_def D_def] segs_def if_False)
  have fR: "f_finite R" using R(1) by (simp add: f_within_def)
  have reach: "reaches start segs \<sigma> \<delta>"
  proof (cases "f_leq (f_Abs D) (f_mul R (f_div R W))")
    case True
    then show ?thesis using triangular_reaches [OF \<sigma>(1) W D(1-4)] by (simp add: segs_def)
  next
    case False
    then have "rnd (f_val R * rnd (f_val R / f_val W)) < \<delta>" using aD area by (simp add: f_leq_val not_le)
    then show ?thesis using trapezoidal_reaches [OF \<sigma>(1) W fR R(2,3) D(1,2) _ D(4)] False by (simp add: segs_def \<delta>_def)
  qed
  obtain \<beta> where b: "chained start segs" "segs \<noteq> []" "length segs \<le> 3"
    "f_within 100 (snd (Segment_Evaluate (last segs) (sg_DurationSec (last segs))))"
    "f_val (snd (Segment_Evaluate (last segs) (sg_DurationSec (last segs)))) = of_int \<sigma> * \<beta>" "near 11 \<delta> \<beta>"
    using reach unfolding reaches_def by blast
  have "uint start + int (length segs) * 2 ^ 61 < 2 ^ 63" using assms(8) b(3) by simp
  from bias_after_chain [OF b(1,2) this, of r target]
  have "bias_loop target segs r = f_to_i64 (f_Round (f_mul (snd (Segment_Evaluate (last segs) (sg_DurationSec (last segs)))) (f_lit 1000000000)))"
    using assms(9,10) last_in_set [OF b(2)] by (simp add: plan)
  also have "\<dots> = target"
  proof (rule bias_to_target [OF \<sigma>(1) b(4,5) _ n \<sigma>(2)])
    show "near 12 (of_int n / 1000000000) \<beta>" using near_trans [OF D(5) b(6)] by (rule near_mono) simp
  qed
  finally show ?thesis using b(2) by (simp add: EvaluateBiasAt_def plan)
qed

lemma smear_plan_reaches_target_witness:
  "EvaluateBiasAt (PlanSmear 1000000000 1000000000 (Fin 100) (Fin 10)) 20000000000000 = 1000000000"
proof (rule smear_plan_reaches_target)
  show "\<forall>s \<in> set (sp_Segments (PlanSmear 1000000000 1000000000 (Fin 100) (Fin 10))). segment_end s + 1000 \<le> uint (20000000000000 :: 64 word)"
    unfolding sample_plan by (simp add: trapezoidal_def Let_def split_beta sample_stages segment_end_def sample_durations)
qed simp_all

end
