(* ===== verification/Clock.thy ===== *)
theory Clock
  imports FixedPoint Float64 Smear
begin

text \<open>
  Package clock: raw readings and the raw clock backends (\<open>clock/raw.go\<close>, \<open>clock/raw_linux.go\<close>),
  the continuity guard in front of a backend (\<open>clock/continuity.go\<close>), the estimate mapping and
  its transitions (\<open>clock/estimate.go\<close>) and the monotonic clamp of the public clock
  (\<open>clock/public.go\<close>), whose smear plans are in \<open>Smear\<close>.
\<close>

subsection \<open>Raw readings and the simulated backend\<close>

record RawReading =
  rr_Raw :: RawNanos
  rr_ReadBound :: ErrorNs
  rr_ContinuityToken :: u64
  rr_BackendGeneration :: u64

record SimulatedRawClock =
  sim_currentRaw :: RawNanos
  sim_readBound :: ErrorNs
  sim_continuityToken :: u64
  sim_backendGeneration :: u64
  sim_scaleLower :: RateScale
  sim_scaleUpper :: RateScale

definition scale_lower :: "float64 \<Rightarrow> RateScale" where
  "scale_lower ppm = OneQ48 + RateFromPpmLower ppm"

definition scale_upper :: "float64 \<Rightarrow> RateScale" where
  "scale_upper ppm = OneQ48 + RateFromPpmUpper ppm"

definition NewSimulatedRawClock :: "RawNanos \<Rightarrow> SimulatedRawClock" where
  "NewSimulatedRawClock raw0 =
    \<lparr>sim_currentRaw = raw0, sim_readBound = 100, sim_continuityToken = 1, sim_backendGeneration = 1,
     sim_scaleLower = scale_lower (f_lit (- 50)), sim_scaleUpper = scale_upper (f_lit 50)\<rparr>"

definition Simulated_Read :: "SimulatedRawClock \<Rightarrow> RawReading" where
  "Simulated_Read s =
    \<lparr>rr_Raw = sim_currentRaw s, rr_ReadBound = sim_readBound s,
     rr_ContinuityToken = sim_continuityToken s, rr_BackendGeneration = sim_backendGeneration s\<rparr>"

definition Simulated_ScaleEnvelope :: "SimulatedRawClock \<Rightarrow> RateScale \<times> RateScale" where
  "Simulated_ScaleEnvelope s = (sim_scaleLower s, sim_scaleUpper s)"

definition Simulated_SetScaleEnvelope :: "RateScale \<Rightarrow> RateScale \<Rightarrow> SimulatedRawClock \<Rightarrow> SimulatedRawClock" where
  "Simulated_SetScaleEnvelope low upp s = s\<lparr>sim_scaleLower := low, sim_scaleUpper := upp\<rparr>"

definition Simulated_Advance :: "RawNanos \<Rightarrow> SimulatedRawClock \<Rightarrow> SimulatedRawClock" where
  "Simulated_Advance d s = s\<lparr>sim_currentRaw := sim_currentRaw s + d\<rparr>"

definition Simulated_Rewind :: "RawNanos \<Rightarrow> SimulatedRawClock \<Rightarrow> SimulatedRawClock" where
  "Simulated_Rewind d s =
    (if sim_currentRaw s < d then s\<lparr>sim_currentRaw := 0\<rparr>
     else s\<lparr>sim_currentRaw := sim_currentRaw s - d\<rparr>)"

definition Simulated_SetRaw :: "RawNanos \<Rightarrow> SimulatedRawClock \<Rightarrow> SimulatedRawClock" where
  "Simulated_SetRaw raw s = s\<lparr>sim_currentRaw := raw\<rparr>"

definition Simulated_SetContinuityToken :: "u64 \<Rightarrow> SimulatedRawClock \<Rightarrow> SimulatedRawClock" where
  "Simulated_SetContinuityToken tok s =
    s\<lparr>sim_continuityToken := tok, sim_backendGeneration := sim_backendGeneration s + 1\<rparr>"

text \<open>
  The system backends read the operating system: the elapsed nanoseconds of the monotonic clock
  (\<open>time.Since\<close>), or the boot-time clock with the wall clock as a fallback, are arguments.
\<close>

record SystemRawClock =
  sys_startRaw :: RawNanos

definition System_Read :: "SystemRawClock \<Rightarrow> i64 \<Rightarrow> RawReading" where
  "System_Read c elapsed0 =
    (let elapsed = (if elapsed0 <s 0 then 0 else elapsed0)
     in \<lparr>rr_Raw = sys_startRaw c + elapsed, rr_ReadBound = 1000, rr_ContinuityToken = 1,
         rr_BackendGeneration = 1\<rparr>)"

definition System_ScaleEnvelope :: "RateScale \<times> RateScale" where
  "System_ScaleEnvelope = (scale_lower (f_lit (- 200)), scale_upper (f_lit 200))"

definition NewSystemRawClock :: SystemRawClock where
  "NewSystemRawClock = \<lparr>sys_startRaw = 1000000000\<rparr>"

record LinuxBootRawClock =
  boot_startNanos :: i64
  boot_startRaw :: RawNanos

text \<open>\<open>boottimeNanos\<close>: a system call that yields seconds and nanoseconds, or an error.\<close>

definition boottimeNanos :: "go_error + i64 \<times> i64 \<Rightarrow> go_error + i64" where
  "boottimeNanos sys = (case sys of Inl e \<Rightarrow> Inl e | Inr (sec, nsec) \<Rightarrow> Inr (sec * 1000000000 + nsec))"

definition NewLinuxBootRawClock :: "go_error + i64 \<times> i64 \<Rightarrow> go_error + LinuxBootRawClock" where
  "NewLinuxBootRawClock sys =
    (case boottimeNanos sys of
       Inl e \<Rightarrow> Inl e
     | Inr now \<Rightarrow> Inr \<lparr>boot_startNanos = now, boot_startRaw = 1000000000\<rparr>)"

definition LinuxBoot_Read :: "LinuxBootRawClock \<Rightarrow> go_error + i64 \<times> i64 \<Rightarrow> i64 \<Rightarrow> RawReading" where
  "LinuxBoot_Read c sys wallNanos =
    (let now = (case boottimeNanos sys of Inl _ \<Rightarrow> wallNanos | Inr n \<Rightarrow> n);
         elapsed0 = now - boot_startNanos c;
         elapsed = (if elapsed0 <s 0 then 0 else elapsed0)
     in \<lparr>rr_Raw = boot_startRaw c + elapsed, rr_ReadBound = 1000, rr_ContinuityToken = 1,
         rr_BackendGeneration = 1\<rparr>)"

definition LinuxBoot_ScaleEnvelope :: "RateScale \<times> RateScale" where
  "LinuxBoot_ScaleEnvelope = (scale_lower (f_lit (- 200)), scale_upper (f_lit 200))"

text \<open>Whether a backend's counter includes the time the system is suspended.\<close>

definition Simulated_IncludesSuspend :: bool where "Simulated_IncludesSuspend = True"

definition System_IncludesSuspend :: bool where "System_IncludesSuspend = False"

definition LinuxBoot_IncludesSuspend :: bool where "LinuxBoot_IncludesSuspend = True"

subsection \<open>The continuity guard\<close>

record ContinuityGuard =
  cg_token :: u64
  cg_initialized :: bool
  cg_lastRaw :: i64
  cg_lastToken :: u64
  cg_lastGen :: u64

definition NewContinuityGuard :: ContinuityGuard where
  "NewContinuityGuard = \<lparr>cg_token = 1, cg_initialized = False, cg_lastRaw = 0, cg_lastToken = 0, cg_lastGen = 0\<rparr>"

definition isDiscontinuousReading :: "i64 \<Rightarrow> i64 \<Rightarrow> u64 \<Rightarrow> u64 \<Rightarrow> u64 \<Rightarrow> u64 \<Rightarrow> bool" where
  "isDiscontinuousReading curRaw prevRaw curToken prevToken curGen prevGen =
    (if curRaw <s prevRaw then True
     else if curToken \<noteq> prevToken then True
     else curGen \<noteq> prevGen)"

text \<open>
  \<open>Read\<close> with the backend's reading \<open>r\<close> as an argument, for calls that do not overlap (a
  compare-and-swap on a value just loaded then succeeds). Overlapping calls are treated below.
\<close>

definition Guard_Read :: "ContinuityGuard \<Rightarrow> RawReading \<Rightarrow> RawReading \<times> ContinuityGuard" where
  "Guard_Read g r =
    (let curRaw = rr_Raw r in
     if \<not> cg_initialized g
     then let g' = g\<lparr>cg_lastRaw := curRaw, cg_lastToken := rr_ContinuityToken r,
                cg_lastGen := rr_BackendGeneration r, cg_initialized := True\<rparr>
          in (r\<lparr>rr_ContinuityToken := cg_token g'\<rparr>, g')
     else
       let g' = (if isDiscontinuousReading curRaw (cg_lastRaw g) (rr_ContinuityToken r) (cg_lastToken g)
                       (rr_BackendGeneration r) (cg_lastGen g)
                 then g\<lparr>cg_token := cg_token g + 1, cg_lastRaw := curRaw,
                        cg_lastToken := rr_ContinuityToken r, cg_lastGen := rr_BackendGeneration r\<rparr>
                 else if cg_lastRaw g <s curRaw then g\<lparr>cg_lastRaw := curRaw\<rparr>
                 else g)
       in (r\<lparr>rr_ContinuityToken := cg_token g'\<rparr>, g'))"

subsection \<open>The estimate mapping\<close>

datatype MappingChangeKind =
    ChangeRateReanchor | ChangeSlewReplan | ChangePhaseStep | ChangeRawDiscontinuity | ChangePublicOnly

record EstimateMapping =
  em_RawAnchor :: RawNanos
  em_TimeAnchor :: GstInstant
  em_BaseRate :: RateFrac
  em_PhaseDebt :: PhaseNs
  em_SlewRate :: RateFrac
  em_SlewStartRaw :: RawNanos
  em_MappingGeneration :: Generation
  em_LastChangeKind :: MappingChangeKind

definition SlewApplied :: "EstimateMapping \<Rightarrow> RawNanos \<Rightarrow> i64" where
  "SlewApplied m r =
    (if em_PhaseDebt m = 0 \<or> r \<le> em_SlewStartRaw m then 0
     else
       let slewDr = r - em_SlewStartRaw m;
           reqApplied = (case MulRateDurationFloor (em_SlewRate m) slewDr of
                           Inl _ \<Rightarrow> em_PhaseDebt m | Inr x \<Rightarrow> x)
       in if 0 <s em_PhaseDebt m
          then let x = (if reqApplied <s 0 then 0 else reqApplied)
               in if em_PhaseDebt m <s x then em_PhaseDebt m else x
          else let x = (if 0 <s reqApplied then 0 else reqApplied)
               in if x <s em_PhaseDebt m then em_PhaseDebt m else x)"

definition Evaluate :: "EstimateMapping \<Rightarrow> RawNanos \<Rightarrow> go_error + GstInstant" where
  "Evaluate m r =
    (let dr = r - em_RawAnchor m;
         adv = (if 0 \<le>s dr
                then MulScaleDurationFloor (OneQ48 + em_BaseRate m) dr
                else (case MulRateDurationFloor (em_BaseRate m) dr of
                        Inl e \<Rightarrow> Inl e
                      | Inr b \<Rightarrow> Inr (b + dr)))
     in case adv of
          Inl e \<Rightarrow> Inl e
        | Inr baseAdvance \<Rightarrow> Inr (em_TimeAnchor m + baseAdvance + SlewApplied m r))"

text \<open>
  The slew rate planned for a debt: the debt spread over ten seconds, computed in float64,
  truncated to an \<open>int64\<close> and clamped to a twelfth. A conversion of a float that does not fit an
  \<open>int64\<close> is implementation-dependent in Go; \<open>oor\<close> is the value the implementation gives.
\<close>

definition maxSlewQ48 :: RateFrac where
  "maxSlewQ48 = go_quot OneQ48 12"

definition planSlewRate :: "(int \<Rightarrow> i64) \<Rightarrow> PhaseNs \<Rightarrow> RateFrac" where
  "planSlewRate oor debt =
    (if debt = 0 then 0
     else
       let (m, k) = f64_quot (f64_round \<bar>sint debt\<bar>) 10000000000;
           t = m * 2 ^ 48 div 2 ^ k;
           v = (if debt <s 0 then - t else t);
           desiredQ48 = (if in_i64 v then word_of_int v else oor v)
       in if maxSlewQ48 <s desiredQ48 then maxSlewQ48
          else if desiredQ48 <s - maxSlewQ48 then - maxSlewQ48
          else desiredQ48)"

definition NewEstimateClock :: EstimateMapping where
  "NewEstimateClock =
    \<lparr>em_RawAnchor = 0, em_TimeAnchor = 0, em_BaseRate = 0, em_PhaseDebt = 0, em_SlewRate = 0,
     em_SlewStartRaw = 0, em_MappingGeneration = 1, em_LastChangeKind = ChangeRateReanchor\<rparr>"

definition InitializeAnchors ::
  "EstimateMapping \<Rightarrow> RawNanos \<Rightarrow> GstInstant \<Rightarrow> RateFrac \<Rightarrow> EstimateMapping" where
  "InitializeAnchors c raw0 target baseRate =
    \<lparr>em_RawAnchor = raw0, em_TimeAnchor = target, em_BaseRate = baseRate, em_PhaseDebt = 0,
     em_SlewRate = 0, em_SlewStartRaw = raw0, em_MappingGeneration = em_MappingGeneration c + 1,
     em_LastChangeKind = ChangeRateReanchor\<rparr>"

definition ReanchorContinuity ::
  "(int \<Rightarrow> i64) \<Rightarrow> EstimateMapping \<Rightarrow> RawNanos \<Rightarrow> RateFrac \<Rightarrow> PhaseNs \<Rightarrow> MappingChangeKind \<Rightarrow>
    (go_error + GstInstant) \<times> EstimateMapping" where
  "ReanchorContinuity oor c cRaw newBaseRate addedDebt changeKind =
    (case Evaluate c cRaw of
       Inl e \<Rightarrow> (Inl e, c)
     | Inr oldValue \<Rightarrow>
       let appliedSlew = SlewApplied c cRaw;
           remainingDebt = em_PhaseDebt c - appliedSlew;
           newDebt = remainingDebt + addedDebt;
           newSlewRate = planSlewRate oor newDebt
       in (Inr oldValue,
           \<lparr>em_RawAnchor = cRaw, em_TimeAnchor = oldValue, em_BaseRate = newBaseRate,
            em_PhaseDebt = newDebt, em_SlewRate = newSlewRate, em_SlewStartRaw = cRaw,
            em_MappingGeneration = em_MappingGeneration c + 1, em_LastChangeKind = changeKind\<rparr>))"

definition Step :: "EstimateMapping \<Rightarrow> RawNanos \<Rightarrow> PhaseNs \<Rightarrow> (go_error + GstInstant) \<times> EstimateMapping" where
  "Step c cRaw step =
    (case Evaluate c cRaw of
       Inl e \<Rightarrow> (Inl e, c)
     | Inr oldValue \<Rightarrow>
       (Inr (oldValue + step),
        \<lparr>em_RawAnchor = cRaw, em_TimeAnchor = oldValue + step, em_BaseRate = em_BaseRate c,
         em_PhaseDebt = 0, em_SlewRate = 0, em_SlewStartRaw = cRaw,
         em_MappingGeneration = em_MappingGeneration c + 1, em_LastChangeKind = ChangePhaseStep\<rparr>))"

subsection \<open>The public clock\<close>

text \<open>
  \<open>ReadPublicInstant\<close> with the stored plan, for a call that is not interrupted between its load and its
  compare-and-swap: the result, the clamp debt and the new \<open>lastPublic\<close>.
\<close>

definition smear_bias :: "SmearPlan option \<Rightarrow> RawNanos \<Rightarrow> PhaseNs" where
  "smear_bias plan raw = (case plan of None \<Rightarrow> 0 | Some sp \<Rightarrow> EvaluateBiasAt sp raw)"

definition ReadPublicInstant ::
  "SmearPlan option \<Rightarrow> i64 \<Rightarrow> GstInstant \<Rightarrow> RawNanos \<Rightarrow> GstInstant \<times> PhaseNs \<times> i64" where
  "ReadPublicInstant plan lastPublic estimate raw =
    (let candidate = estimate + smear_bias plan raw;
         returned = (if candidate <s lastPublic then lastPublic else candidate)
     in (returned, returned - candidate, returned))"

definition ComputePublicSymmetricEpsilon :: "GstInstant \<Rightarrow> TimeInterval option \<Rightarrow> ErrorNs \<Rightarrow> ErrorNs" where
  "ComputePublicSymmetricEpsilon p iv readBound =
    (case iv of
       None \<Rightarrow> ErrorInfinity
     | Some I \<Rightarrow>
       let d1 = \<bar>f64_of_int (sint (p - Earliest I))\<bar>;
           d2 = \<bar>f64_of_int (sint (Latest I - p))\<bar>
       in word_of_int (max d1 d2) + readBound)"

subsection \<open>The guard in front of a backend\<close>

text \<open>Reads one after another, on arbitrary readings of the backend.\<close>

fun Guard_Reads :: "ContinuityGuard \<Rightarrow> RawReading list \<Rightarrow> RawReading list \<times> ContinuityGuard" where
  "Guard_Reads g [] = ([], g)"
| "Guard_Reads g (r # rs) =
    (let (r', g1) = Guard_Read g r; (rs', g2) = Guard_Reads g1 rs in (r' # rs', g2))"

text \<open>
  The interface a backend offers its client: readings of a state, and the ways the state can change
  without a discontinuity. The laws are what makes a backend continuous: the raw counter does
  not run back, and token and generation stay.
\<close>

locale continuous_backend =
  fixes read :: "'b \<Rightarrow> RawReading"
    and moves :: "'b \<Rightarrow> 'b \<Rightarrow> bool"
    and good :: "'b \<Rightarrow> bool"
  assumes good_step: "good b \<Longrightarrow> moves b b' \<Longrightarrow> good b'"
    and raw_mono: "good b \<Longrightarrow> moves b b' \<Longrightarrow> sint (rr_Raw (read b)) \<le> sint (rr_Raw (read b'))"
    and same_token: "good b \<Longrightarrow> moves b b' \<Longrightarrow> rr_ContinuityToken (read b') = rr_ContinuityToken (read b)"
    and same_generation: "good b \<Longrightarrow> moves b b' \<Longrightarrow> rr_BackendGeneration (read b') = rr_BackendGeneration (read b)"
begin

lemma moves_rtranclp:
  assumes "moves\<^sup>*\<^sup>* b b'" "good b"
  shows "good b' \<and> sint (rr_Raw (read b)) \<le> sint (rr_Raw (read b'))
    \<and> rr_ContinuityToken (read b') = rr_ContinuityToken (read b)
    \<and> rr_BackendGeneration (read b') = rr_BackendGeneration (read b)"
  using assms
  by (induction rule: rtranclp_induct) (auto dest: good_step raw_mono same_token same_generation intro: order_trans)

definition follows :: "ContinuityGuard \<Rightarrow> 'b \<Rightarrow> bool" where
  "follows g b \<longleftrightarrow> good b \<and> cg_initialized g \<and> sint (cg_lastRaw g) = sint (rr_Raw (read b)) \<and>
    cg_lastToken g = rr_ContinuityToken (read b) \<and> cg_lastGen g = rr_BackendGeneration (read b)"

lemma follows_continuous:
  assumes "follows g b" "moves\<^sup>*\<^sup>* b b'"
  shows "follows (snd (Guard_Read g (read b'))) b'"
    and "cg_token (snd (Guard_Read g (read b'))) = cg_token g"
    and "rr_ContinuityToken (fst (Guard_Read g (read b'))) = cg_token g"
  using assms moves_rtranclp [OF assms(2)]
  by (auto simp: follows_def Guard_Read_def isDiscontinuousReading_def Let_def go_signed)

text \<open>One token for the whole stretch: no false alarm.\<close>

lemma follows_one_token:
  assumes "follows g b" "successively moves\<^sup>*\<^sup>* (b # bs)" "Guard_Reads g (map read bs) = (rs, g')"
  shows "cg_token g' = cg_token g \<and> (\<forall>r \<in> set rs. rr_ContinuityToken r = cg_token g)"
  using assms
proof (induction bs arbitrary: g b rs)
  case Nil
  then show ?case by simp
next
  case (Cons b1 bs)
  note st = follows_continuous [OF Cons.prems(1), of b1]
  obtain r1 g1 where g1: "Guard_Read g (read b1) = (r1, g1)" by fastforce
  obtain rs2 where rs2: "Guard_Reads g1 (map read bs) = (rs2, g')" "rs = r1 # rs2"
    using Cons.prems(3) g1 by (auto split: prod.splits)
  show ?case
    using Cons.IH [of g1 b1 rs2] st Cons.prems(2) g1 rs2 by (cases bs) auto
qed

lemma one_token:
  assumes "good b" "successively moves\<^sup>*\<^sup>* (b # bs)" "\<not> cg_initialized g" "Guard_Reads g (map read (b # bs)) = (rs, g')"
  shows "cg_token g' = cg_token g \<and> (\<forall>r \<in> set rs. rr_ContinuityToken r = cg_token g)"
proof -
  obtain r1 g1 where g1: "Guard_Read g (read b) = (r1, g1)" by fastforce
  obtain rs2 where rs2: "Guard_Reads g1 (map read bs) = (rs2, g')" "rs = r1 # rs2"
    using assms(4) g1 by (auto split: prod.splits)
  have "follows g1 b" "rr_ContinuityToken r1 = cg_token g" "cg_token g1 = cg_token g"
    using g1 assms(1,3) by (auto simp: Guard_Read_def follows_def Let_def)
  then show ?thesis
    using follows_one_token [OF _ assms(2) rs2(1)] rs2(2) by auto
qed

end

text \<open>Both kinds of backend keep the contract while nothing but the passing of time happens to them.\<close>

inductive sim_advances :: "SimulatedRawClock \<Rightarrow> SimulatedRawClock \<Rightarrow> bool" where
  "uint (sim_currentRaw s) + uint d < 2 ^ 63 \<Longrightarrow> sim_advances s (Simulated_Advance d s)"
| "sim_advances s (Simulated_SetScaleEnvelope low upp s)"

interpretation simulated: continuous_backend Simulated_Read sim_advances "\<lambda>s. uint (sim_currentRaw s) < 2 ^ 63"
proof (unfold_locales; erule sim_advances.cases)
  fix b b' s and d :: u64
  assume *: "b = s" "b' = Simulated_Advance d s" "uint (sim_currentRaw s) + uint d < 2 ^ 63" "uint (sim_currentRaw b) < 2 ^ 63"
  then have u: "uint (sim_currentRaw s + d) = uint (sim_currentRaw s) + uint d"
    by (intro uint_add_exact) (simp add: order_less_trans)
  with * show "uint (sim_currentRaw b') < 2 ^ 63" by (simp add: Simulated_Advance_def)
  show "sint (rr_Raw (Simulated_Read b)) \<le> sint (rr_Raw (Simulated_Read b'))"
    using * u by (simp add: Simulated_Read_def Simulated_Advance_def sint_eq_uint64)
qed (auto simp: Simulated_Read_def Simulated_Advance_def Simulated_SetScaleEnvelope_def)

text \<open>For the system clock the state is the elapsed time the operating system reports.\<close>

definition system_state :: "SystemRawClock \<times> i64 \<Rightarrow> bool" where
  "system_state s \<longleftrightarrow> sys_startRaw (fst s) = 1000000000 \<and> sint (snd s) < 2 ^ 63 - 1000000000"

definition system_elapses :: "SystemRawClock \<times> i64 \<Rightarrow> SystemRawClock \<times> i64 \<Rightarrow> bool" where
  "system_elapses s t \<longleftrightarrow> fst t = fst s \<and> snd s \<le>s snd t \<and> system_state t"

lemma System_Read_raw:
  assumes "system_state s"
  shows "sint (rr_Raw (System_Read (fst s) (snd s))) = 1000000000 + max 0 (sint (snd s))"
  using assms sint64_ge [of "snd s"]
  by (auto simp: system_state_def System_Read_def Let_def go_signed in_i64_def sint_add_exact)

interpretation system: continuous_backend "\<lambda>s. System_Read (fst s) (snd s)" system_elapses system_state
proof unfold_locales
  fix s t assume "system_state s" "system_elapses s t"
  then show "sint (rr_Raw (System_Read (fst s) (snd s))) \<le> sint (rr_Raw (System_Read (fst t) (snd t)))"
    using System_Read_raw [of s] System_Read_raw [of t] by (auto simp: system_elapses_def go_signed)
qed (auto simp: system_elapses_def System_Read_def Let_def)

subsection \<open>Properties of the guard\<close>

text \<open>No false alarm. Successive reads through the guard in front of the simulated backend, between
  which the backend only advances (without leaving the signed range) or changes its scale, all
  carry the token the guard started with.\<close>

theorem guard_keeps_token_while_continuous:
  assumes "successively sim_advances\<^sup>*\<^sup>* (b # bs)" "uint (sim_currentRaw b) < 2 ^ 63"
  shows "list_all (\<lambda>r. rr_ContinuityToken r = 1) (fst (Guard_Reads NewContinuityGuard (map Simulated_Read (b # bs))))"
proof -
  obtain rs g' where "Guard_Reads NewContinuityGuard (map Simulated_Read (b # bs)) = (rs, g')" by fastforce
  from simulated.one_token [OF assms(2,1) _ this] show ?thesis
    using \<open>_ = (rs, g')\<close> by (simp add: NewContinuityGuard_def list_all_iff)
qed

theorem guard_keeps_token_while_continuous_witness:
  "list_all (\<lambda>r. rr_ContinuityToken r = 1) (fst (Guard_Reads NewContinuityGuard
     (map Simulated_Read [NewSimulatedRawClock 5, Simulated_Advance 7 (NewSimulatedRawClock 5)])))"
proof -
  let ?b = "NewSimulatedRawClock 5"
  have "sim_advances ?b (Simulated_Advance 7 ?b)"
    by (rule sim_advances.intros) (simp add: NewSimulatedRawClock_def)
  then have "successively sim_advances\<^sup>*\<^sup>* [?b, Simulated_Advance 7 ?b]" by auto
  then show ?thesis
    by (rule guard_keeps_token_while_continuous) (simp add: NewSimulatedRawClock_def)
qed

text \<open>Detection: whatever the guard has seen, a reading that goes back, or comes with another token or
  generation than the last one, starts a new token.\<close>

lemma guard_token_step:
  "cg_initialized g \<Longrightarrow> Guard_Read g r = (r', g') \<Longrightarrow>
    cg_initialized g' \<and> rr_ContinuityToken r' = cg_token g' \<and>
    cg_token g' = cg_token g + (if isDiscontinuousReading (rr_Raw r) (cg_lastRaw g) (rr_ContinuityToken r) (cg_lastToken g)
      (rr_BackendGeneration r) (cg_lastGen g) then 1 else 0)"
  by (auto simp: Guard_Read_def Let_def split: if_splits)

lemma uint_token_step:
  assumes "uint (t :: u64) + int n < 2 ^ 64"
  shows "uint (t + of_nat n) = uint t + int n"
proof -
  have "int n < 2 ^ 64" using assms uint64_ge [of t] by linarith
  then have "n < 2 ^ 64" by simp
  then have "uint (of_nat n :: u64) = int n"
    by (simp add: unsigned_of_nat take_bit_nat_eq_self)
  with assms show ?thesis by (simp add: uint_word_ariths)
qed

lemma guard_reads_same_token:
  assumes "cg_initialized g" "Guard_Reads g rs = (rs', g')" "uint (cg_token g) + int (length rs) < 2 ^ 64"
  shows "cg_initialized g' \<and> uint (cg_token g) \<le> uint (cg_token g') \<and> uint (cg_token g') \<le> uint (cg_token g) + int (length rs) \<and>
    (cg_token g' = cg_token g \<longrightarrow>
      sint (cg_lastRaw g) \<le> sint (cg_lastRaw g') \<and> cg_lastToken g' = cg_lastToken g \<and> cg_lastGen g' = cg_lastGen g)"
  using assms
proof (induction rs arbitrary: g rs')
  case Nil
  then show ?case by simp
next
  case (Cons r rs)
  obtain r1 g1 where g1: "Guard_Read g r = (r1, g1)" by fastforce
  obtain rs2 where rs2: "Guard_Reads g1 rs = (rs2, g')" using Cons.prems(2) g1 by (auto split: prod.splits)
  note st = guard_token_step [OF Cons.prems(1) g1]
  have u1: "uint (cg_token g + 1) = uint (cg_token g) + 1"
    using uint_token_step [of "cg_token g" 1] Cons.prems(3) by simp
  let ?d = "isDiscontinuousReading (rr_Raw r) (cg_lastRaw g) (rr_ContinuityToken r) (cg_lastToken g)
      (rr_BackendGeneration r) (cg_lastGen g)"
  have tok: "uint (cg_token g1) = uint (cg_token g) + (if ?d then 1 else 0)"
    using st u1 by simp
  note IH = Cons.IH [of g1 rs2] 
  have I: "cg_initialized g' \<and> uint (cg_token g1) \<le> uint (cg_token g') \<and> uint (cg_token g') \<le> uint (cg_token g1) + int (length rs) \<and>
    (cg_token g' = cg_token g1 \<longrightarrow>
      sint (cg_lastRaw g1) \<le> sint (cg_lastRaw g') \<and> cg_lastToken g' = cg_lastToken g1 \<and> cg_lastGen g' = cg_lastGen g1)"
    using st rs2 tok Cons.prems(3) by (intro IH) (auto split: if_splits)
  have keep: "sint (cg_lastRaw g) \<le> sint (cg_lastRaw g1) \<and> cg_lastToken g1 = cg_lastToken g \<and> cg_lastGen g1 = cg_lastGen g"
    if "\<not> ?d"
    using g1 that Cons.prems(1) by (auto simp: Guard_Read_def Let_def go_signed isDiscontinuousReading_def split: if_splits)
  have same: "cg_token g1 = cg_token g \<and> \<not> ?d" if "cg_token g' = cg_token g"
    using that I tok st by (auto split: if_splits)
  show ?case
    using I tok keep same by (auto split: if_splits)
qed

lemma guard_last_raw:
  "Guard_Read g a = (a', g1) \<Longrightarrow> cg_initialized g1 \<and> cg_lastRaw g1 = rr_Raw a \<and> cg_lastToken g1 = rr_ContinuityToken a \<and>
    cg_lastGen g1 = rr_BackendGeneration a \<and> rr_ContinuityToken a' = cg_token g1 \<and>
    (cg_token g1 = cg_token g \<or> cg_token g1 = cg_token g + 1)"
  by (auto simp: Guard_Read_def Let_def isDiscontinuousReading_def go_signed sint_eq_iff64 split: if_splits)

text \<open>C18: detection. Of any two reads through the guard, with any number of reads in between, the two
  readings carry the same token only if the backend's raw counter at the second is not below the
  first and the backend gave both the same token and generation (the guard's 64-bit token counter not
  having wrapped, which takes 2^64 discontinuities).\<close>

theorem guard_detects_discontinuity:
  assumes "Guard_Read g a = (a', g1)" "Guard_Reads g1 rs = (rs', g2)" "Guard_Read g2 b = (b', g3)"
    and "uint (cg_token g) + int (length rs) + 2 < 2 ^ 64" "rr_ContinuityToken b' = rr_ContinuityToken a'"
  shows "sint (rr_Raw a) \<le> sint (rr_Raw b) \<and> rr_ContinuityToken a = rr_ContinuityToken b \<and>
    rr_BackendGeneration a = rr_BackendGeneration b"
proof -
  note a = guard_last_raw [OF assms(1)]
  have u: "uint (cg_token g1) \<le> uint (cg_token g) + 1"
    using a uint_token_step [of "cg_token g" 1] assms(4) by auto
  note mid = guard_reads_same_token [OF conjunct1 [OF a] assms(2)]
  have m: "cg_initialized g2 \<and> uint (cg_token g1) \<le> uint (cg_token g2) \<and> uint (cg_token g2) \<le> uint (cg_token g1) + int (length rs) \<and>
    (cg_token g2 = cg_token g1 \<longrightarrow>
      sint (cg_lastRaw g1) \<le> sint (cg_lastRaw g2) \<and> cg_lastToken g2 = cg_lastToken g1 \<and> cg_lastGen g2 = cg_lastGen g1)"
    using u assms(4) by (intro mid) linarith
  note st = guard_token_step [OF conjunct1 [OF m] assms(3)]
  let ?d = "isDiscontinuousReading (rr_Raw b) (cg_lastRaw g2) (rr_ContinuityToken b) (cg_lastToken g2)
      (rr_BackendGeneration b) (cg_lastGen g2)"
  have u2: "uint (cg_token g2 + 1) = uint (cg_token g2) + 1"
    using uint_token_step [of "cg_token g2" 1] m u assms(4) by simp
  have eq: "cg_token g3 = cg_token g1"
    using st a assms(5) by simp
  have nd: "\<not> ?d"
  proof
    assume "?d"
    then have "uint (cg_token g3) = uint (cg_token g2) + 1" using st u2 by simp
    with eq m show False by simp
  qed
  then have "cg_token g2 = cg_token g1" using st eq by simp
  with m a nd show ?thesis
    by (auto simp: isDiscontinuousReading_def go_signed split: if_splits)
qed

definition sample_reading :: "u64 \<Rightarrow> RawReading" where
  "sample_reading raw = \<lparr>rr_Raw = raw, rr_ReadBound = 100, rr_ContinuityToken = 1, rr_BackendGeneration = 1\<rparr>"

definition sample_guard :: ContinuityGuard where
  "sample_guard = snd (Guard_Read NewContinuityGuard (sample_reading 5))"

theorem guard_detects_discontinuity_witness: "sint (rr_Raw (sample_reading 5)) \<le> sint (rr_Raw (sample_reading 9))"
proof -
  have "Guard_Read NewContinuityGuard (sample_reading 5) = (sample_reading 5, sample_guard)"
    "Guard_Reads sample_guard [sample_reading 7] = ([sample_reading 7], snd (Guard_Read sample_guard (sample_reading 7)))"
    "Guard_Read (snd (Guard_Read sample_guard (sample_reading 7))) (sample_reading 9) =
       (sample_reading 9, snd (Guard_Read (snd (Guard_Read sample_guard (sample_reading 7))) (sample_reading 9)))"
    "rr_ContinuityToken (sample_reading 9) = rr_ContinuityToken (sample_reading 5)"
    by code_simp+
  from guard_detects_discontinuity [OF this(1-3) _ this(4)] show ?thesis
    by (simp add: NewContinuityGuard_def)
qed

subsection \<open>Overlapping reads through the guard\<close>

text \<open>
  \<open>Read\<close> at the granularity of its atomic operations: after the backend has been read, each load,
  store, addition and compare-and-swap is one step of its thread.
\<close>

datatype guard_pc =
    GBackend RawReading
  | GInitRaw RawReading | GInitToken RawReading | GInitGen RawReading | GInitFlag RawReading
  | GLoadRaw RawReading | GLoadToken RawReading i64 | GLoadGen RawReading i64 u64
  | GAdd RawReading | GStoreRaw RawReading | GStoreToken RawReading | GStoreGen RawReading
  | GSwap RawReading i64
  | GResult RawReading
  | GDone RawReading

fun guard_atomic :: "ContinuityGuard \<times> guard_pc \<Rightarrow> ContinuityGuard \<times> guard_pc" where
  "guard_atomic (g, GBackend r) = (g, if \<not> cg_initialized g then GInitRaw r else GLoadRaw r)"
| "guard_atomic (g, GInitRaw r) = (g\<lparr>cg_lastRaw := rr_Raw r\<rparr>, GInitToken r)"
| "guard_atomic (g, GInitToken r) = (g\<lparr>cg_lastToken := rr_ContinuityToken r\<rparr>, GInitGen r)"
| "guard_atomic (g, GInitGen r) = (g\<lparr>cg_lastGen := rr_BackendGeneration r\<rparr>, GInitFlag r)"
| "guard_atomic (g, GInitFlag r) = (g\<lparr>cg_initialized := True\<rparr>, GResult r)"
| "guard_atomic (g, GLoadRaw r) = (g, GLoadToken r (cg_lastRaw g))"
| "guard_atomic (g, GLoadToken r prevRaw) = (g, GLoadGen r prevRaw (cg_lastToken g))"
| "guard_atomic (g, GLoadGen r prevRaw prevToken) =
     (g, if isDiscontinuousReading (rr_Raw r) prevRaw (rr_ContinuityToken r) prevToken
              (rr_BackendGeneration r) (cg_lastGen g)
         then GAdd r
         else if prevRaw <s rr_Raw r then GSwap r prevRaw
         else GResult r)"
| "guard_atomic (g, GAdd r) = (g\<lparr>cg_token := cg_token g + 1\<rparr>, GStoreRaw r)"
| "guard_atomic (g, GStoreRaw r) = (g\<lparr>cg_lastRaw := rr_Raw r\<rparr>, GStoreToken r)"
| "guard_atomic (g, GStoreToken r) = (g\<lparr>cg_lastToken := rr_ContinuityToken r\<rparr>, GStoreGen r)"
| "guard_atomic (g, GStoreGen r) = (g\<lparr>cg_lastGen := rr_BackendGeneration r\<rparr>, GResult r)"
| "guard_atomic (g, GSwap r prevRaw) =
     (if cg_lastRaw g = prevRaw then g\<lparr>cg_lastRaw := rr_Raw r\<rparr> else g, GResult r)"
| "guard_atomic (g, GResult r) = (g, GDone (r\<lparr>rr_ContinuityToken := cg_token g\<rparr>))"
| "guard_atomic (g, GDone r) = (g, GDone r)"

text \<open>A schedule names, step by step, the thread that moves.\<close>

fun run_guard :: "ContinuityGuard \<Rightarrow> guard_pc list \<Rightarrow> nat list \<Rightarrow> ContinuityGuard \<times> guard_pc list" where
  "run_guard g pcs [] = (g, pcs)"
| "run_guard g pcs (i # is) =
     (if i < length pcs
      then let (g', pc') = guard_atomic (g, pcs ! i) in run_guard g' (pcs[i := pc']) is
      else run_guard g pcs is)"

text \<open>The sequential model of the guard is what the atomic operations do when a read is not
  overlapped: run on its own, a read takes at most nine steps after the backend and ends with the
  result and the state of \<open>Guard_Read\<close>.\<close>

theorem guard_atomic_refines_read:
  "(guard_atomic ^^ 9) (g, GBackend r) = (let (r', g') = Guard_Read g r in (g', GDone r'))"
  by (simp add: numeral_eq_Suc Guard_Read_def Let_def)

text \<open>Overlapping reads can raise a false alarm. The backend only advances (raw counter 10, then
  20, same token and generation), but when the thread that read the backend first is overtaken,
  it takes its own older reading for a rewind: the token changes, and every anchor created
  under the old token is lost although the clock was continuous.\<close>

theorem overlapping_guard_reads_false_alarm:
  "run_guard sample_guard [GBackend (sample_reading 10), GBackend (sample_reading 20)]
     (replicate 9 1 @ replicate 9 0) =
   (sample_guard\<lparr>cg_token := 2, cg_lastRaw := 10\<rparr>,
    [GDone ((sample_reading 10)\<lparr>rr_ContinuityToken := 2\<rparr>), GDone (sample_reading 20)])"
  by code_simp

subsection \<open>The estimate mapping\<close>

lemma sint_maxSlewQ48: "sint maxSlewQ48 = 23456248059221"
  by (simp add: maxSlewQ48_def go_quot_def sint_OneQ48)

lemma sint_neg_maxSlew: "sint (- maxSlewQ48) = - 23456248059221"
  by (subst sint_neg_exact) (simp_all add: sint_maxSlewQ48 in_i64_def)

text \<open>Slewing never exceeds a twelfth, whatever an out-of-range conversion yields.\<close>

lemma planSlewRate_bounded: "\<bar>sint (planSlewRate oor debt)\<bar> \<le> sint maxSlewQ48"
proof -
  have clamp: "\<bar>sint (if maxSlewQ48 <s d then maxSlewQ48 else if d <s - maxSlewQ48 then - maxSlewQ48 else d)\<bar> \<le> sint maxSlewQ48" for d
    by (auto simp only: go_signed sint_neg_maxSlew sint_maxSlewQ48 split: if_splits)
  show ?thesis
    by (simp only: planSlewRate_def Let_def clamp split: prod.split if_split) (simp add: sint_maxSlewQ48)
qed

lemma planSlewRate_sign:
  assumes "\<And>v. \<not> in_i64 v \<Longrightarrow> 0 < v \<Longrightarrow> 0 \<le> sint (oor v)" "\<And>v. \<not> in_i64 v \<Longrightarrow> v < 0 \<Longrightarrow> sint (oor v) \<le> 0"
  shows "0 < sint debt \<Longrightarrow> 0 \<le> sint (planSlewRate oor debt)"
    and "sint debt < 0 \<Longrightarrow> sint (planSlewRate oor debt) \<le> 0"
proof -
  obtain m k where mk: "f64_quot (f64_round \<bar>sint debt\<bar>) 10000000000 = (m, k)" by fastforce
  define t where "t = m * 2 ^ 48 div 2 ^ k"
  let ?t = t
  have "0 \<le> m" using f64_quot_nonneg [OF f64_round_nonneg, of "\<bar>sint debt\<bar>" 10000000000] by (simp add: mk)
  then have t0: "0 \<le> t" by (simp add: t_def pos_imp_zdiv_nonneg_iff)
  have nz: "?t \<noteq> 0" if "\<not> in_i64 ?t" using that by (auto simp: in_i64_def)
  have pos: "0 \<le> sint (if in_i64 ?t then word_of_int ?t else oor ?t)"
    using assms(1) [of ?t] nz t0 by (auto simp: sint_of_int64)
  have inneg: "\<not> in_i64 (- ?t) \<Longrightarrow> - ?t < 0" using t0 by (cases "?t = 0") (auto simp: in_i64_def)
  have neg: "sint (if in_i64 (- ?t) then word_of_int (- ?t) else oor (- ?t)) \<le> 0"
    using assms(2) [of "- ?t"] inneg sint_of_int64 [of "- ?t"] t0 by auto
  show "0 < sint debt \<Longrightarrow> 0 \<le> sint (planSlewRate oor debt)"
    using pos unfolding planSlewRate_def mk Let_def prod.case t_def [symmetric]
    by (auto simp: go_signed sint_neg_maxSlew sint_maxSlewQ48)
  show "sint debt < 0 \<Longrightarrow> sint (planSlewRate oor debt) \<le> 0"
    using neg unfolding planSlewRate_def mk Let_def prod.case t_def [symmetric]
    by (auto simp: go_signed sint_neg_maxSlew sint_maxSlewQ48)
qed

text \<open>The slew applied, over the integers.\<close>

definition clamp_to_debt :: "int \<Rightarrow> int \<Rightarrow> int" where
  "clamp_to_debt debt x = (if 0 < debt then min debt (max 0 x) else max debt (min 0 x))"

lemma clamp_to_debt_lipschitz: "x \<le> y \<Longrightarrow> clamp_to_debt d y - clamp_to_debt d x \<le> y - x"
  and clamp_to_debt_mono: "x \<le> y \<Longrightarrow> clamp_to_debt d x \<le> clamp_to_debt d y"
  by (auto simp: clamp_to_debt_def)

lemma SlewApplied_int:
  assumes "uint r - uint (em_SlewStartRaw m) < 2 ^ 63" "0 \<le> sint (em_PhaseDebt m) * sint (em_SlewRate m)"
  shows "sint (SlewApplied m r) = clamp_to_debt (sint (em_PhaseDebt m))
    (sint (em_SlewRate m) * max 0 (uint r - uint (em_SlewStartRaw m)) div 2 ^ 48)"
proof (cases "em_PhaseDebt m = 0 \<or> r \<le> em_SlewStartRaw m")
  case True
  then show ?thesis
    by (auto simp: SlewApplied_def clamp_to_debt_def word_le_def)
next
  case False
  let ?dr = "uint r - uint (em_SlewStartRaw m)" and ?D = "sint (em_PhaseDebt m)"
  let ?q = "sint (em_SlewRate m) * ?dr div 2 ^ 48"
  have dr: "sint (r - em_SlewStartRaw m) = ?dr" "0 < ?dr"
    using False assms(1) uint_sub_exact [of "em_SlewStartRaw m" r]
    by (auto simp: word_le_def sint_eq_uint64)
  have D: "?D \<noteq> 0" using False by (simp add: sint_0_iff64)
  have sgn: "0 < ?D \<Longrightarrow> 0 \<le> ?q" "?D < 0 \<Longrightarrow> ?q \<le> 0"
  proof -
    assume "0 < ?D"
    with assms(2) have "0 \<le> sint (em_SlewRate m)" by (simp add: zero_le_mult_iff)
    with dr show "0 \<le> ?q" by (simp add: pos_imp_zdiv_nonneg_iff)
  next
    assume "?D < 0"
    with assms(2) have "sint (em_SlewRate m) \<le> 0" by (simp add: zero_le_mult_iff)
    with dr have "sint (em_SlewRate m) * ?dr \<le> 0" by (simp add: mult_le_0_iff)
    then have "?q \<le> 0 div 2 ^ 48" by (intro zdiv_mono1) simp_all
    then show "?q \<le> 0" by simp
  qed
  have ov: "clamp_to_debt ?D ?q = ?D" if "\<not> in_i64 ?q"
    using that sgn D sint64_ge [of "em_PhaseDebt m"] sint64_lt [of "em_PhaseDebt m"]
    by (cases "0 < ?D") (simp_all add: in_i64_def clamp_to_debt_def)
  show ?thesis
  proof (cases "in_i64 ?q")
    case True
    then show ?thesis
      using False dr D by (auto simp: SlewApplied_def MulRateDurationFloor_spec Let_def go_signed clamp_to_debt_def sint_of_int64)
  next
    case no: False
    then show ?thesis
      using False dr D ov [OF no] by (auto simp: SlewApplied_def MulRateDurationFloor_spec Let_def go_signed)
  qed
qed

text \<open>The slew of a mapping whose rate has the sign of its debt (as planned rates have, when
  conversions stay in range) moves from zero toward the debt, never back and never beyond it, and
  has paid the whole debt once the rate times the elapsed time reaches it.\<close>

theorem slew_pays_debt_monotonically:
  assumes "0 < sint (em_PhaseDebt m)" "0 \<le> sint (em_SlewRate m)" "r1 \<le> r2"
    and "uint r2 < uint (em_SlewStartRaw m) + 2 ^ 63"
  shows "0 \<le> sint (SlewApplied m r1) \<and> sint (SlewApplied m r1) \<le> sint (SlewApplied m r2) \<and>
    sint (SlewApplied m r2) \<le> sint (em_PhaseDebt m) \<and>
    (sint (em_PhaseDebt m) * 2 ^ 48 \<le> sint (em_SlewRate m) * (uint r2 - uint (em_SlewStartRaw m)) \<longrightarrow>
      SlewApplied m r2 = em_PhaseDebt m)"
proof -
  let ?s = "uint (em_SlewStartRaw m)" and ?D = "sint (em_PhaseDebt m)"
  have le: "uint r1 \<le> uint r2" using assms(3) by (simp add: word_le_def)
  have p: "0 \<le> ?D * sint (em_SlewRate m)" using assms by simp
  have S1: "sint (SlewApplied m r1) = clamp_to_debt ?D (sint (em_SlewRate m) * max 0 (uint r1 - ?s) div 2 ^ 48)"
    using assms(4) le p by (intro SlewApplied_int) simp_all
  have S2: "sint (SlewApplied m r2) = clamp_to_debt ?D (sint (em_SlewRate m) * max 0 (uint r2 - ?s) div 2 ^ 48)"
    using assms(4) p by (intro SlewApplied_int) simp_all
  have "sint (em_SlewRate m) * max 0 (uint r1 - ?s) \<le> sint (em_SlewRate m) * max 0 (uint r2 - ?s)"
    using le assms(2) by (intro mult_left_mono) simp_all
  then have mono: "sint (em_SlewRate m) * max 0 (uint r1 - ?s) div 2 ^ 48 \<le> sint (em_SlewRate m) * max 0 (uint r2 - ?s) div 2 ^ 48"
    by (intro zdiv_mono1) simp_all
  have full: "SlewApplied m r2 = em_PhaseDebt m" if h: "?D * 2 ^ 48 \<le> sint (em_SlewRate m) * (uint r2 - ?s)"
  proof -
    have "0 < sint (em_SlewRate m) * (uint r2 - ?s)"
      by (rule less_le_trans [OF _ h]) (use assms(1) in simp)
    then have "max 0 (uint r2 - ?s) = uint r2 - ?s"
      using assms(2) by (simp add: zero_less_mult_iff)
    moreover have "?D \<le> sint (em_SlewRate m) * (uint r2 - ?s) div 2 ^ 48"
      using h by (simp add: le_zdiv_iff)
    ultimately show ?thesis
      using S2 assms(1) by (simp add: clamp_to_debt_def sint_eq_iff64)
  qed
  have bounds: "0 \<le> clamp_to_debt ?D x" "clamp_to_debt ?D x \<le> ?D" for x
    using assms(1) by (simp_all add: clamp_to_debt_def)
  show ?thesis
    using bounds clamp_to_debt_mono [OF mono, of ?D] full unfolding S1 S2 by blast
qed

definition sample_mapping :: EstimateMapping where
  "sample_mapping =
    \<lparr>em_RawAnchor = 2000, em_TimeAnchor = 6000, em_BaseRate = 0, em_PhaseDebt = 600, em_SlewRate = 16888498,
     em_SlewStartRaw = 2000, em_MappingGeneration = 3, em_LastChangeKind = ChangeSlewReplan\<rparr>"

theorem slew_pays_debt_monotonically_witness:
  "SlewApplied sample_mapping 20000000000 = 600 \<and> 0 \<le> sint (SlewApplied sample_mapping 5000000000)"
proof -
  have "0 < sint (em_PhaseDebt sample_mapping)" "0 \<le> sint (em_SlewRate sample_mapping)"
    "uint (20000000000 :: u64) < uint (em_SlewStartRaw sample_mapping) + 2 ^ 63" "em_PhaseDebt sample_mapping = 600"
    "sint (em_PhaseDebt sample_mapping) * 2 ^ 48 \<le> sint (em_SlewRate sample_mapping) * (uint (20000000000 :: u64) - uint (em_SlewStartRaw sample_mapping))"
    by code_simp+
  with slew_pays_debt_monotonically [of sample_mapping 5000000000 20000000000] show ?thesis
    by (simp add: word_le_def)
qed

text \<open>Re-anchoring is continuous. When it succeeds, the old and the new mapping give the same
  value at the anchor, that value is the one returned, no debt is lost or invented (the new debt is
  the old less what has been slewed, plus the added debt), and the planned rate is at most a
  twelfth; when it fails nothing changes.\<close>

theorem reanchor_is_continuous:
  "case ReanchorContinuity oor c cRaw newRate added kind of
     (Inr v, c') \<Rightarrow> Evaluate c cRaw = Inr v \<and> Evaluate c' cRaw = Inr v \<and>
       em_PhaseDebt c' = em_PhaseDebt c - SlewApplied c cRaw + added \<and>
       em_MappingGeneration c' = em_MappingGeneration c + 1 \<and>
       \<bar>sint (em_SlewRate c')\<bar> \<le> sint (go_quot OneQ48 12)
   | (Inl e, c') \<Rightarrow> e = ErrOverflow \<and> c' = c"
proof (cases "Evaluate c cRaw")
  case (Inl e)
  then have "e = ErrOverflow"
    by (auto simp: Evaluate_def Let_def MulScaleDurationFloor_spec MulRateDurationFloor_spec split: sum.splits if_splits)
  with Inl show ?thesis by (simp add: ReanchorContinuity_def)
next
  case (Inr v)
  then show ?thesis
    using planSlewRate_bounded [of oor]
    by (simp add: ReanchorContinuity_def Let_def Evaluate_def SlewApplied_def MulScaleDurationFloor_spec
        in_i64_def maxSlewQ48_def)
qed

text \<open>A large debt is slewed the wrong way where an out-of-range float conversion yields
  \<open>MinInt64\<close> (as on amd64): from 327680 seconds of positive debt on, the planned rate is the
  negative maximum, so no correction is ever applied.\<close>

theorem planSlewRate_wrong_way:
  "planSlewRate (\<lambda>_. MinInt64) 327680000000000 = - maxSlewQ48 \<and>
   SlewApplied (snd (ReanchorContinuity (\<lambda>_. MinInt64) (InitializeAnchors NewEstimateClock 0 0 0) 0 0 327680000000000
     ChangeSlewReplan)) 5000000000 = 0"
  by code_simp

subsection \<open>Monotonicity of the estimate\<close>

text \<open>The value of a mapping over the integers, and the range in which the code computes it.\<close>

definition base_int :: "EstimateMapping \<Rightarrow> RawNanos \<Rightarrow> int" where
  "base_int m r = (2 ^ 48 + sint (em_BaseRate m)) * (uint r - uint (em_RawAnchor m)) div 2 ^ 48"

definition value_int :: "EstimateMapping \<Rightarrow> RawNanos \<Rightarrow> int" where
  "value_int m r = sint (em_TimeAnchor m) + base_int m r + sint (SlewApplied m r)"

lemma Evaluate_int:
  assumes "em_RawAnchor m \<le> r" "uint r < uint (em_RawAnchor m) + 2 ^ 63" "in_i64 (2 ^ 48 + sint (em_BaseRate m))"
    and "in_i64 (base_int m r)" "in_i64 (sint (em_TimeAnchor m) + base_int m r)" "in_i64 (value_int m r)"
  shows "\<exists>v. Evaluate m r = Inr v \<and> sint v = value_int m r"
proof -
  have "uint (r - em_RawAnchor m) = uint r - uint (em_RawAnchor m)"
    using assms(1) by (rule uint_sub_exact)
  then have dr: "sint (r - em_RawAnchor m) = uint r - uint (em_RawAnchor m)"
    using assms(2) by (simp add: sint_eq_uint64)
  have rate: "sint (OneQ48 + em_BaseRate m) = 2 ^ 48 + sint (em_BaseRate m)"
    using assms(3) by (subst sint_add_exact) (simp_all add: sint_OneQ48)
  have "0 \<le> uint r - uint (em_RawAnchor m)" using assms(1) by (simp add: word_le_def)
  then have "Evaluate m r = Inr (em_TimeAnchor m + word_of_int (base_int m r) + SlewApplied m r)"
    using assms(4) by (simp add: Evaluate_def Let_def go_signed dr MulScaleDurationFloor_spec rate base_int_def)
  moreover have "sint (em_TimeAnchor m + word_of_int (base_int m r)) = sint (em_TimeAnchor m) + base_int m r"
    using assms(4,5) by (subst sint_add_exact) (simp_all add: sint_of_int64)
  then have "sint (em_TimeAnchor m + word_of_int (base_int m r) + SlewApplied m r) = value_int m r"
    using assms(6) by (subst sint_add_exact) (simp_all add: value_int_def)
  ultimately show ?thesis by blast
qed

lemma floor_sum_step:
  assumes "0 \<le> n" "0 \<le> b + s" "(2 :: int) ^ 48 dvd b"
  shows "0 \<le> b * n div 2 ^ 48 + (s * (x + n) div 2 ^ 48 - s * x div 2 ^ 48)"
proof -
  obtain c where c: "b = 2 ^ 48 * c" using assms(3) by auto
  then have "b * n div 2 ^ 48 = c * n" by (simp add: mult.assoc)
  moreover have "s * x div 2 ^ 48 \<le> c * n + s * (x + n) div 2 ^ 48"
  proof -
    have "s * x \<le> s * (x + n) + 2 ^ 48 * (c * n)"
      using assms(1,2) c mult_right_mono [of 0 "b + s" n] by (simp add: algebra_simps)
    then have "s * x div 2 ^ 48 \<le> (s * (x + n) + 2 ^ 48 * (c * n)) div 2 ^ 48"
      by (intro zdiv_mono1) simp_all
    also have "\<dots> = c * n + s * (x + n) div 2 ^ 48"
      by (subst div_mult_self2) simp_all
    finally show ?thesis .
  qed
  ultimately show ?thesis by simp
qed

definition in_range :: "EstimateMapping \<Rightarrow> RawNanos \<Rightarrow> bool" where
  "in_range m r \<longleftrightarrow> em_RawAnchor m \<le> r \<and> uint r < uint (em_RawAnchor m) + 2 ^ 63 \<and>
    uint r < uint (em_SlewStartRaw m) + 2 ^ 63 \<and> in_i64 (2 ^ 48 + sint (em_BaseRate m)) \<and>
    in_i64 (base_int m r) \<and> in_i64 (sint (em_TimeAnchor m) + base_int m r) \<and> in_i64 (value_int m r)"

lemma slew_step:
  assumes "in_range m r1" "in_range m r2" "r1 \<le> r2" "0 \<le> sint (em_PhaseDebt m) * sint (em_SlewRate m)"
    and "- (2 ^ 48) \<le> sint (em_SlewRate m)"
  shows "sint (SlewApplied m r1) \<le> sint (SlewApplied m r2) + (uint r2 - uint r1)"
proof -
  let ?s = "sint (em_SlewRate m)" and ?x1 = "max 0 (uint r1 - uint (em_SlewStartRaw m))"
    and ?x2 = "max 0 (uint r2 - uint (em_SlewStartRaw m))" and ?D = "sint (em_PhaseDebt m)"
  have le: "uint r1 \<le> uint r2" using assms(3) by (simp add: word_le_def)
  have S: "sint (SlewApplied m r1) = clamp_to_debt ?D (?s * ?x1 div 2 ^ 48)"
    "sint (SlewApplied m r2) = clamp_to_debt ?D (?s * ?x2 div 2 ^ 48)"
    using assms(1,2,4) SlewApplied_int [of r1 m] SlewApplied_int [of r2 m] by (simp_all add: in_range_def)
  have "0 \<le> 2 ^ 48 * (?x2 - ?x1) div 2 ^ 48 + (?s * (?x1 + (?x2 - ?x1)) div 2 ^ 48 - ?s * ?x1 div 2 ^ 48)"
    using assms(5) le by (intro floor_sum_step) simp_all
  then have step: "?s * ?x1 div 2 ^ 48 \<le> ?s * ?x2 div 2 ^ 48 + (?x2 - ?x1)" by simp
  have "?x2 - ?x1 \<le> uint r2 - uint r1" "0 \<le> ?x2 - ?x1" using le by simp_all
  moreover have "clamp_to_debt ?D (?s * ?x1 div 2 ^ 48) \<le> clamp_to_debt ?D (?s * ?x2 div 2 ^ 48) + (?x2 - ?x1)"
    using step calculation(2) clamp_to_debt_lipschitz [of "?s * ?x2 div 2 ^ 48" "?s * ?x1 div 2 ^ 48" ?D]
      clamp_to_debt_mono [of "?s * ?x1 div 2 ^ 48" "?s * ?x2 div 2 ^ 48" ?D]
    by (cases "?s * ?x1 div 2 ^ 48 \<le> ?s * ?x2 div 2 ^ 48") linarith+
  ultimately show ?thesis unfolding S by linarith
qed

lemma base_step:
  assumes "r1 \<le> r2" "0 \<le> sint (em_BaseRate m)"
  shows "base_int m r1 + (uint r2 - uint r1) \<le> base_int m r2"
proof -
  let ?b = "sint (em_BaseRate m)" and ?n1 = "uint r1 - uint (em_RawAnchor m)" and ?n2 = "uint r2 - uint (em_RawAnchor m)"
  have le: "?n1 \<le> ?n2" using assms(1) by (simp add: word_le_def)
  have eq: "(2 ^ 48 + ?b) * n div 2 ^ 48 = n + ?b * n div 2 ^ 48" for n
    by (simp add: distrib_right)
  have "?b * ?n1 div 2 ^ 48 \<le> ?b * ?n2 div 2 ^ 48"
    using le assms(2) by (intro zdiv_mono1 mult_left_mono) simp_all
  then show ?thesis unfolding base_int_def eq by linarith
qed

lemma div_sum_superadditive: "a div m + b div m \<le> (a + b) div (m :: int)" if "0 < m"
proof -
  have "a div m * m + b div m * m \<le> a + b" using pos_mod_sign [OF that, of a] pos_mod_sign [OF that, of b] div_mult_mod_eq [of a m] div_mult_mod_eq [of b m]
    by linarith
  then show ?thesis using that by (simp add: le_zdiv_iff distrib_right)
qed

lemma div_sum_slack: "(a + b) div m \<le> a div m + b div (m :: int) + 1" if "0 < m"
proof -
  have "(a + b) div m * m \<le> a + b" using pos_mod_sign [OF that, of "a + b"] div_mult_mod_eq [of "a + b" m] by linarith
  moreover have "a < a div m * m + m" using pos_mod_bound [OF that, of a] div_mult_mod_eq [of a m] by linarith
  moreover have "b < b div m * m + m" using pos_mod_bound [OF that, of b] div_mult_mod_eq [of b m] by linarith
  ultimately have "(a + b) div m * m < (a div m + b div m + 2) * m" by (simp add: algebra_simps)
  then have "(a + b) div m < a div m + b div m + 2" using that mult_less_cancel_right_pos [OF that] by blast
  then show ?thesis by simp
qed

text \<open>The slew of a mapping falls between two readings by at most what its rate allows, rounded up.\<close>

lemma slew_fall:
  assumes "in_range m r1" "in_range m r2" "r1 \<le> r2" "0 \<le> sint (em_PhaseDebt m) * sint (em_SlewRate m)"
  shows "(- \<bar>sint (em_SlewRate m)\<bar>) * (uint r2 - uint r1) div 2 ^ 48 \<le> sint (SlewApplied m r2) - sint (SlewApplied m r1)"
proof -
  let ?s = "sint (em_SlewRate m)" and ?x1 = "max 0 (uint r1 - uint (em_SlewStartRaw m))"
    and ?x2 = "max 0 (uint r2 - uint (em_SlewStartRaw m))" and ?D = "sint (em_PhaseDebt m)"
  let ?d = "- \<bar>?s\<bar> * (uint r2 - uint r1) div 2 ^ 48"
  have le: "uint r1 \<le> uint r2" using assms(3) by (simp add: word_le_def)
  have S: "sint (SlewApplied m r1) = clamp_to_debt ?D (?s * ?x1 div 2 ^ 48)"
    "sint (SlewApplied m r2) = clamp_to_debt ?D (?s * ?x2 div 2 ^ 48)"
    using assms(1,2,4) SlewApplied_int [of r1 m] SlewApplied_int [of r2 m] by (simp_all add: in_range_def)
  have x: "0 \<le> ?x2 - ?x1" "?x2 - ?x1 \<le> uint r2 - uint r1" using le by simp_all
  have "- \<bar>?s\<bar> * (uint r2 - uint r1) \<le> - \<bar>?s\<bar> * (?x2 - ?x1)" using x by (intro mult_left_mono_neg) simp_all
  also have "\<dots> \<le> ?s * (?x2 - ?x1)" using x by (intro mult_right_mono) simp_all
  finally have "?d \<le> ?s * (?x2 - ?x1) div 2 ^ 48" by (intro zdiv_mono1) simp_all
  also have "\<dots> \<le> ?s * ?x2 div 2 ^ 48 - ?s * ?x1 div 2 ^ 48"
    using div_sum_superadditive [of "2 ^ 48" "?s * ?x1" "?s * (?x2 - ?x1)"] by (simp add: algebra_simps)
  finally have step: "?d \<le> ?s * ?x2 div 2 ^ 48 - ?s * ?x1 div 2 ^ 48" .
  have "- \<bar>?s\<bar> * (uint r2 - uint r1) \<le> 0" using le by (simp add: mult_nonneg_nonneg)
  then have d: "?d \<le> 0" using zdiv_mono1 [of "- \<bar>?s\<bar> * (uint r2 - uint r1)" 0 "2 ^ 48"] by simp
  show ?thesis
  proof (cases "?s * ?x1 div 2 ^ 48 \<le> ?s * ?x2 div 2 ^ 48")
    case True
    then show ?thesis unfolding S using clamp_to_debt_mono [OF True, of ?D] d by linarith
  next
    case False
    then show ?thesis unfolding S
      using clamp_to_debt_lipschitz [of "?s * ?x2 div 2 ^ 48" "?s * ?x1 div 2 ^ 48" ?D] step by linarith
  qed
qed

lemma base_rise:
  "(2 ^ 48 + sint (em_BaseRate m)) * (uint r2 - uint r1) div 2 ^ 48 \<le> base_int m r2 - base_int m r1"
  using div_sum_superadditive [of "2 ^ 48" "(2 ^ 48 + sint (em_BaseRate m)) * (uint r1 - uint (em_RawAnchor m))"
      "(2 ^ 48 + sint (em_BaseRate m)) * (uint r2 - uint r1)"]
  by (simp add: base_int_def algebra_simps)

text \<open>While the slew is no faster than the base rate, the two roundings together lose at most one nanosecond.\<close>

lemma value_fall:
  assumes "in_range m r1" "in_range m r2" "r1 \<le> r2" "0 \<le> sint (em_PhaseDebt m) * sint (em_SlewRate m)"
    and "\<bar>sint (em_SlewRate m)\<bar> \<le> 2 ^ 48 + sint (em_BaseRate m)"
  shows "value_int m r1 \<le> value_int m r2 + 1"
proof -
  let ?a = "(2 ^ 48 + sint (em_BaseRate m)) * (uint r2 - uint r1)" and ?b = "- \<bar>sint (em_SlewRate m)\<bar> * (uint r2 - uint r1)"
  have "0 \<le> (2 ^ 48 + sint (em_BaseRate m) - \<bar>sint (em_SlewRate m)\<bar>) * (uint r2 - uint r1)"
    using assms(3,5) by (intro mult_nonneg_nonneg) (simp_all add: word_le_def)
  then have "0 \<le> ?a + ?b" by (simp add: algebra_simps)
  then have "0 \<le> (?a + ?b) div 2 ^ 48" by (simp add: pos_imp_zdiv_nonneg_iff)
  then have "- 1 \<le> ?a div 2 ^ 48 + ?b div 2 ^ 48" using div_sum_slack [of "2 ^ 48" ?a ?b] by simp
  then show ?thesis using base_rise [of m r2 r1] slew_fall [OF assms(1-4)] unfolding value_int_def by linarith
qed


definition slewing_back :: EstimateMapping where
  "slewing_back = \<lparr>em_RawAnchor = 0, em_TimeAnchor = 0, em_BaseRate = - 140737488356, em_PhaseDebt = - 1000000,
     em_SlewRate = - 23456248059221, em_SlewStartRaw = 0, em_MappingGeneration = 1, em_LastChangeKind = ChangeSlewReplan\<rparr>"

lemma one_nanosecond_back: "Evaluate slewing_back 0 = Inr 0" "Evaluate slewing_back 1 = Inr (- 1)"
  by code_simp+


subsection \<open>The public clock under concurrent readers\<close>

text \<open>
  The loop of \<open>ReadPublicInstant\<close> at the granularity of its atomic operations: a reader with its
  candidate loads \<open>lastPublic\<close>, then tries the compare-and-swap, and starts over when it fails.
  The log lists the successful calls in the order of their compare-and-swaps.
\<close>

datatype public_pc = PIdle | PLoad i64 | PSwap i64 i64

record public_sys =
  ps_lastPublic :: i64
  ps_pc :: "nat \<Rightarrow> public_pc"
  ps_log :: "(i64 \<times> i64) list"   \<comment> \<open>candidate and returned value\<close>

definition public_max :: "i64 \<Rightarrow> i64 \<Rightarrow> i64" where
  "public_max old candidate = (if candidate <s old then old else candidate)"

inductive public_step :: "public_sys \<Rightarrow> public_sys \<Rightarrow> bool" where
  call: "ps_pc s t = PIdle \<Longrightarrow> public_step s (s\<lparr>ps_pc := (ps_pc s)(t := PLoad candidate)\<rparr>)"
| load: "ps_pc s t = PLoad candidate \<Longrightarrow>
    public_step s (s\<lparr>ps_pc := (ps_pc s)(t := PSwap candidate (ps_lastPublic s))\<rparr>)"
| swap: "ps_pc s t = PSwap candidate old \<Longrightarrow> ps_lastPublic s = old \<Longrightarrow>
    public_step s (s\<lparr>ps_lastPublic := public_max old candidate, ps_pc := (ps_pc s)(t := PIdle),
      ps_log := ps_log s @ [(candidate, public_max old candidate)]\<rparr>)"
| retry: "ps_pc s t = PSwap candidate old \<Longrightarrow> ps_lastPublic s \<noteq> old \<Longrightarrow>
    public_step s (s\<lparr>ps_pc := (ps_pc s)(t := PLoad candidate)\<rparr>)"

inductive_cases public_stepE: "public_step s s'"

definition public_init :: public_sys where
  "public_init = \<lparr>ps_lastPublic = 0, ps_pc = (\<lambda>_. PIdle), ps_log = []\<rparr>"

text \<open>The calls of a log made one after another with the sequential model.\<close>

fun sequential_reads :: "i64 \<Rightarrow> i64 list \<Rightarrow> (i64 \<times> i64) list \<times> i64" where
  "sequential_reads l [] = ([], l)"
| "sequential_reads l (c # cs) =
     (let (v, d, l') = ReadPublicInstant None l c 0; (rs, l'') = sequential_reads l' cs in ((c, v) # rs, l''))"

lemma sequential_reads_snoc:
  "sequential_reads l (cs @ [c]) =
    (let (rs, l') = sequential_reads l cs in (rs @ [(c, public_max l' c)], public_max l' c))"
  by (induction cs arbitrary: l) (auto simp: smear_bias_def ReadPublicInstant_def public_max_def Let_def split: prod.splits)

lemma public_log_sequential:
  "public_step\<^sup>*\<^sup>* public_init s \<Longrightarrow> sequential_reads 0 (map fst (ps_log s)) = (ps_log s, ps_lastPublic s)"
proof (induction rule: rtranclp_induct)
  case base
  show ?case by (simp add: public_init_def)
next
  case (step s s')
  from step(2) show ?case
    by (cases rule: public_step.cases) (use step.IH in \<open>simp_all add: sequential_reads_snoc\<close>)
qed

lemma sequential_reads_sorted:
  "sequential_reads l cs = (rs, l') \<Longrightarrow>
    sorted_wrt (\<lambda>p q. sint (snd p) \<le> sint (snd q)) rs \<and> (\<forall>p \<in> set rs. sint l \<le> sint (snd p) \<and> sint (fst p) \<le> sint (snd p))"
proof (induction l cs arbitrary: rs l' rule: sequential_reads.induct)
  case (2 l c cs)
  obtain v d l1 where v: "ReadPublicInstant None l c 0 = (v, d, l1)" using prod_cases3 by blast
  obtain rs1 where rs1: "sequential_reads l1 cs = (rs1, l')" "rs = (c, v) # rs1"
    using 2(2) v by (auto split: prod.splits)
  have "v = l1" "sint l \<le> sint v" "sint c \<le> sint v"
    using v by (auto simp: smear_bias_def ReadPublicInstant_def Let_def go_signed split: if_splits)
  then show ?case using 2(1) [OF v [symmetric] refl refl rs1(1)] rs1(2) by force
qed simp

text \<open>C17: the public clock is linearizable and monotonic. Under any interleaving of any number of
  readers, the completed calls, in the order of their compare-and-swaps, are a sequential run of
  the clamp from the initial value: no value is below an earlier one or below its own candidate.\<close>

theorem public_clock_linearizable:
  assumes "public_step\<^sup>*\<^sup>* public_init s"
  shows "fst (sequential_reads 0 (map fst (ps_log s))) = ps_log s \<and>
    sorted_wrt (\<lambda>p q. sint (snd p) \<le> sint (snd q)) (ps_log s) \<and>
    list_all (\<lambda>p. sint (fst p) \<le> sint (snd p)) (ps_log s)"
  using public_log_sequential [OF assms] sequential_reads_sorted [of 0 "map fst (ps_log s)" "ps_log s" "ps_lastPublic s"]
  by (auto simp: list_all_iff)

definition sample_public :: public_sys where
  "sample_public = \<lparr>ps_lastPublic = 7, ps_pc = (\<lambda>_. PIdle), ps_log = [(7, 7)]\<rparr>"

theorem public_clock_linearizable_witness: "fst (sequential_reads 0 (map fst (ps_log sample_public))) = [(7, 7)]"
proof -
  let ?s1 = "public_init\<lparr>ps_pc := (ps_pc public_init)(0 := PLoad 7)\<rparr>"
  let ?s2 = "?s1\<lparr>ps_pc := (ps_pc ?s1)(0 := PSwap 7 (ps_lastPublic ?s1))\<rparr>"
  let ?s3 = "?s2\<lparr>ps_lastPublic := public_max 0 7, ps_pc := (ps_pc ?s2)(0 := PIdle), ps_log := ps_log ?s2 @ [(7, public_max 0 7)]\<rparr>"
  have "public_step public_init ?s1" by (rule public_step.call) (simp add: public_init_def)
  moreover have "public_step ?s1 ?s2" by (rule public_step.load) simp
  moreover have "public_step ?s2 ?s3" by (rule public_step.swap) (simp_all add: public_init_def)
  moreover have "?s3 = sample_public"
    by (simp add: public_init_def sample_public_def public_max_def word_sless_alt fun_eq_iff)
  ultimately have "public_step\<^sup>*\<^sup>* public_init sample_public"
    by (simp only: converse_rtranclp_into_rtranclp [OF _ converse_rtranclp_into_rtranclp [OF _ r_into_rtranclp]])
  from public_clock_linearizable [OF this] show ?thesis
    by (simp add: sample_public_def)
qed

subsection \<open>The public error bound\<close>

lemma f64_round_le:
  assumes "0 \<le> n" "n < 2 ^ w" "53 \<le> w"
  shows "f64_round n \<le> 2 ^ w"
proof -
  define s where "s = nat (bitlen n - 53)"
  have "bitlen n \<le> int w" using assms(1,2) by (cases "n = 0") (simp_all add: bitlen_le_iff_power)
  then have s: "s \<le> w" using assms(3) by (simp add: s_def)
  then have "n < 2 ^ (w - s) * 2 ^ s" using assms(2) by (simp add: power_add [symmetric])
  then have "n div 2 ^ s < 2 ^ (w - s)" using le_zdiv_iff [of "2 ^ s" "2 ^ (w - s)" n] by (simp add: not_le [symmetric])
  then have "round_half_even n (2 ^ s) \<le> 2 ^ (w - s)" using round_half_even_le [of n "2 ^ s"] by linarith
  then have "round_half_even n (2 ^ s) * 2 ^ s \<le> 2 ^ (w - s) * 2 ^ s" by (rule mult_right_mono) simp
  with s show ?thesis by (simp add: f64_round_def Let_def s_def power_add [symmetric])
qed

lemma f64_of_int64_le: "in_i64 n \<Longrightarrow> \<bar>f64_of_int n\<bar> \<le> 2 ^ 63"
proof -
  assume n: "in_i64 n"
  show ?thesis
  proof (cases "\<bar>n\<bar> < 2 ^ 63")
    case True
    then have "f64_round \<bar>n\<bar> \<le> 2 ^ 63" by (intro f64_round_le) simp_all
    then show ?thesis using f64_round_nonneg [of "\<bar>n\<bar>"] by (auto simp: f64_of_int_def abs_if split: if_splits)
  next
    case False
    with n have "n = - (2 ^ 63)" by (auto simp: in_i64_def abs_if split: if_splits)
    moreover have "f64_round (2 ^ 63) = 2 ^ 63" by code_simp
    ultimately show ?thesis by (simp add: f64_of_int_def)
  qed
qed

lemma epsilon_exact:
  assumes eps: "ComputePublicSymmetricEpsilon p (Some I) rb = eps"
    and small: "uint eps < 2 ^ 53" "uint rb < 2 ^ 53"
  shows "uint eps = max \<bar>sint (p - Earliest I)\<bar> \<bar>sint (Latest I - p)\<bar> + uint rb"
proof -
  let ?d1 = "\<bar>f64_of_int (sint (p - Earliest I))\<bar>" and ?d2 = "\<bar>f64_of_int (sint (Latest I - p))\<bar>"
  have le: "max ?d1 ?d2 \<le> 2 ^ 63" "0 \<le> max ?d1 ?d2" using f64_of_int64_le by simp_all
  then obtain D where D: "max ?d1 ?d2 = D" "D \<le> 2 ^ 63" "0 \<le> D" by simp
  then have u: "uint (word_of_int D :: u64) = D"
    by (simp add: uint_word_of_int mod_pos_pos_trivial)
  have "eps = word_of_int D + rb"
    using eps by (simp only: ComputePublicSymmetricEpsilon_def option.case Let_def D(1))
  then have "uint eps = D + uint rb"
    using uint_add_exact [of "word_of_int D" rb] D(2) small(2) by (simp add: u)
  then have e: "uint eps = max ?d1 ?d2 + uint rb" by (simp only: D(1))
  then have d: "?d1 < 2 ^ 53" "?d2 < 2 ^ 53" using small(1) uint64_ge [of rb] by linarith+
  show ?thesis
    using e unfolding f64_of_int_small_iff [OF d(1)] f64_of_int_small_iff [OF d(2)] .
qed

text \<open>Below \<open>2^53\<close> nanoseconds (104 days) the float64 detour of the public error bound loses
  nothing: every instant of the interval lies within the bound, less the read bound, of the
  centre, and the bound is attained at an end of the interval.\<close>

theorem public_epsilon_covers_interval:
  assumes "ComputePublicSymmetricEpsilon p (Some I) rb = eps" "uint eps < 2 ^ 53" "uint rb < 2 ^ 53"
    and "in_i64 (sint p - sint (Earliest I))" "in_i64 (sint (Latest I) - sint p)"
  shows "uint eps = max \<bar>sint p - sint (Earliest I)\<bar> \<bar>sint (Latest I) - sint p\<bar> + uint rb \<and>
    (\<forall>t. contains I t \<longrightarrow> \<bar>t - sint p\<bar> \<le> uint eps - uint rb)"
  using epsilon_exact [OF assms(1-3)] assms(4,5) by (auto simp: sint_sub_exact contains_def)

theorem public_epsilon_covers_interval_witness:
  "\<bar>(150 :: int) - 140\<bar> \<le> uint (ComputePublicSymmetricEpsilon 140 (Some (interval 100 200)) 7) - 7"
proof -
  have e: "ComputePublicSymmetricEpsilon 140 (Some (interval 100 200)) 7 = 67" by code_simp
  show ?thesis
    using public_epsilon_covers_interval [OF e] by (simp add: in_i64_def e)
qed

end
