(* ===== verification/Publish.thy ===== *)
theory Publish
  imports Assurance Clock
begin

text \<open>
  Package publish: the published snapshot and its guard (\<open>publish/snapshot.go\<close>) and the publisher
  (\<open>publish/publisher.go\<close>), whose active snapshot is replaced only through the guard. Package
  telemetry's counters are plain atomic cells and are not modelled.
\<close>

record Snapshot =
  sn_EstimateMapping :: EstimateMapping
  sn_Assurance :: AssuranceState
  sn_RawScaleLower :: RateScale
  sn_RawScaleUpper :: RateScale
  sn_ContinuityToken :: u64
  sn_LeapHistoryID :: bytes
  sn_ConfigID :: bytes
  sn_AssuranceEpochID :: bytes
  sn_Generation :: Generation

definition ValidatePublication :: "Snapshot option \<Rightarrow> Snapshot option \<Rightarrow> go_error option" where
  "ValidatePublication cur nxt =
    (case nxt of
       None \<Rightarrow> Some (Err ''next snapshot is nil'')
     | Some n \<Rightarrow>
       if sn_RawScaleLower n \<le>s 0 \<or> sn_RawScaleUpper n <s sn_RawScaleLower n
       then Some ErrGuardScaleInvalid
       else if (case cur of None \<Rightarrow> False | Some c \<Rightarrow> sn_Generation n \<le> sn_Generation c)
       then Some ErrGuardGenerationNotMono
       else
         (let status = as_Status (sn_Assurance n)
          in case as_Anchor (sn_Assurance n) of
               None \<Rightarrow>
                 if status = StatusSynced \<or> status = StatusHoldover
                 then Some (Wrap (''status '' @ SyncStatus_String status @ '' requires non-nil anchor'') ErrGuardStatusDisagreement)
                 else None
             | Some a \<Rightarrow>
                 if status = StatusSynced \<or> status = StatusHoldover
                 then (if aa_UpperAtAnchor a <s aa_LowerAtAnchor a then Some ErrGuardAnchorDisordered else None)
                 else Some (Wrap (''status '' @ SyncStatus_String status @ '' must not have active anchor'') ErrGuardStatusDisagreement)))"

text \<open>The publisher is its active snapshot; its mutex makes a publication one step.\<close>

type_synonym Publisher = "Snapshot option"

definition Publisher_Publish :: "Publisher \<Rightarrow> Snapshot option \<Rightarrow> go_error option \<times> Publisher" where
  "Publisher_Publish p nxt =
    (case ValidatePublication p nxt of
       Some err \<Rightarrow> (Some (Wrap ''publication guard rejected snapshot'' err), p)
     | None \<Rightarrow> (None, nxt))"

subsection \<open>The guard\<close>

definition coherent :: "Snapshot \<Rightarrow> bool" where
  "coherent n \<longleftrightarrow>
    0 < sint (sn_RawScaleLower n) \<and> sint (sn_RawScaleLower n) \<le> sint (sn_RawScaleUpper n) \<and>
    (case as_Anchor (sn_Assurance n) of
       None \<Rightarrow> as_Status (sn_Assurance n) \<in> {StatusUnanchored, StatusDesync}
     | Some a \<Rightarrow> as_Status (sn_Assurance n) \<in> {StatusSynced, StatusHoldover} \<and>
         sint (aa_LowerAtAnchor a) \<le> sint (aa_UpperAtAnchor a))"

lemma ValidatePublication_None_iff:
  "ValidatePublication cur nxt = None \<longleftrightarrow>
    (case nxt of None \<Rightarrow> False | Some n \<Rightarrow> coherent n \<and>
      (case cur of None \<Rightarrow> True | Some c \<Rightarrow> sn_Generation c < sn_Generation n))"
proof (cases nxt)
  case None
  then show ?thesis by (simp add: ValidatePublication_def)
next
  case (Some n)
  then show ?thesis
    by (cases "as_Status (sn_Assurance n)")
      (auto simp: ValidatePublication_def coherent_def go_signed not_le not_less split: option.splits)
qed

text \<open>Successive publications, the rejected ones included.\<close>

fun Publisher_run :: "Publisher \<Rightarrow> Snapshot option list \<Rightarrow> Publisher list" where
  "Publisher_run p [] = [p]"
| "Publisher_run p (n # ns) = p # Publisher_run (snd (Publisher_Publish p n)) ns"

definition publisher_ok :: "Publisher \<Rightarrow> Publisher \<Rightarrow> bool" where
  "publisher_ok p q \<longleftrightarrow> q = p \<or> (\<exists>n. q = Some n \<and> coherent n \<and> (case p of None \<Rightarrow> True | Some c \<Rightarrow> sn_Generation c < sn_Generation n))"

lemma Publish_ok: "publisher_ok p (snd (Publisher_Publish p n))"
  using ValidatePublication_None_iff [of p n]
  by (auto simp: Publisher_Publish_def publisher_ok_def split: option.splits)

lemma publisher_ok_trans:
  assumes "publisher_ok p q" "publisher_ok q r"
  shows "publisher_ok p r"
proof (cases "q = p \<or> r = q")
  case False
  then show ?thesis
    using assms by (cases p) (auto simp: publisher_ok_def)
qed (use assms in auto)

lemma publisher_ok_refl: "publisher_ok p p"
  by (simp add: publisher_ok_def)

lemma Publisher_run_from: "q \<in> set (Publisher_run p ns) \<Longrightarrow> publisher_ok p q"
proof (induction p ns rule: Publisher_run.induct)
  case (2 p n ns)
  then show ?case
    using publisher_ok_trans [OF Publish_ok [of p n]] by (auto intro: publisher_ok_refl)
qed (simp add: publisher_ok_refl)

lemma Publisher_run_ok: "sorted_wrt publisher_ok (Publisher_run p ns)"
  by (induction p ns rule: Publisher_run.induct)
    (auto intro: publisher_ok_trans [OF Publish_ok] dest: Publisher_run_from)

subsection \<open>Properties\<close>

text \<open>The publication guard accepts exactly the coherent successors: a positive, ordered scale
  envelope, a generation above the current one, an anchor exactly in the synced and holdover
  statuses, with ordered bounds.\<close>

theorem publication_guard_exact:
  "ValidatePublication cur (Some n) = None \<longleftrightarrow>
    0 < sint (sn_RawScaleLower n) \<and> sint (sn_RawScaleLower n) \<le> sint (sn_RawScaleUpper n) \<and>
    (case cur of None \<Rightarrow> True | Some c \<Rightarrow> sn_Generation c < sn_Generation n) \<and>
    (case as_Anchor (sn_Assurance n) of
       None \<Rightarrow> as_Status (sn_Assurance n) \<in> {StatusUnanchored, StatusDesync}
     | Some a \<Rightarrow> as_Status (sn_Assurance n) \<in> {StatusSynced, StatusHoldover} \<and>
         sint (aa_LowerAtAnchor a) \<le> sint (aa_UpperAtAnchor a))"
  unfolding ValidatePublication_None_iff coherent_def by auto

text \<open>C16: readers see a coherent, ordered history. Over any sequence of publication attempts, of any
  two snapshots a reader can acquire the later is the same one or a coherent one of a strictly
  greater generation.\<close>

theorem acquired_snapshots_advance:
  assumes "Publisher_run (Some s0) ns = ps" "i < j" "j < length ps"
  shows "ps ! j = ps ! i \<or>
    (\<exists>a b. ps ! i = Some a \<and> ps ! j = Some b \<and> coherent b \<and> sn_Generation a < sn_Generation b)"
proof -
  have "publisher_ok (ps ! i) (ps ! j)"
    using Publisher_run_ok [of "Some s0" ns] assms by (simp add: sorted_wrt_iff_nth_less)
  moreover have "publisher_ok (Some s0) (ps ! i)"
    using Publisher_run_from [of "ps ! i" "Some s0" ns] assms by simp
  then have "ps ! i \<noteq> None" by (auto simp: publisher_ok_def)
  ultimately show ?thesis by (auto simp: publisher_ok_def split: option.splits)
qed

definition sample_snapshot :: "Generation \<Rightarrow> Snapshot" where
  "sample_snapshot g =
    \<lparr>sn_EstimateMapping = NewEstimateClock, sn_Assurance = NewAssuranceClock [] 1000,
     sn_RawScaleLower = OneQ48, sn_RawScaleUpper = OneQ48, sn_ContinuityToken = 1,
     sn_LeapHistoryID = [], sn_ConfigID = [], sn_AssuranceEpochID = [], sn_Generation = g\<rparr>"

theorem acquired_snapshots_advance_witness:
  "\<exists>a b. Publisher_run (Some (sample_snapshot 1)) [Some (sample_snapshot 4), None] ! 0 = Some a \<and>
    Publisher_run (Some (sample_snapshot 1)) [Some (sample_snapshot 4), None] ! 2 = Some b \<and> sn_Generation a < sn_Generation b"
proof -
  have "Publisher_run (Some (sample_snapshot 1)) [Some (sample_snapshot 4), None] =
    [Some (sample_snapshot 1), Some (sample_snapshot 4), Some (sample_snapshot 4)]"
    by code_simp
  from acquired_snapshots_advance [OF this, of 0 2] show ?thesis
    unfolding \<open>Publisher_run _ _ = _\<close> by (auto simp: sample_snapshot_def)
qed

end
