(* ===== verification/Bytes.thy ===== *)
theory Bytes
  imports CoreTypes
begin

text \<open>
  Byte strings: the big-endian integers of \<open>encoding/binary\<close>, slices, and the contract of a
  fixed-width field, on which the codecs of the leap history, the NTP packet and the NTS records
  rest.
\<close>

subsection \<open>Big-endian integers\<close>

fun be_enc :: "nat \<Rightarrow> int \<Rightarrow> bytes" where
  "be_enc 0 v = []"
| "be_enc (Suc n) v = word_of_int (v div 256 ^ n) # be_enc n v"

definition be_dec :: "bytes \<Rightarrow> int" where
  "be_dec bs = foldl (\<lambda>a b. a * 256 + uint b) 0 bs"

lemma be_dec_acc: "foldl (\<lambda>a b. a * 256 + uint b) a bs = a * 256 ^ length bs + be_dec bs"
proof (induction bs arbitrary: a)
  case (Cons b bs)
  show ?case
    using Cons.IH [of "a * 256 + uint b"] Cons.IH [of "uint b"] by (simp add: be_dec_def distrib_right)
qed (simp add: be_dec_def)

lemma be_dec_simps [simp]:
  "be_dec [] = 0" "be_dec (b # bs) = uint b * 256 ^ length bs + be_dec bs"
  using be_dec_acc [of "uint b" bs] by (simp_all add: be_dec_def)

lemma length_be_enc [simp]: "length (be_enc n v) = n"
  by (induction n) auto

lemma be_dec_nonneg: "0 \<le> be_dec bs"
  by (induction bs) auto

lemma be_dec_less: "be_dec bs < 256 ^ length bs"
proof (induction bs)
  case (Cons b bs)
  have "uint b \<le> 255" using unsigned_less [of b, where ?'a = int] by simp
  then have "uint b * 256 ^ length bs \<le> 255 * 256 ^ length bs" by (intro mult_right_mono) simp_all
  then have "uint b * 256 ^ length bs + be_dec bs < 255 * 256 ^ length bs + 256 ^ length bs"
    using Cons by linarith
  then show ?case by simp
qed simp

lemma be_dec_enc: "be_dec (be_enc n v) = v mod 256 ^ n"
proof (induction n)
  case (Suc n)
  have "uint (word_of_int (v div 256 ^ n) :: u8) = v div 256 ^ n mod 256"
    by (simp add: uint_word_of_int)
  moreover have "v mod 256 ^ Suc n = 256 ^ n * (v div 256 ^ n mod 256) + v mod 256 ^ n"
    using zmod_zmult2_eq [of 256 v "256 ^ n"] by (simp add: mult.commute)
  ultimately show ?case using Suc by simp
qed simp

lemma be_enc_dec: "length bs = n \<Longrightarrow> be_enc n (be_dec bs + k * 256 ^ n) = bs"
proof (induction n arbitrary: bs k)
  case (Suc n)
  then obtain b bs' where bs: "bs = b # bs'" "length bs' = n" by (cases bs) auto
  have v: "be_dec bs + k * 256 ^ Suc n = be_dec bs' + (uint b + k * 256) * 256 ^ n"
    by (simp add: bs algebra_simps)
  have "be_dec bs' div 256 ^ n = 0"
    using be_dec_less [of bs'] be_dec_nonneg [of bs'] bs(2) by (simp add: div_pos_pos_trivial)
  then have "(be_dec bs' + (uint b + k * 256) * 256 ^ n) div 256 ^ n = uint b + k * 256"
    by (subst div_mult_self1) simp_all
  moreover have "word_of_int (uint b + k * 256) = b"
  proof -
    have "uint (word_of_int (uint b + k * 256) :: u8) = uint b"
      using unsigned_less [of b, where ?'a = int] by (simp only: uint_word_of_int) simp
    then show ?thesis by (rule word_eq_iff_unsigned [where ?'a = int, THEN iffD2])
  qed
  ultimately show ?case
    using Suc.IH [OF bs(2), of "uint b + k * 256"] by (simp only: be_enc.simps v) (simp add: bs(1))
qed simp

subsection \<open>Fixed-width fields\<close>

text \<open>
  The contract of a field that takes \<open>width\<close> bytes: what is written has that width, reading it back
  gives the value, and on strings of that width writing what was read gives the string.
\<close>

locale field_codec =
  fixes enc :: "'a \<Rightarrow> bytes" and dec :: "bytes \<Rightarrow> 'a" and width :: nat
  assumes length_enc [simp]: "length (enc x) = width"
    and dec_enc [simp]: "dec (enc x) = x"
    and enc_dec: "length bs = width \<Longrightarrow> enc (dec bs) = bs"
begin

text \<open>Reading a field at the front of a longer string, and the field after it.\<close>

lemma dec_front [simp]: "dec (take width (enc x @ rest)) = x" "drop width (enc x @ rest) = rest"
  by simp_all

lemma enc_front: "width \<le> length bs \<Longrightarrow> enc (dec (take width bs)) @ drop width bs = bs"
  by (simp add: enc_dec)

lemma enc_inj: "enc x = enc y \<longleftrightarrow> x = y"
  using dec_enc by metis

text \<open>A table of fields, one after another.\<close>

lemma length_table: "length (concat (map enc xs)) = width * length xs"
  by (induction xs) auto

lemma take_table: "concat (map enc (x # xs)) = enc x @ concat (map enc xs)"
  by simp

end

definition PutUint16 :: "u16 \<Rightarrow> bytes" where "PutUint16 w = be_enc 2 (uint w)"
definition PutUint32 :: "u32 \<Rightarrow> bytes" where "PutUint32 w = be_enc 4 (uint w)"
definition PutUint64 :: "u64 \<Rightarrow> bytes" where "PutUint64 w = be_enc 8 (uint w)"
definition Uint16 :: "bytes \<Rightarrow> u16" where "Uint16 bs = word_of_int (be_dec bs)"
definition Uint32 :: "bytes \<Rightarrow> u32" where "Uint32 bs = word_of_int (be_dec bs)"
definition Uint64 :: "bytes \<Rightarrow> u64" where "Uint64 bs = word_of_int (be_dec bs)"

lemma word_be_round:
  fixes w :: "'a :: len word"
  assumes "256 ^ n = (2 :: int) ^ LENGTH('a)"
  shows "word_of_int (be_dec (be_enc n (uint w))) = w"
    and "length bs = n \<Longrightarrow> be_enc n (uint (word_of_int (be_dec bs) :: 'a word)) = bs"
proof -
  show "word_of_int (be_dec (be_enc n (uint w))) = w"
    using assms unsigned_less [of w, where ?'a = int] by (simp add: be_dec_enc)
  assume "length bs = n"
  moreover from this have "be_dec bs mod 2 ^ LENGTH('a) = be_dec bs"
    using be_dec_less [of bs] be_dec_nonneg [of bs] assms by simp
  ultimately show "be_enc n (uint (word_of_int (be_dec bs) :: 'a word)) = bs"
    using be_enc_dec [of bs n 0] by (simp add: uint_word_of_int)
qed

interpretation be16: field_codec PutUint16 Uint16 2
  by unfold_locales (simp_all add: PutUint16_def Uint16_def word_be_round)

interpretation be32: field_codec PutUint32 Uint32 4
  by unfold_locales (simp_all add: PutUint32_def Uint32_def word_be_round)

interpretation be64: field_codec PutUint64 Uint64 8
  by unfold_locales (simp_all add: PutUint64_def Uint64_def word_be_round)

subsection \<open>Slices\<close>

text \<open>\<open>data[lo:hi]\<close>, for bounds the code has checked.\<close>

definition slice :: "bytes \<Rightarrow> nat \<Rightarrow> nat \<Rightarrow> bytes" where
  "slice bs lo hi = take (hi - lo) (drop lo bs)"

lemma length_slice [simp]: "hi \<le> length bs \<Longrightarrow> length (slice bs lo hi) = hi - lo"
  by (simp add: slice_def)

lemma slice_append_left: "hi \<le> length xs \<Longrightarrow> slice (xs @ ys) lo hi = slice xs lo hi"
  by (simp add: slice_def)

lemma slice_append_right: "length xs \<le> lo \<Longrightarrow> slice (xs @ ys) lo hi = slice ys (lo - length xs) (hi - length xs)"
  by (simp add: slice_def)

lemma slice_all [simp]: "slice xs 0 (length xs) = xs"
  by (simp add: slice_def)

lemma slice_join: "lo \<le> mid \<Longrightarrow> mid \<le> hi \<Longrightarrow> slice bs lo mid @ slice bs mid hi = slice bs lo hi"
proof -
  assume le: "lo \<le> mid" "mid \<le> hi"
  have "drop mid bs = drop (mid - lo) (drop lo bs)" using le by simp
  moreover have "hi - lo = (mid - lo) + (hi - mid)" using le by simp
  ultimately show ?thesis by (simp only: slice_def take_add)
qed

end
