(* ===== verification/Leap.thy ===== *)
theory Leap
  imports FixedPoint Bytes
begin

text \<open>
  The leap-second history (\<open>core/leap.go\<close>): its canonical binary form, the conversions between the
  continuous axis, civil UTC labels (leap seconds included) and POSIX nanoseconds. The SHA-256
  function of the standard library is the argument \<open>sha\<close>. Of package time the code uses the
  proleptic Gregorian calendar in UTC, with \<open>time.Date\<close>'s carrying of out-of-range months and
  days; it is written out below on integers.
\<close>

subsection \<open>The calendar of package time\<close>

text \<open>
  Days since 1970-01-01, counted from a first of March in 400-year eras of 146097 days.
\<close>

definition days_from_civil :: "int \<Rightarrow> int \<Rightarrow> int \<Rightarrow> int" where
  "days_from_civil y m d =
    (let y' = (if m \<le> 2 then y - 1 else y);
         yoe = y' mod 400;
         mp = (if m \<le> 2 then m + 9 else m - 3);
         doy = (153 * mp + 2) div 5 + d - 1;
         doe = yoe * 365 + yoe div 4 - yoe div 100 + doy
     in y' div 400 * 146097 + doe - 719468)"

definition civil_from_days :: "int \<Rightarrow> int \<times> int \<times> int" where
  "civil_from_days z =
    (let era = (z + 719468) div 146097;
         doe = (z + 719468) mod 146097;
         c = min 3 (doe div 36524);
         r = doe - 36524 * c;
         q = r div 1461;
         n = min 3 (r mod 1461 div 365);
         doy = r mod 1461 - 365 * n;
         yoe = 100 * c + 4 * q + n;
         mp = (5 * doy + 2) div 153;
         d = doy - (153 * mp + 2) div 5 + 1;
         m = (if mp < 10 then mp + 3 else mp - 9)
     in (yoe + era * 400 + (if m \<le> 2 then 1 else 0), m, d))"

text \<open>\<open>time.Date(y, m, d, 0, 0, s, 0, time.UTC).Unix()\<close>: months and days carry.\<close>

definition time_Date_Unix :: "int \<Rightarrow> int \<Rightarrow> int \<Rightarrow> int \<Rightarrow> i64" where
  "time_Date_Unix y m d s =
    word_of_int ((days_from_civil (y + (m - 1) div 12) ((m - 1) mod 12 + 1) 1 + d - 1) * 86400 + s)"

subsection \<open>Data\<close>

record GregorianDate =
  gd_Year :: i32
  gd_Month :: u8
  gd_Day :: u8

record UtcLabel =
  ul_Date :: GregorianDate
  ul_SecondOfDay :: u32
  ul_Nanos :: u32
  ul_LeapHistoryID :: bytes

record UnixProjection =
  up_Nanos :: UnixNanos
  up_IsLeapSecond :: bool
  up_SourceGstInstant :: GstInstant
  up_LeapHistoryID :: bytes

record LeapEntry =
  le_TransitionUnixSecond :: i64
  le_Delta :: i8

record LeapHistory =
  lh_InitialTaiMinusUtc :: i32
  lh_Entries :: "LeapEntry list"
  lh_ID :: bytes
  lh_canonicalBytes :: bytes

text \<open>Decimal formatting: \<open>%0wd\<close>, the sign counted in the width.\<close>

fun decimal :: "nat \<Rightarrow> nat \<Rightarrow> string" where
  "decimal 0 n = []"
| "decimal (Suc fuel) n =
     (if n < 10 then [char_of (48 + n)] else decimal fuel (n div 10) @ [char_of (48 + n mod 10)])"

definition zero_padded :: "nat \<Rightarrow> int \<Rightarrow> string" where
  "zero_padded w n =
    (let digits = decimal 20 (nat \<bar>n\<bar>)
     in if n < 0 then CHR ''-'' # replicate (w - 1 - length digits) (CHR ''0'') @ digits
        else replicate (w - length digits) (CHR ''0'') @ digits)"

definition GregorianDate_String :: "GregorianDate \<Rightarrow> string" where
  "GregorianDate_String d =
    zero_padded 4 (sint (gd_Year d)) @ ''-'' @ zero_padded 2 (uint (gd_Month d)) @ ''-'' @ zero_padded 2 (uint (gd_Day d))"

definition UtcLabel_String :: "UtcLabel \<Rightarrow> string" where
  "UtcLabel_String u =
    (let sec = ul_SecondOfDay u mod 60; min = ul_SecondOfDay u div 60 mod 60; hour = ul_SecondOfDay u div 3600
     in GregorianDate_String (ul_Date u) @ ''T'' @ zero_padded 2 (uint hour) @ '':'' @ zero_padded 2 (uint min)
        @ '':'' @ zero_padded 2 (uint sec) @ ''.'' @ zero_padded 9 (uint (ul_Nanos u)) @ ''Z'')"

subsection \<open>The canonical encoding\<close>

definition leapMagic :: bytes where
  "leapMagic = [71, 83, 84, 76, 49]"

text \<open>The checks of one entry against the previous transition; none for the first.\<close>

definition order_error :: "i64 option \<Rightarrow> i64 \<Rightarrow> go_error option" where
  "order_error lastSec sec =
    (case lastSec of
       None \<Rightarrow> None
     | Some l \<Rightarrow>
       if sec \<le>s l then Some (if sec = l then ErrDuplicateLeapTransition else ErrUnsortedLeapTransitions) else None)"

definition encode_entry :: "LeapEntry \<Rightarrow> bytes" where
  "encode_entry e = PutUint64 (le_TransitionUnixSecond e) @ [le_Delta e] @ replicate 7 0"

fun write_entries :: "i64 option \<Rightarrow> LeapEntry list \<Rightarrow> bytes \<Rightarrow> go_error + bytes" where
  "write_entries lastSec [] buf = Inr buf"
| "write_entries lastSec (e # es) buf =
     (case order_error lastSec (le_TransitionUnixSecond e) of
        Some err \<Rightarrow> Inl err
      | None \<Rightarrow>
        if le_Delta e \<noteq> 1 \<and> le_Delta e \<noteq> - 1 then Inl ErrInvalidLeapDelta
        else write_entries (Some (le_TransitionUnixSecond e)) es (buf @ encode_entry e))"

definition NewLeapHistory :: "(bytes \<Rightarrow> bytes) \<Rightarrow> i32 \<Rightarrow> LeapEntry list \<Rightarrow> go_error + LeapHistory" where
  "NewLeapHistory sha initialTaiMinusUtc entries =
    (case write_entries None entries
            (leapMagic @ PutUint32 initialTaiMinusUtc @ PutUint32 (of_nat (length entries))) of
       Inl e \<Rightarrow> Inl e
     | Inr canon \<Rightarrow>
       Inr \<lparr>lh_InitialTaiMinusUtc = initialTaiMinusUtc, lh_Entries = entries, lh_ID = sha canon,
            lh_canonicalBytes = canon\<rparr>)"

text \<open>The loop over the entries, on the bytes from the loop's offset on.\<close>

fun parse_entries :: "nat \<Rightarrow> i64 option \<Rightarrow> bytes \<Rightarrow> go_error + LeapEntry list" where
  "parse_entries 0 lastSec data = Inr []"
| "parse_entries (Suc n) lastSec data =
     (let sec = Uint64 (slice data 0 8); delta = data ! 8; reserved = slice data 9 16
      in case order_error lastSec sec of
           Some err \<Rightarrow> Inl err
         | None \<Rightarrow>
           if delta \<noteq> 1 \<and> delta \<noteq> - 1 then Inl ErrInvalidLeapDelta
           else if list_ex (\<lambda>b. b \<noteq> 0) reserved then Inl ErrReservedBytesNonzero
           else (case parse_entries n (Some sec) (drop 16 data) of
                   Inl e \<Rightarrow> Inl e
                 | Inr es \<Rightarrow> Inr (\<lparr>le_TransitionUnixSecond = sec, le_Delta = delta\<rparr> # es)))"

definition ParseLeapHistory :: "(bytes \<Rightarrow> bytes) \<Rightarrow> bytes \<Rightarrow> go_error + LeapHistory" where
  "ParseLeapHistory sha data =
    (if length data < 13 then Inl (Err ''leap history data too short'')
     else if take 5 data \<noteq> leapMagic then Inl ErrInvalidLeapMagic
     else
       let initialTai = Uint32 (slice data 5 9);
           count = unat (Uint32 (slice data 9 13));
           expectedLen = 13 + count * 16
       in if length data \<noteq> expectedLen then Inl (Err ''leap history length mismatch'')
          else case parse_entries count None (drop 13 data) of
                 Inl e \<Rightarrow> Inl e
               | Inr entries \<Rightarrow>
                 Inr \<lparr>lh_InitialTaiMinusUtc = initialTai, lh_Entries = entries, lh_ID = sha data,
                      lh_canonicalBytes = data\<rparr>)"

subsection \<open>Conversions\<close>

text \<open>
  The loop of \<open>GstInstantToUtc\<close>: Inl the transition whose inserted second is hit, Inr the
  accumulated delta.
\<close>

fun utc_loop :: "i64 \<Rightarrow> LeapEntry list \<Rightarrow> i64 \<Rightarrow> i64 + i64" where
  "utc_loop siSec [] cumDelta = Inr cumDelta"
| "utc_loop siSec (e # es) cumDelta =
     (if le_Delta e = 1 \<and> siSec = le_TransitionUnixSecond e + cumDelta then Inl (le_TransitionUnixSecond e)
      else
        let transSiSec = le_TransitionUnixSecond e + cumDelta + scast (le_Delta e)
        in utc_loop siSec es (if transSiSec \<le>s siSec then cumDelta + scast (le_Delta e) else cumDelta))"

text \<open>The date of \<open>time.Unix(s, 0).UTC()\<close>.\<close>

definition unix_date :: "i64 \<Rightarrow> GregorianDate" where
  "unix_date s =
    (let (y, m, d) = civil_from_days (sint s div 86400)
     in \<lparr>gd_Year = word_of_int y, gd_Month = word_of_int m, gd_Day = word_of_int d\<rparr>)"

definition GstInstantToUtc :: "LeapHistory \<Rightarrow> GstInstant \<Rightarrow> UtcLabel" where
  "GstInstantToUtc lh inst =
    (let siSec = FloorDiv_nz inst 1000000000;
         nanoRem = ucast (inst - siSec * 1000000000)
     in case utc_loop siSec (lh_Entries lh) 0 of
          Inl transition \<Rightarrow>
            \<lparr>ul_Date = unix_date (transition - 1), ul_SecondOfDay = 86400, ul_Nanos = nanoRem, ul_LeapHistoryID = lh_ID lh\<rparr>
        | Inr cumDelta \<Rightarrow>
            let unixSec = siSec - cumDelta
            in \<lparr>ul_Date = unix_date unixSec, ul_SecondOfDay = word_of_int (sint unixSec mod 86400),
                ul_Nanos = nanoRem, ul_LeapHistoryID = lh_ID lh\<rparr>)"

definition date_Unix :: "GregorianDate \<Rightarrow> int \<Rightarrow> i64" where
  "date_Unix d s = time_Date_Unix (sint (gd_Year d)) (uint (gd_Month d)) (uint (gd_Day d)) s"

text \<open>The search for the transition of a leap-second label, with the delta before it.\<close>

fun leap_label_loop :: "i64 \<Rightarrow> LeapEntry list \<Rightarrow> i64 \<Rightarrow> i64 option" where
  "leap_label_loop target [] cumDelta = None"
| "leap_label_loop target (e # es) cumDelta =
     (if le_TransitionUnixSecond e = target \<and> le_Delta e = 1 then Some (le_TransitionUnixSecond e + cumDelta)
      else leap_label_loop target es (cumDelta + scast (le_Delta e)))"

fun delta_loop :: "i64 \<Rightarrow> LeapEntry list \<Rightarrow> i64 \<Rightarrow> i64" where
  "delta_loop unixSec [] cumDelta = cumDelta"
| "delta_loop unixSec (e # es) cumDelta =
     delta_loop unixSec es (if le_TransitionUnixSecond e \<le>s unixSec then cumDelta + scast (le_Delta e) else cumDelta)"

definition UtcToGstInstant :: "LeapHistory \<Rightarrow> UtcLabel \<Rightarrow> go_error + GstInstant" where
  "UtcToGstInstant lh utc =
    (if ul_LeapHistoryID utc \<noteq> lh_ID lh then Inl (Api ErrLeapHistoryMismatch)
     else if 86400 < ul_SecondOfDay utc then Inl ErrInvalidSecondOfDay
     else if 1000000000 \<le> ul_Nanos utc then Inl (Err ''nanos out of range'')
     else if ul_SecondOfDay utc = 86400
     then
       let targetTransition = date_Unix (ul_Date utc) 86399 + 1
       in (case leap_label_loop targetTransition (lh_Entries lh) 0 of
             Some leapSiSec \<Rightarrow> Inr (leapSiSec * 1000000000 + ucast (ul_Nanos utc))
           | None \<Rightarrow> Inl (Err (''no positive leap second recorded for date '' @ GregorianDate_String (ul_Date utc))))
     else
       let unixSec = date_Unix (ul_Date utc) (uint (ul_SecondOfDay utc));
           cumDelta = delta_loop unixSec (lh_Entries lh) 0;
           siSec = unixSec + cumDelta
       in Inr (siSec * 1000000000 + ucast (ul_Nanos utc)))"

definition willOffsetOverflow :: "i64 \<Rightarrow> i64 \<Rightarrow> bool" where
  "willOffsetOverflow v offset =
    (if 0 <s offset then MaxInt64 - offset <s v
     else if offset <s 0 then v <s MinInt64 - offset
     else False)"

fun unix_loop :: "i64 \<Rightarrow> LeapEntry list \<Rightarrow> i64 \<Rightarrow> go_error + i64" where
  "unix_loop sec [] delta = Inr delta"
| "unix_loop sec (e # es) delta =
     (if le_TransitionUnixSecond e \<noteq> MinInt64 \<and> sec = le_TransitionUnixSecond e - 1
      then Inl (Err ''ambiguous or deleted Unix second at leap transition'')
      else unix_loop sec es (if le_TransitionUnixSecond e \<le>s sec then delta + scast (le_Delta e) else delta))"

definition UnixNanosToGstInstant :: "LeapHistory \<Rightarrow> UnixNanos \<Rightarrow> go_error + GstInstant" where
  "UnixNanosToGstInstant lh unix =
    (let sec = FloorDiv_nz unix 1000000000
     in case unix_loop sec (lh_Entries lh) 0 of
          Inl e \<Rightarrow> Inl e
        | Inr delta \<Rightarrow>
          if go_quot MaxInt64 1000000000 <s delta \<or> delta <s go_quot MinInt64 1000000000 then Inl ErrOverflow
          else
            let offset = delta * 1000000000
            in if willOffsetOverflow unix offset then Inl ErrOverflow else Inr (unix + offset))"

definition GstInstantToUnixProjection :: "LeapHistory \<Rightarrow> GstInstant \<Rightarrow> UnixProjection" where
  "GstInstantToUnixProjection lh inst =
    (let utc = GstInstantToUtc lh inst
     in if ul_SecondOfDay utc = 86400
        then \<lparr>up_Nanos = date_Unix (ul_Date utc) 86399 * 1000000000 + ucast (ul_Nanos utc), up_IsLeapSecond = True,
              up_SourceGstInstant = inst, up_LeapHistoryID = lh_ID lh\<rparr>
        else \<lparr>up_Nanos = date_Unix (ul_Date utc) (uint (ul_SecondOfDay utc)) * 1000000000 + ucast (ul_Nanos utc),
              up_IsLeapSecond = False, up_SourceGstInstant = inst, up_LeapHistoryID = lh_ID lh\<rparr>)"

subsection \<open>The calendar functions are inverse\<close>

text \<open>The year, the day of the year and the month of the year that \<open>civil_from_days\<close> finds.\<close>

lemma civil_parts:
  fixes doe :: int
  assumes "0 \<le> doe" "doe < 146097"
  defines "c \<equiv> min 3 (doe div 36524)"
  defines "r \<equiv> doe - 36524 * c"
  defines "q \<equiv> r div 1461" and "n \<equiv> min 3 (r mod 1461 div 365)"
  defines "doy \<equiv> r mod 1461 - 365 * n" and "yoe \<equiv> 100 * c + 4 * q + n"
  shows "0 \<le> doy" "doy \<le> 365" "0 \<le> yoe" "yoe < 400" "yoe * 365 + yoe div 4 - yoe div 100 + doy = doe"
proof -
  define b t where "b = doe div 36524" and "t = doe mod 36524"
  have b: "doe = 36524 * b + t" "0 \<le> t" "t < 36524" "0 \<le> b"
    using assms(1) by (simp_all add: b_def t_def pos_imp_zdiv_nonneg_iff)
  then have "b \<le> 4" using assms(2) by linarith
  have c: "c = min 3 b" "0 \<le> c" "c \<le> 3" using b(4) by (simp_all add: c_def b_def)
  have "b \<le> 3 \<and> c = b \<or> b = 4 \<and> c = 3" unfolding c(1) using \<open>b \<le> 4\<close> by linarith
  then have r: "0 \<le> r" "r \<le> 36524"
    unfolding r_def using b(1-3) assms(2) by linarith+
  have q: "0 \<le> q" "q \<le> 24"
    using r zdiv_mono1 [OF r(2), of 1461] by (simp_all add: q_def pos_imp_zdiv_nonneg_iff)
  define s where "s = r mod 1461"
  have s: "0 \<le> s" "s \<le> 1460" "r = 1461 * q + s" unfolding s_def q_def by presburger+
  have n: "0 \<le> n" "n \<le> 3" "0 \<le> s - 365 * n" "s - 365 * n \<le> 365"
    using s(1,2) unfolding n_def s_def [symmetric] by (auto simp: min_def)
  then show doy: "0 \<le> doy" "doy \<le> 365" by (simp_all add: doy_def s_def)
  show "0 \<le> yoe" "yoe < 400" using c(2,3) q n(1,2) by (simp_all add: yoe_def)
  have "yoe div 4 = 25 * c + q" "yoe div 100 = c"
    unfolding yoe_def using c(2,3) q n(1,2) by linarith+
  then show "yoe * 365 + yoe div 4 - yoe div 100 + doy = doe"
    using s(3) by (simp add: yoe_def doy_def s_def r_def)
qed

lemma civil_month:
  fixes doy :: int
  assumes "0 \<le> doy" "doy \<le> 365"
  defines "mp \<equiv> (5 * doy + 2) div 153"
  shows "0 \<le> mp" "mp \<le> 11" "1 \<le> doy - (153 * mp + 2) div 5 + 1" "doy - (153 * mp + 2) div 5 + 1 \<le> 31"
proof -
  have m: "153 * mp \<le> 5 * doy + 2" "5 * doy + 2 < 153 * mp + 153"
    unfolding mp_def by (simp_all add: mult_div_mod_eq [symmetric])
  then show mp: "0 \<le> mp" "mp \<le> 11" using assms(1,2) by linarith+
  have "(153 * mp + 2) div 5 \<le> (5 * doy + 4) div 5" using m(1) by (intro zdiv_mono1) simp_all
  then show "1 \<le> doy - (153 * mp + 2) div 5 + 1" by simp
  have "doy - 30 \<le> (153 * mp + 2) div 5" using m(2) by (subst le_zdiv_iff) simp_all
  then show "doy - (153 * mp + 2) div 5 + 1 \<le> 31" by simp
qed

lemma civil_from_days_ok:
  assumes "civil_from_days z = (y, m, d)"
  shows "1 \<le> m" "m \<le> 12" "1 \<le> d" "d \<le> 31" "days_from_civil y m d = z"
    and "400 * ((z + 719468) div 146097) \<le> y" "y \<le> 400 * ((z + 719468) div 146097) + 400"
proof -
  define era where "era = (z + 719468) div 146097"
  define doe where "doe = (z + 719468) mod 146097"
  have z: "z = era * 146097 + doe - 719468" and doe: "0 \<le> doe" "doe < 146097"
    using div_mult_mod_eq [of "z + 719468" 146097] by (simp_all add: era_def doe_def)
  define c where "c = min 3 (doe div 36524)"
  define r where "r = doe - 36524 * c"
  define q where "q = r div 1461"
  define n where "n = min 3 (r mod 1461 div 365)"
  define doy where "doy = r mod 1461 - 365 * n"
  define yoe where "yoe = 100 * c + 4 * q + n"
  define mp where "mp = (5 * doy + 2) div 153"
  note P = civil_parts [OF doe, folded c_def, folded r_def, folded q_def n_def, folded doy_def yoe_def]
  note Q = civil_month [OF P(1,2), folded mp_def]
  define m0 where "m0 = (if mp < 10 then mp + 3 else mp - 9)"
  have "(yoe + era * 400 + (if m0 \<le> 2 then 1 else 0), m0, doy - (153 * mp + 2) div 5 + 1) = (y, m, d)"
    unfolding assms [symmetric] civil_from_days_def Let_def era_def [symmetric] doe_def [symmetric] c_def [symmetric]
      r_def [symmetric] q_def [symmetric] n_def [symmetric] doy_def [symmetric] yoe_def [symmetric] mp_def [symmetric]
      m0_def [symmetric]
    by (rule refl)
  then have e: "y = yoe + era * 400 + (if m \<le> 2 then 1 else 0)" "m = (if mp < 10 then mp + 3 else mp - 9)"
    "d = doy - (153 * mp + 2) div 5 + 1"
    unfolding m0_def by blast+
  have "mp < 10 \<or> mp = 10 \<or> mp = 11" using Q(2) by linarith
  then show m: "1 \<le> m" "m \<le> 12" using e(2) Q(1) by (elim disjE; simp)+
  show "1 \<le> d" "d \<le> 31" unfolding e(3) by (fact Q)+
  have "m \<le> 2 \<or> \<not> m \<le> 2" by simp
  then show "400 * ((z + 719468) div 146097) \<le> y" "y \<le> 400 * ((z + 719468) div 146097) + 400"
    unfolding era_def [symmetric] e(1) using P(3,4) by (elim disjE; simp)+
  have y': "(if m \<le> 2 then y - 1 else y) = yoe + era * 400" unfolding e(1) by (cases "m \<le> 2") simp_all
  have mp': "(if m \<le> 2 then m + 9 else m - 3) = mp"
    using \<open>mp < 10 \<or> mp = 10 \<or> mp = 11\<close> Q(1) unfolding e(2) by (elim disjE; simp)
  have era': "(yoe + era * 400) mod 400 = yoe" "(yoe + era * 400) div 400 = era"
    using P(3,4) by simp_all
  have d': "(153 * mp + 2) div 5 + d - 1 = doy" unfolding e(3) by simp
  show "days_from_civil y m d = z"
    unfolding days_from_civil_def Let_def y' mp' era' d' P(5) z by simp
qed

subsection \<open>The canonical encoding is a bijection\<close>

lemma encode_entry_parts:
  "length (encode_entry e) = 16" "Uint64 (slice (encode_entry e @ rest) 0 8) = le_TransitionUnixSecond e"
  "(encode_entry e @ rest) ! 8 = le_Delta e" "slice (encode_entry e @ rest) 9 16 = replicate 7 0"
  by (simp_all add: encode_entry_def slice_def nth_append)

text \<open>Writing fails or appends the encodings; then reading them gives the entries back.\<close>

lemma write_entries_parse:
  "write_entries lastSec es buf = Inr out \<Longrightarrow>
   out = buf @ concat (map encode_entry es) \<and> parse_entries (length es) lastSec (concat (map encode_entry es)) = Inr es"
proof (induction es arbitrary: lastSec buf)
  case (Cons e es)
  from Cons.prems have ok: "order_error lastSec (le_TransitionUnixSecond e) = None"
    "\<not> (le_Delta e \<noteq> 1 \<and> le_Delta e \<noteq> - 1)"
    "write_entries (Some (le_TransitionUnixSecond e)) es (buf @ encode_entry e) = Inr out"
    by (auto split: option.splits if_splits)
  from Cons.IH [OF ok(3)] show ?case
    using ok(1,2) by (auto simp: Let_def encode_entry_parts list_ex_iff)
qed simp

lemma entry_of_bytes:
  assumes "length data = 16 * Suc n" "\<not> list_ex (\<lambda>b. b \<noteq> 0) (slice data 9 16)"
  shows "encode_entry \<lparr>le_TransitionUnixSecond = Uint64 (slice data 0 8), le_Delta = data ! 8\<rparr> @ drop 16 data = data"
proof -
  have z: "slice data 9 16 = replicate 7 0"
    using assms by (intro replicate_eqI) (auto simp: list_ex_iff)
  have "[data ! 8] = slice data 8 9"
    using assms(1) by (simp add: slice_def take_Suc hd_drop_conv_nth)
  then have "encode_entry \<lparr>le_TransitionUnixSecond = Uint64 (slice data 0 8), le_Delta = data ! 8\<rparr>
      = (slice data 0 8 @ slice data 8 9) @ slice data 9 16"
    using assms(1) by (simp add: encode_entry_def be64.enc_dec z)
  also have "\<dots> = take 16 data"
    by (simp only: slice_join) (simp add: slice_def)
  finally show ?thesis by simp
qed

lemma parse_entries_write:
  "parse_entries n lastSec data = Inr es \<Longrightarrow> length data = 16 * n \<Longrightarrow>
   length es = n \<and> write_entries lastSec es buf = Inr (buf @ data)"
proof (induction n arbitrary: lastSec data es buf)
  case (Suc n)
  define e where "e = \<lparr>le_TransitionUnixSecond = Uint64 (slice data 0 8), le_Delta = data ! 8\<rparr>"
  from Suc.prems(1) obtain es' where es': "order_error lastSec (le_TransitionUnixSecond e) = None"
    "\<not> (le_Delta e \<noteq> 1 \<and> le_Delta e \<noteq> - 1)" "\<not> list_ex (\<lambda>b. b \<noteq> 0) (slice data 9 16)"
    "parse_entries n (Some (le_TransitionUnixSecond e)) (drop 16 data) = Inr es'" "es = e # es'"
    by (auto simp: e_def Let_def split: option.splits if_splits sum.splits)
  have "length es' = n \<and>
      write_entries (Some (le_TransitionUnixSecond e)) es' (buf @ encode_entry e) = Inr ((buf @ encode_entry e) @ drop 16 data)"
    using Suc.prems(2) by (intro Suc.IH [OF es'(4)]) simp
  moreover have "encode_entry e @ drop 16 data = data"
    using entry_of_bytes [OF Suc.prems(2) es'(3)] by (simp add: e_def)
  ultimately show ?case using es'(1,2) by (simp add: es'(5))
qed simp

text \<open>C19: (\<open>ParseLeapHistory\<close>, \<open>NewLeapHistory\<close>) The canonical encoding of leap histories is a bijection:
  a byte string parses to a history exactly when building a history from its initial offset and its
  entries gives that history, with that string as its canonical bytes. So every built history is
  read back from its canonical bytes, no other string is accepted for it, and the digest of a
  parsed history is that of the rebuilt one. Entry counts fit 32 bits, as the format demands.\<close>
theorem leap_history_codec:
  "ParseLeapHistory sha data = Inr lh
   \<longleftrightarrow> NewLeapHistory sha (lh_InitialTaiMinusUtc lh) (lh_Entries lh) = Inr lh
       \<and> lh_canonicalBytes lh = data \<and> length (lh_Entries lh) < 2 ^ 32"
proof
  assume p: "ParseLeapHistory sha data = Inr lh"
  define count where "count = unat (Uint32 (slice data 9 13))"
  from p have ok: "13 \<le> length data" "take 5 data = leapMagic" "length data = 13 + count * 16"
    and pe: "parse_entries count None (drop 13 data) = Inr (lh_Entries lh)"
    and lh: "lh_InitialTaiMinusUtc lh = Uint32 (slice data 5 9)" "lh_ID lh = sha data" "lh_canonicalBytes lh = data"
    by (auto simp: ParseLeapHistory_def Let_def count_def split: if_splits sum.splits)
  have len: "length (lh_Entries lh) = count"
    and w: "\<And>buf. write_entries None (lh_Entries lh) buf = Inr (buf @ drop 13 data)"
    using parse_entries_write [OF pe] ok(3) by simp_all
  have cnt: "(of_nat count :: u32) = Uint32 (slice data 9 13)" by (simp add: count_def)
  have "leapMagic @ PutUint32 (lh_InitialTaiMinusUtc lh) @ PutUint32 (of_nat (length (lh_Entries lh)))
      = slice data 0 5 @ slice data 5 9 @ slice data 9 13"
    using ok(1) by (simp add: lh(1) len cnt be32.enc_dec ok(2) [symmetric] slice_def)
  also have "\<dots> = take 13 data" by (simp only: slice_join) (simp add: slice_def)
  finally have "NewLeapHistory sha (lh_InitialTaiMinusUtc lh) (lh_Entries lh) = Inr lh"
    using lh by (simp add: NewLeapHistory_def w)
  moreover have "count < 2 ^ 32"
    using unsigned_less [of "Uint32 (slice data 9 13)", where ?'a = nat] by (simp add: count_def)
  ultimately show "NewLeapHistory sha (lh_InitialTaiMinusUtc lh) (lh_Entries lh) = Inr lh
       \<and> lh_canonicalBytes lh = data \<and> length (lh_Entries lh) < 2 ^ 32"
    using lh(3) len by simp
next
  define es i where "es = lh_Entries lh" and "i = lh_InitialTaiMinusUtc lh"
  define hd where "hd = leapMagic @ PutUint32 i @ PutUint32 (of_nat (length es))"
  assume "NewLeapHistory sha (lh_InitialTaiMinusUtc lh) (lh_Entries lh) = Inr lh
       \<and> lh_canonicalBytes lh = data \<and> length (lh_Entries lh) < 2 ^ 32"
  then have a: "NewLeapHistory sha i es = Inr lh" "lh_canonicalBytes lh = data" "length es < 2 ^ 32"
    by (simp_all add: es_def i_def)
  from a(1) obtain canon where canon: "write_entries None es hd = Inr canon"
    "lh = \<lparr>lh_InitialTaiMinusUtc = i, lh_Entries = es, lh_ID = sha canon, lh_canonicalBytes = canon\<rparr>"
    by (auto simp: NewLeapHistory_def hd_def split: sum.splits)
  then have w: "write_entries None es hd = Inr data" and lh: "lh_ID lh = sha data"
    using a(2) by simp_all
  have d: "data = hd @ concat (map encode_entry es)" "parse_entries (length es) None (concat (map encode_entry es)) = Inr es"
    using write_entries_parse [OF w] by simp_all
  have len: "length (concat (map encode_entry es)) = 16 * length es" 
    by (rule length_concat_const) (simp add: encode_entry_parts)
  have hd: "length hd = 13" "take 5 hd = leapMagic" "slice hd 5 9 = PutUint32 i"
    "slice hd 9 13 = PutUint32 (of_nat (length es))"
    by (simp_all add: hd_def leapMagic_def slice_def)
  have sl: "take 5 data = leapMagic" "slice data 5 9 = PutUint32 i" "slice data 9 13 = PutUint32 (of_nat (length es))"
    "drop 13 data = concat (map encode_entry es)" "length data = 13 + 16 * length es"
    using hd len by (simp_all add: d(1) slice_append_left)
  have cnt: "unat (of_nat (length es) :: u32) = length es" using a(3) by (simp add: unat_of_nat)
  show "ParseLeapHistory sha data = Inr lh"
    unfolding ParseLeapHistory_def Let_def sl be32.dec_enc cnt using a(2) lh d(2)
    by (simp add: es_def i_def)
qed

subsection \<open>Labels and instants\<close>

text \<open>
  The tables for which the label arithmetic is exact: what \<open>NewLeapHistory\<close> accepts, positive leap
  seconds at the end of a UTC day (the constructor does not check this), transitions within 2^54
  seconds (570 million years) of 1970, and fewer than 2^32 entries.
\<close>

definition entry_ok :: "LeapEntry \<Rightarrow> bool" where
  "entry_ok e \<longleftrightarrow>
     (le_Delta e = 1 \<and> sint (le_TransitionUnixSecond e) mod 86400 = 0 \<or> le_Delta e = - 1) \<and>
     \<bar>sint (le_TransitionUnixSecond e)\<bar> < 2 ^ 54"

definition leap_table_ok :: "LeapHistory \<Rightarrow> bool" where
  "leap_table_ok lh \<longleftrightarrow>
     sorted_wrt (\<lambda>a b. le_TransitionUnixSecond a <s le_TransitionUnixSecond b) (lh_Entries lh) \<and>
     list_all entry_ok (lh_Entries lh) \<and> int (length (lh_Entries lh)) < 2 ^ 32"

text \<open>The hypotheses under which the loops run, with the entries left and the delta so far.\<close>

definition loop_ok :: "LeapEntry list \<Rightarrow> i64 \<Rightarrow> bool" where
  "loop_ok es c \<longleftrightarrow>
     sorted_wrt (\<lambda>a b. le_TransitionUnixSecond a <s le_TransitionUnixSecond b) es \<and>
     list_all entry_ok es \<and> \<bar>sint c\<bar> + int (length es) < 2 ^ 33"

lemma loop_ok_initial: "leap_table_ok lh \<Longrightarrow> loop_ok (lh_Entries lh) 0"
  by (simp add: leap_table_ok_def loop_ok_def)

lemma sint_delta:
  assumes "entry_ok e"
  shows "le_Delta e = 1 \<and> sint (scast (le_Delta e) :: i64) = 1 \<or> le_Delta e = - 1 \<and> sint (scast (le_Delta e) :: i64) = - 1"
  using assms by (auto simp: entry_ok_def)

lemma loop_step:
  assumes "loop_ok (e # es) c"
  shows "loop_ok es c" "loop_ok es (c + scast (le_Delta e))"
    and "sint (le_TransitionUnixSecond e + c) = sint (le_TransitionUnixSecond e) + sint c"
    and "sint (le_TransitionUnixSecond e + c + scast (le_Delta e))
         = sint (le_TransitionUnixSecond e) + sint c + sint (scast (le_Delta e) :: i64)"
    and "sint (c + scast (le_Delta e)) = sint c + sint (scast (le_Delta e) :: i64)"
    and "\<And>e'. e' \<in> set es \<Longrightarrow> sint (le_TransitionUnixSecond e) < sint (le_TransitionUnixSecond e')"
    and "entry_ok e"
proof -
  show e: "entry_ok e" and "loop_ok es c" using assms by (auto simp: loop_ok_def)
  define d where "d = sint (scast (le_Delta e) :: i64)"
  have d: "d = 1 \<or> d = - 1" using sint_delta [OF e] by (auto simp: d_def)
  have c: "\<bar>sint c\<bar> + int (length es) + 1 < 2 ^ 33" using assms by (simp add: loop_ok_def)
  have T: "\<bar>sint (le_TransitionUnixSecond e)\<bar> < 2 ^ 54" using e by (simp add: entry_ok_def)
  show s: "sint (le_TransitionUnixSecond e + c) = sint (le_TransitionUnixSecond e) + sint c"
    by (rule sint_add_exact) (use T c in \<open>simp add: in_i64_def; linarith\<close>)
  show "sint (le_TransitionUnixSecond e + c + scast (le_Delta e))
         = sint (le_TransitionUnixSecond e) + sint c + sint (scast (le_Delta e) :: i64)"
    unfolding s [symmetric] by (rule sint_add_exact, unfold s, fold d_def) (use T c d in \<open>simp add: in_i64_def; linarith\<close>)
  show cd: "sint (c + scast (le_Delta e)) = sint c + sint (scast (le_Delta e) :: i64)"
    by (rule sint_add_exact, fold d_def) (use c d in \<open>simp add: in_i64_def; linarith\<close>)
  show "\<And>e'. e' \<in> set es \<Longrightarrow> sint (le_TransitionUnixSecond e) < sint (le_TransitionUnixSecond e')"
    using assms by (auto simp: loop_ok_def go_signed)
  have "\<bar>sint (c + scast (le_Delta e))\<bar> + int (length es) < 2 ^ 33"
    unfolding cd d_def [symmetric] using c d by linarith
  then show "loop_ok es (c + scast (le_Delta e))" using assms by (auto simp: loop_ok_def)
qed

text \<open>Once one entry is not passed, no later one is passed or hit.\<close>

lemma utc_loop_stays:
  assumes "loop_ok es c" "\<And>e. e \<in> set es \<Longrightarrow> sint sec < sint c + sint (le_TransitionUnixSecond e)
    \<and> sint sec < sint c + sint (le_TransitionUnixSecond e) + sint (scast (le_Delta e) :: i64)"
  shows "utc_loop sec es c = Inr c"
  using assms
proof (induction es)
  case (Cons e es)
  note st = loop_step [OF Cons.prems(1)]
  have "sint sec < sint c + sint (le_TransitionUnixSecond e)"
    "sint sec < sint c + sint (le_TransitionUnixSecond e) + sint (scast (le_Delta e) :: i64)"
    using Cons.prems(2) [of e] by simp_all
  then have "\<not> (sec = le_TransitionUnixSecond e + c)" "\<not> le_TransitionUnixSecond e + c + scast (le_Delta e) \<le>s sec"
    using st(3,4) by (auto simp: go_signed)
  moreover have "utc_loop sec es c = Inr c" using Cons.prems(2) by (intro Cons.IH st(1)) simp_all
  ultimately show ?case by (simp add: Let_def)
qed simp

lemma delta_loop_stays:
  "(\<And>e. e \<in> set es \<Longrightarrow> sint u < sint (le_TransitionUnixSecond e)) \<Longrightarrow> delta_loop u es c = c"
proof (induction es)
  case (Cons e es)
  have "\<not> sint (le_TransitionUnixSecond e) \<le> sint u" using Cons.prems [of e] by simp
  with Cons show ?case by (simp add: go_signed)
qed simp

text \<open>The loop of \<open>GstInstantToUtc\<close> is undone by those of \<open>UtcToGstInstant\<close>.\<close>

lemma sub_exact_bounds:
  "\<bar>sint (a :: i64)\<bar> < 2 ^ 55 \<Longrightarrow> \<bar>sint b\<bar> < 2 ^ 55 \<Longrightarrow> sint (a - b) = sint a - sint b \<and> sint (a + b) = sint a + sint b"
  by (intro conjI sint_sub_exact sint_add_exact) (simp add: in_i64_def; linarith)+

lemma utc_loop_undone:
  assumes "loop_ok es c" "\<bar>sint sec\<bar> < 2 ^ 54"
  shows "case utc_loop sec es c of
     Inl T \<Rightarrow> leap_label_loop T es c = Some sec \<and> (\<exists>e \<in> set es. T = le_TransitionUnixSecond e \<and> le_Delta e = 1)
   | Inr C \<Rightarrow> delta_loop (sec - C) es c = C \<and> \<bar>sint C\<bar> < 2 ^ 33 \<and>
       (\<forall>L. (\<forall>e \<in> set es. L < sint (le_TransitionUnixSecond e)) \<longrightarrow> L \<le> sint sec - sint c \<longrightarrow> L \<le> sint sec - sint C)"
  using assms
proof (induction es arbitrary: c)
  case Nil
  then show ?case by (simp add: loop_ok_def)
next
  case (Cons e es)
  note st = loop_step [OF Cons.prems(1)]
  define T d where "T = le_TransitionUnixSecond e" and "d = sint (scast (le_Delta e) :: i64)"
  have d: "le_Delta e = 1 \<and> d = 1 \<or> le_Delta e = - 1 \<and> d = - 1" using sint_delta [OF st(7)] by (simp add: d_def)
  have c: "\<bar>sint c\<bar> < 2 ^ 33" using Cons.prems(1) by (simp add: loop_ok_def)
  consider (hit) "le_Delta e = 1" "sec = T + c"
    | (pass) "\<not> (le_Delta e = 1 \<and> sec = T + c)" "sint T + sint c + d \<le> sint sec"
    | (stay) "sint sec < sint c + sint T" "sint sec < sint c + sint T + d"
    using d st(3) by (fastforce simp: T_def sint_eq_iff64 [of sec])
  then show ?case
  proof cases
    case hit
    then show ?thesis by (simp add: T_def)
  next
    case pass
    have "sint (T + c + scast (le_Delta e)) = sint T + sint c + d" using st(4) by (simp add: T_def d_def)
    then have "T + c + scast (le_Delta e) \<le>s sec" using pass(2) by (simp add: go_signed)
    then have r: "utc_loop sec (e # es) c = utc_loop sec es (c + scast (le_Delta e))"
      using pass(1) unfolding utc_loop.simps Let_def T_def by (simp only: if_False if_True)
    note IH = Cons.IH [OF st(2) Cons.prems(2)]
    show ?thesis
    proof (cases "utc_loop sec es (c + scast (le_Delta e))")
      case (Inl T')
      then obtain e' where e': "e' \<in> set es" "T' = le_TransitionUnixSecond e'" "le_Delta e' = 1"
        "leap_label_loop T' es (c + scast (le_Delta e)) = Some sec" using IH by auto
      then have "le_TransitionUnixSecond e \<noteq> T'" using st(6) [of e'] by auto
      then show ?thesis using e'(1-4) unfolding r Inl by auto
    next
      case (Inr C)
      with IH have ih: "delta_loop (sec - C) es (c + scast (le_Delta e)) = C" "\<bar>sint C\<bar> < 2 ^ 33"
        "\<And>L. (\<And>e. e \<in> set es \<Longrightarrow> L < sint (le_TransitionUnixSecond e)) \<Longrightarrow>
          L \<le> sint sec - sint (c + scast (le_Delta e)) \<Longrightarrow> L \<le> sint sec - sint C" by auto
      have le: "sint T \<le> sint sec - sint C"
        using st(6) pass(2) st(5) by (intro ih(3)) (simp_all add: T_def d_def)
      have "sint (sec - C) = sint sec - sint C"
        using sub_exact_bounds [of sec C] Cons.prems(2) ih(2) by fastforce
      with le have "delta_loop (sec - C) (e # es) c = C" using ih(1) by (simp add: go_signed T_def)
      then show ?thesis using ih(2) le unfolding r Inr by (auto simp: T_def)
    qed
  next
    case stay
    have all: "sint sec < sint c + sint (le_TransitionUnixSecond e')
        \<and> sint sec < sint c + sint (le_TransitionUnixSecond e') + sint (scast (le_Delta e') :: i64)"
      if e': "e' \<in> set (e # es)" for e'
    proof (cases "e' = e")
      case True
      then show ?thesis using stay by (simp add: T_def d_def)
    next
      case False
      with e' have "e' \<in> set es" by simp
      moreover from this have "sint (scast (le_Delta e') :: i64) = 1 \<or> sint (scast (le_Delta e') :: i64) = - 1"
        using st(1) sint_delta [of e'] by (auto simp: loop_ok_def list_all_iff)
      ultimately show ?thesis using stay d st(6) [of e'] unfolding T_def by linarith
    qed
    have "sint (sec - c) = sint sec - sint c"
      using sub_exact_bounds [of sec c] Cons.prems(2) c by fastforce
    then have "delta_loop (sec - c) (e # es) c = c" using all by (intro delta_loop_stays) force
    then show ?thesis using utc_loop_stays [OF Cons.prems(1) all] c by simp
  qed
qed

text \<open>The calendar: dates of package time are read back.\<close>

lemma time_Date_Unix_normal:
  "1 \<le> m \<Longrightarrow> m \<le> 12 \<Longrightarrow> time_Date_Unix y m d s = word_of_int (days_from_civil y m d * 86400 + s)"
proof -
  assume m: "1 \<le> m" "m \<le> 12"
  have "(m - 1) div 12 = 0" "(m - 1) mod 12 + 1 = m" using m by simp_all
  moreover have "days_from_civil y m 1 + d - 1 = days_from_civil y m d" by (simp add: days_from_civil_def Let_def)
  ultimately show ?thesis by (simp add: time_Date_Unix_def)
qed

lemma date_Unix_unix_date:
  assumes "\<bar>sint s\<bar> < 2 ^ 55"
  shows "date_Unix (unix_date s) k = word_of_int (sint s div 86400 * 86400 + k)"
proof -
  define z where "z = sint s div 86400"
  obtain y m d where c: "civil_from_days z = (y, m, d)" by (metis surj_pair)
  note ok = civil_from_days_ok [OF c]
  have "- 36028797018963968 \<le> sint s" "sint s \<le> 36028797018963968" using assms by (simp_all add: abs_less_iff)
  then have "- 417000000000 \<le> z" "z \<le> 417000000000" unfolding z_def by linarith+
  then have "- 2147483648 \<le> y" "y < 2147483648" using ok(6,7) by linarith+
  then have "sint (word_of_int y :: i32) = y" by (simp add: sint_sbintrunc' signed_take_bit_int_eq_self)
  moreover have "uint (word_of_int m :: u8) = m" "uint (word_of_int d :: u8) = d"
    using ok(1-4) by (simp_all add: uint_word_of_int)
  ultimately show ?thesis
    using time_Date_Unix_normal [OF ok(1,2), of y d k] ok(5)
    by (simp add: date_Unix_def unix_date_def z_def [symmetric] c)
qed

lemma split_second:
  fixes inst :: GstInstant
  defines "sec \<equiv> FloorDiv_nz inst 1000000000"
  defines "ns \<equiv> (ucast (inst - sec * 1000000000) :: u32)"
  shows "\<bar>sint sec\<bar> < 2 ^ 34" "ns < 1000000000" "sec * 1000000000 + ucast ns = inst"
    "sint sec = sint inst div 1000000000"
proof -
  show s: "sint sec = sint inst div 1000000000" unfolding sec_def by (rule FloorDiv_nz_1e9)
  show b: "\<bar>sint sec\<bar> < 2 ^ 34" unfolding s using sint64_ge [of inst] sint64_lt [of inst] by (simp; linarith)
  have mod: "sint inst - sint sec * 1000000000 = sint inst mod 1000000000"
    unfolding s by (simp add: minus_div_mult_eq_mod)
  have "inst - sec * 1000000000 = word_of_int (sint inst - sint sec * 1000000000)" by simp
  then have "uint (inst - sec * 1000000000) = sint inst mod 1000000000"
    unfolding mod using pos_mod_bound [of 1000000000 "sint inst"] by (simp add: uint_word_of_int)
  then have u: "uint (inst - sec * 1000000000) < 1000000000" by simp
  have ns: "uint ns = uint (inst - sec * 1000000000)"
    unfolding ns_def by (subst unsigned_ucast_eq) (use u in \<open>simp add: take_bit_int_eq_self\<close>)
  show "ns < 1000000000" using u ns by (simp add: word_less_def)
  have "uint (ucast ns :: i64) = uint (inst - sec * 1000000000)"
    using u ns by (subst unsigned_ucast_eq) (simp add: take_bit_int_eq_self)
  then have "(ucast ns :: i64) = inst - sec * 1000000000" by (simp only: word_eq_iff_unsigned [where ?'a = int])
  then show "sec * 1000000000 + ucast ns = inst" by simp
qed


text \<open>C11: (\<open>GstInstantToUtc\<close>, \<open>UtcToGstInstant\<close>) Labelling is injective and undone exactly: for every
  instant of the int64 axis the label it gets, 23:59:60 on a leap day included, converts back to
  that instant. The history has positive leap seconds at the ends of UTC days.\<close>
theorem utc_label_roundtrip:
  assumes ok: "leap_table_ok lh"
  shows "UtcToGstInstant lh (GstInstantToUtc lh inst) = Inr inst"
proof -
  define sec ns where "sec = FloorDiv_nz inst 1000000000" and "ns = (ucast (inst - sec * 1000000000) :: u32)"
  note sp = split_second [of inst, folded sec_def, folded ns_def]
  have sec: "\<bar>sint sec\<bar> < 2 ^ 54" using sp(1) by simp
  note un = utc_loop_undone [OF loop_ok_initial [OF ok] sec]
  have ns: "\<not> 1000000000 \<le> ns" using sp(2) by simp
  show ?thesis
  proof (cases "utc_loop sec (lh_Entries lh) 0")
    case (Inl T)
    with un obtain e where e: "e \<in> set (lh_Entries lh)" "T = le_TransitionUnixSecond e" "le_Delta e = 1"
      and ll: "leap_label_loop T (lh_Entries lh) 0 = Some sec" by auto
    have "entry_ok e" using ok e(1) by (simp add: leap_table_ok_def list_all_iff)
    then have T: "sint T mod 86400 = 0" "\<bar>sint T\<bar> < 2 ^ 54" using e by (auto simp: entry_ok_def)
    have T1: "sint (T - 1) = sint T - 1" using sub_exact_bounds [of T 1] T(2) by simp
    obtain q where q: "sint T = 86400 * q" using T(1) by (auto simp: mod_eq_0_iff_dvd)
    have "(sint T - 1) div 86400 = q - 1" by (rule int_div_pos_eq [where r = 86399]) (simp_all add: q)
    then have "(sint T - 1) div 86400 * 86400 + 86399 = sint T - 1" by (simp add: q)
    then have "date_Unix (unix_date (T - 1)) 86399 = word_of_int (sint (T - 1))"
      using T(2) T1 by (subst date_Unix_unix_date) (simp_all only: T1, simp)
    then have "date_Unix (unix_date (T - 1)) 86399 + 1 = T" by simp
    then show ?thesis
      using ll ns sp(3)
      by (simp add: GstInstantToUtc_def UtcToGstInstant_def Let_def sec_def [symmetric] ns_def [symmetric] Inl)
  next
    case (Inr C)
    with un have C: "delta_loop (sec - C) (lh_Entries lh) 0 = C" "\<bar>sint C\<bar> < 2 ^ 33" by simp_all
    define u where "u = sec - C"
    have u: "sint u = sint sec - sint C" using sub_exact_bounds [of sec C] sec C(2) unfolding u_def by fastforce
    define k where "k = sint u mod 86400"
    have k: "0 \<le> k" "k < 86400" by (simp_all add: k_def)
    have k32: "uint (word_of_int k :: u32) = k" using k by (simp add: uint_word_of_int)
    then have kw: "\<not> 86400 < (word_of_int k :: u32)" "(word_of_int k :: u32) \<noteq> 86400"
      using k by (auto simp: word_less_def)
    have "date_Unix (unix_date u) k = word_of_int (sint u)"
      using u sp(1) C(2) by (subst date_Unix_unix_date) (auto simp: k_def)
    then have "date_Unix (unix_date u) k = u" by simp
    then show ?thesis
      using ns sp(3) kw C(1)
      by (simp add: GstInstantToUtc_def UtcToGstInstant_def Let_def sec_def [symmetric] ns_def [symmetric] Inr
          u_def [symmetric] k_def [symmetric] k32) (simp add: u_def)
  qed
qed

definition leap_sample :: LeapHistory where
  "leap_sample = \<lparr>lh_InitialTaiMinusUtc = 37,
     lh_Entries = [\<lparr>le_TransitionUnixSecond = 1483228800, le_Delta = 1\<rparr>, \<lparr>le_TransitionUnixSecond = 1893456000, le_Delta = - 1\<rparr>],
     lh_ID = [7], lh_canonicalBytes = []\<rparr>"

lemma leap_sample_ok: "leap_table_ok leap_sample"
  by (simp add: leap_table_ok_def leap_sample_def entry_ok_def go_signed)

lemma utc_label_roundtrip_witness:
  "UtcToGstInstant leap_sample (GstInstantToUtc leap_sample 1483228800500000000) = Inr 1483228800500000000"
  by (rule utc_label_roundtrip [OF leap_sample_ok])

lemma unix_loop_stays:
  "(\<And>e. e \<in> set es \<Longrightarrow> sint s < sint (le_TransitionUnixSecond e)) \<Longrightarrow> unix_loop s es c = Inr D \<Longrightarrow> D = c"
proof (induction es)
  case (Cons e es)
  have "\<not> sint (le_TransitionUnixSecond e) \<le> sint s" using Cons.prems(1) [of e] by simp
  with Cons.prems(2) have "unix_loop s es c = Inr D" by (simp add: go_signed split: if_splits)
  with Cons show ?case by simp
qed simp

text \<open>
  The seconds \<open>UnixNanosToGstInstant\<close> accepts: \<open>GstInstantToUtc\<close>'s loop finds the same delta for the
  shifted second, and the delta never undoes the distance to a passed transition.
\<close>

lemma unix_loop_utc:
  assumes "loop_ok es c" "\<bar>sint s\<bar> < 2 ^ 35" "unix_loop s es c = Inr D"
  shows "\<bar>sint D\<bar> < 2 ^ 33 \<and> utc_loop (s + D) es c = Inr D \<and>
    (\<forall>L. (\<forall>e \<in> set es. L < sint (le_TransitionUnixSecond e)) \<longrightarrow> L \<le> sint s \<longrightarrow> L - sint s \<le> sint D - sint c)"
  using assms
proof (induction es arbitrary: c)
  case Nil
  then show ?case by (simp add: loop_ok_def)
next
  case (Cons e es)
  note st = loop_step [OF Cons.prems(1)]
  define T d where "T = le_TransitionUnixSecond e" and "d = sint (scast (le_Delta e) :: i64)"
  have d: "le_Delta e = 1 \<and> d = 1 \<or> le_Delta e = - 1 \<and> d = - 1" using sint_delta [OF st(7)] by (simp add: d_def)
  have T: "\<bar>sint T\<bar> < 2 ^ 54" using st(7) by (simp add: entry_ok_def T_def)
  have T1: "sint (T - 1) = sint T - 1" using sub_exact_bounds [of T 1] T by simp
  have "T \<noteq> MinInt64" using T by auto
  with Cons.prems(3) have ne: "s \<noteq> T - 1"
    and r: "unix_loop s es (if T \<le>s s then c + scast (le_Delta e) else c) = Inr D"
    unfolding unix_loop.simps T_def by (simp_all split: if_splits)
  have ne: "sint s \<noteq> sint T - 1" using ne T1 by (metis sint_eqI)
  show ?case
  proof (cases "sint T \<le> sint s")
    case True
    then have r: "unix_loop s es (c + scast (le_Delta e)) = Inr D" using r by (simp add: go_signed)
    then have ih: "\<bar>sint D\<bar> < 2 ^ 33" "utc_loop (s + D) es (c + scast (le_Delta e)) = Inr D"
      "\<And>L. (\<And>e. e \<in> set es \<Longrightarrow> L < sint (le_TransitionUnixSecond e)) \<Longrightarrow> L \<le> sint s \<Longrightarrow>
        L - sint s \<le> sint D - sint (c + scast (le_Delta e))"
      using Cons.IH [OF st(2) Cons.prems(2) r] by blast+
    have TD: "sint T - sint s \<le> sint D - (sint c + d)"
      using ih(3) [of "sint T"] True st(5,6) by (simp add: T_def d_def)
    have "sint (s + D) = sint s + sint D" using sub_exact_bounds [of s D] Cons.prems(2) ih(1) by fastforce
    then have "\<not> (le_Delta e = 1 \<and> s + D = T + c)" "T + c + scast (le_Delta e) \<le>s s + D"
      using TD d st(3,4) by (auto simp: sint_eq_iff64 [of "s + D"] go_signed T_def d_def)
    then have "utc_loop (s + D) (e # es) c = Inr D"
      using ih(2) unfolding utc_loop.simps Let_def T_def by (simp only: if_False if_True)
    moreover have "L - sint s \<le> sint D - sint c" if "L < sint T" for L using that TD d by linarith
    ultimately show ?thesis using ih(1) by (simp add: T_def)
  next
    case False
    then have r: "unix_loop s (e # es) c = Inr D" "unix_loop s es c = Inr D" using r Cons.prems(3) by (simp_all add: go_signed)
    have all: "sint s + 1 < sint (le_TransitionUnixSecond e')" if "e' \<in> set (e # es)" for e'
      using that False ne st(6) by (force simp: T_def)
    have D: "D = c" using r(1) by (rule unix_loop_stays [rotated]) (use all in force)
    have c: "\<bar>sint c\<bar> < 2 ^ 33" using Cons.prems(1) by (simp add: loop_ok_def)
    have sc: "sint (s + c) = sint s + sint c" using sub_exact_bounds [of s c] Cons.prems(2) c by fastforce
    have "utc_loop (s + c) (e # es) c = Inr c"
    proof (rule utc_loop_stays [OF Cons.prems(1)])
      fix e' assume e': "e' \<in> set (e # es)"
      then have "entry_ok e'" using Cons.prems(1) unfolding loop_ok_def list_all_iff by blast
      then have "- 1 \<le> sint (scast (le_Delta e') :: i64)" using sint_delta [of e'] by auto
      then show "sint (s + c) < sint c + sint (le_TransitionUnixSecond e')
        \<and> sint (s + c) < sint c + sint (le_TransitionUnixSecond e') + sint (scast (le_Delta e') :: i64)"
        using all [OF e'] sc by linarith
    qed
    then show ?thesis using c by (simp add: D)
  qed
qed

lemma willOffsetOverflow_exact:
  "willOffsetOverflow v offset \<longleftrightarrow> \<not> in_i64 (sint v + sint offset)"
proof -
  have "sint offset < 0 \<Longrightarrow> sint (MinInt64 - offset) = sint MinInt64 - sint offset"
    by (rule sint_sub_exact) (use sint64_ge [of offset] in \<open>simp add: in_i64_def\<close>)
  moreover have "0 < sint offset \<Longrightarrow> sint (MaxInt64 - offset) = sint MaxInt64 - sint offset"
    by (rule sint_sub_exact) (use sint64_lt [of offset] in \<open>simp add: in_i64_def\<close>)
  ultimately show ?thesis
    using sint64_ge [of v] sint64_lt [of v] by (auto simp: willOffsetOverflow_def go_signed in_i64_def)
qed

text \<open>(\<open>UnixNanosToGstInstant\<close>, \<open>GstInstantToUnixProjection\<close>) POSIX nanoseconds the conversion accepts are
  unambiguous: the instant they name projects back to the same nanoseconds, and never as an
  inserted leap second.\<close>
theorem unix_nanos_roundtrip:
  assumes ok: "leap_table_ok lh" and u: "UnixNanosToGstInstant lh u = Inr g"
  shows "GstInstantToUnixProjection lh g
    = \<lparr>up_Nanos = u, up_IsLeapSecond = False, up_SourceGstInstant = g, up_LeapHistoryID = lh_ID lh\<rparr>"
proof -
  define s ns where "s = FloorDiv_nz u 1000000000" and "ns = (ucast (u - s * 1000000000) :: u32)"
  note sp = split_second [of u, folded s_def, folded ns_def]
  have s35: "\<bar>sint s\<bar> < 2 ^ 35" using sp(1) by simp
  from u obtain D where D: "unix_loop s (lh_Entries lh) 0 = Inr D" "g = u + D * 1000000000"
    and no: "\<not> willOffsetOverflow u (D * 1000000000)"
    by (auto simp: UnixNanosToGstInstant_def Let_def s_def split: sum.splits if_splits)
  note ul = unix_loop_utc [OF loop_ok_initial [OF ok] s35 D(1)]
  have D33: "\<bar>sint D\<bar> < 2 ^ 33" using ul by simp
  have "in_i64 (sint D * sint (1000000000 :: i64))" using D33 by (simp add: in_i64_def; linarith)
  then have Dm: "sint (D * 1000000000) = sint D * 1000000000" by (subst sint_mult_exact) simp_all
  have g: "sint g = sint u + sint D * 1000000000"
    unfolding D(2) using no Dm by (subst sint_add_exact) (simp_all add: willOffsetOverflow_exact)
  have sD: "sint (s + D) = sint s + sint D" using sub_exact_bounds [of s D] s35 D33 by fastforce
  have gw: "sint (FloorDiv_nz g 1000000000) = sint (s + D)" by (simp add: FloorDiv_nz_1e9 g sp(4) sD)
  define w where "w = s + D"
  have sec: "FloorDiv_nz g 1000000000 = w" unfolding w_def by (rule sint_eqI) (fact gw)
  have nsg: "ucast (g - w * 1000000000) = ns" unfolding w_def ns_def D(2) by (simp add: algebra_simps)
  have wD: "w - D = s" "utc_loop w (lh_Entries lh) 0 = Inr D" using ul by (simp_all add: w_def)
  define k where "k = sint s mod 86400"
  have k: "0 \<le> k" "k < 86400" by (simp_all add: k_def)
  have k32: "uint (word_of_int k :: u32) = k" using k by (simp add: uint_word_of_int)
  then have kw: "(word_of_int k :: u32) \<noteq> 86400" using k by auto
  have "date_Unix (unix_date s) k = word_of_int (sint s)"
    using s35 by (subst date_Unix_unix_date) (auto simp: k_def)
  then show ?thesis
    using kw sp(3) by (simp add: GstInstantToUnixProjection_def GstInstantToUtc_def Let_def sec nsg wD k_def [symmetric] k32)
qed

lemma unix_nanos_roundtrip_witness:
  "GstInstantToUnixProjection leap_sample 1600000001000000000
   = \<lparr>up_Nanos = 1600000000000000000, up_IsLeapSecond = False, up_SourceGstInstant = 1600000001000000000,
      up_LeapHistoryID = lh_ID leap_sample\<rparr>"
  by (rule unix_nanos_roundtrip [OF leap_sample_ok])
    (simp add: UnixNanosToGstInstant_def leap_sample_def FloorDiv_nz_def Let_def go_quot_def go_rem_def go_signed
      hasOppositeSign_def willOffsetOverflow_def)

end
