(* ===== verification/Service.thy ===== *)
theory Service
  imports Consensus Publish Leap
begin

text \<open>
  The clock service (\<open>service.go\<close>): serving assured time from the published snapshot, the
  tri-state comparisons, the past watermark and commit-wait, and the writer transactions that run
  a round, fall back to holdover, invalidate and publish. The raw clock is an interface: every
  call of its \<open>Read\<close> and \<open>ScaleEnvelope\<close> is an argument (\<open>r\<close>, \<open>env\<close>) of the operation
  that makes it, in the order of the calls; the readings go through the continuity guard, which
  is part of the service's state. The writer mutex makes each transaction one step.
\<close>

subsection \<open>State\<close>

record ClockService =
  cs_guard :: ContinuityGuard
  cs_estimate :: EstimateMapping
  cs_assurance :: AssuranceState
  cs_lastPublic :: i64
  cs_smearPlan :: "SmearPlan option"
  cs_active :: Snapshot           \<comment> \<open>the publisher's snapshot, never nil after construction\<close>
  cs_leapHistory :: LeapHistory
  cs_configID :: bytes
  cs_epochID :: bytes

abbreviation cs_leapID :: "ClockService \<Rightarrow> bytes" where
  "cs_leapID s \<equiv> lh_ID (cs_leapHistory s)"

type_synonym envelope = "RateScale \<times> RateScale"

definition NewClockService :: "bytes \<Rightarrow> envelope \<Rightarrow> LeapHistory \<Rightarrow> bytes \<Rightarrow> i64 \<Rightarrow> ClockService" where
  "NewClockService epochID env lh cfgID maxAssuranceWidthNs =
    (let est = NewEstimateClock; ass = NewAssuranceClock epochID maxAssuranceWidthNs
     in \<lparr>cs_guard = NewContinuityGuard, cs_estimate = est, cs_assurance = ass, cs_lastPublic = 0,
         cs_smearPlan = Some \<lparr>sp_Segments = [], sp_TerminalBiasNs = 0, sp_ResidualNs = 0\<rparr>,
         cs_active =
           \<lparr>sn_EstimateMapping = est, sn_Assurance = ass, sn_RawScaleLower = fst env, sn_RawScaleUpper = snd env,
            sn_ContinuityToken = 1, sn_LeapHistoryID = lh_ID lh, sn_ConfigID = cfgID,
            sn_AssuranceEpochID = as_AssuranceEpochID ass, sn_Generation = 1\<rparr>,
         cs_leapHistory = lh, cs_configID = cfgID, cs_epochID = as_AssuranceEpochID ass\<rparr>)"

definition service_Read :: "ClockService \<Rightarrow> RawReading \<Rightarrow> RawReading \<times> ClockService" where
  "service_Read s r = (let (r', g) = Guard_Read (cs_guard s) r in (r', s\<lparr>cs_guard := g\<rparr>))"

subsection \<open>Reading the clock\<close>

definition mapPropagationError :: "go_error \<Rightarrow> StatusReason" where
  "mapPropagationError err =
    (if errors_Is err ErrContinuityTokenMismatch \<or> errors_Is err ErrRawEarlierThanAnchor then ReasonRawDiscontinuity
     else if errors_Is err ErrOverflow then ReasonArithmeticOverflow
     else ReasonBoundTooOld)"

definition propagateSnapshot :: "Snapshot \<Rightarrow> RawReading \<Rightarrow> envelope \<Rightarrow> go_error + TimeInterval" where
  "propagateSnapshot snap reading env =
    (let ass = sn_Assurance snap
     in if (case as_Anchor ass of None \<Rightarrow> False
            | Some a \<Rightarrow> fst env \<noteq> aa_RawScaleLower a \<or> snd env \<noteq> aa_RawScaleUpper a)
        then Inl ErrContinuityTokenMismatch
        else PropagateAnchor (as_Anchor ass) (rr_Raw reading) (rr_ReadBound reading)
               (rr_ContinuityToken reading) (as_LowerDebt ass) (as_UpperDebt ass) (as_MaxAssuranceWidthNs ass))"

text \<open>An estimate that cannot be computed is returned as zero, with the flag off.\<close>

definition evaluate_estimate :: "Snapshot \<Rightarrow> RawReading \<Rightarrow> GstInstant \<times> bool" where
  "evaluate_estimate snap reading =
    (case Evaluate (sn_EstimateMapping snap) (rr_Raw reading) of Inl _ \<Rightarrow> (0, False) | Inr v \<Rightarrow> (v, True))"

definition symmetric_epsilon :: "GstInstant \<Rightarrow> TimeInterval \<Rightarrow> ErrorNs" where
  "symmetric_epsilon est I =
    word_of_int (max \<bar>f64_of_int (sint (est - Earliest I))\<bar> \<bar>f64_of_int (sint (Latest I - est))\<bar>)"

definition now_without_interval :: "Snapshot \<Rightarrow> GstInstant \<times> bool \<Rightarrow> SyncStatus \<Rightarrow> StatusReason \<Rightarrow> AssuredNow" where
  "now_without_interval snap est status reason =
    \<lparr>an_Interval = interval 0 0, an_HasInterval = False, an_Estimate = fst est, an_HasEstimate = snd est,
     an_SymmetricEpsilon = 0, an_HasSymmetricEpsilon = False, an_Status = status, an_Reason = reason,
     an_AssuranceGeneration = as_Generation (sn_Assurance snap),
     an_MappingGeneration = em_MappingGeneration (sn_EstimateMapping snap),
     an_AssuranceEpochID = sn_AssuranceEpochID snap, an_LeapHistoryID = sn_LeapHistoryID snap,
     an_ConfigID = sn_ConfigID snap, an_FaultBudget = 0, an_EligibleDomains = 0, an_Age = 0\<rparr>"

definition Now :: "ClockService \<Rightarrow> RawReading \<Rightarrow> envelope \<Rightarrow> AssuredNow \<times> ClockService" where
  "Now s r env =
    (let snap = cs_active s;
         (reading, s') = service_Read s r;
         est = evaluate_estimate snap reading;
         ass = sn_Assurance snap
     in if as_Status ass = StatusSynced \<or> as_Status ass = StatusHoldover
        then (case propagateSnapshot snap reading env of
                Inr iv \<Rightarrow>
                  (case as_Anchor ass of
                     Some a \<Rightarrow>
                       ((now_without_interval snap est (as_Status ass) (as_Reason ass))
                          \<lparr>an_Interval := iv, an_HasInterval := True,
                           an_SymmetricEpsilon := symmetric_epsilon (fst est) iv, an_HasSymmetricEpsilon := True,
                           an_FaultBudget := aa_SourceFaultBudget a, an_EligibleDomains := aa_EligibleDomains a,
                           an_Age := rr_Raw reading - aa_CreatedRaw a\<rparr>, s')
                   | None \<Rightarrow> (now_without_interval snap est StatusDesync ReasonBoundTooOld, s'))
              | Inl err \<Rightarrow> (now_without_interval snap est StatusDesync (mapPropagationError err), s'))
        else (now_without_interval snap est (as_Status ass) (as_Reason ass), s'))"

text \<open>
  \<open>NowUtc\<close>: labels of the interval's ends and of the estimate; zero labels when there is no interval.
\<close>

definition zero_label :: UtcLabel where
  "zero_label = \<lparr>ul_Date = \<lparr>gd_Year = 0, gd_Month = 0, gd_Day = 0\<rparr>, ul_SecondOfDay = 0, ul_Nanos = 0,
                 ul_LeapHistoryID = replicate 32 0\<rparr>"

definition NowUtc :: "ClockService \<Rightarrow> RawReading \<Rightarrow> envelope \<Rightarrow> bytes
    \<Rightarrow> (UtcLabel \<times> UtcLabel \<times> UtcLabel option \<times> SyncStatus \<times> go_error option) \<times> ClockService" where
  "NowUtc s r env expectedLeapID =
    (if expectedLeapID \<noteq> cs_leapID s
     then ((zero_label, zero_label, None, StatusDesync, Some (Api ErrLeapHistoryMismatch)), s)
     else
       let (now, s') = Now s r env;
           est = (if an_HasEstimate now then Some (GstInstantToUtc (cs_leapHistory s) (an_Estimate now)) else None)
       in if \<not> an_HasInterval now then ((zero_label, zero_label, est, an_Status now, None), s')
          else ((GstInstantToUtc (cs_leapHistory s) (Earliest (an_Interval now)),
                 GstInstantToUtc (cs_leapHistory s) (Latest (an_Interval now)), est, an_Status now, None), s'))"

definition NowUnixProjection :: "ClockService \<Rightarrow> RawReading \<Rightarrow> envelope \<Rightarrow> (go_error + UnixProjection) \<times> ClockService" where
  "NowUnixProjection s r env =
    (let (now, s') = Now s r env
     in (if \<not> an_HasEstimate now then Inl (Err ''estimate unavailable'')
         else Inr (GstInstantToUnixProjection (cs_leapHistory s) (an_Estimate now)), s'))"

definition public_now :: "GstInstant \<Rightarrow> TimeInterval option \<Rightarrow> ErrorNs \<Rightarrow> SyncStatus \<Rightarrow> StatusReason \<Rightarrow> PublicAssuredNow" where
  "public_now center iv eps status reason =
    \<lparr>pn_Center = center, pn_Interval = (case iv of None \<Rightarrow> interval 0 0 | Some I \<Rightarrow> I), pn_HasInterval = (iv \<noteq> None),
     pn_PublicSymmetricEpsilon = eps, pn_Status = status, pn_Reason = reason\<rparr>"

definition SetSmearPlan :: "SmearPlan option \<Rightarrow> ClockService \<Rightarrow> ClockService" where
  "SetSmearPlan plan s = s\<lparr>cs_smearPlan := plan\<rparr>"

definition NowPublicAssured :: "ClockService \<Rightarrow> RawReading \<Rightarrow> envelope \<Rightarrow> PublicAssuredNow \<times> ClockService" where
  "NowPublicAssured s r env =
    (let snap = cs_active s;
         (reading, s1) = service_Read s r;
         est = fst (evaluate_estimate snap reading);
         (pCenter, clampDebt, lastPublic) = ReadPublicInstant (cs_smearPlan s1) (cs_lastPublic s1) est (rr_Raw reading);
         s2 = s1\<lparr>cs_lastPublic := lastPublic\<rparr>;
         ass = sn_Assurance snap
     in if as_Status ass = StatusSynced \<or> as_Status ass = StatusHoldover
        then (case propagateSnapshot snap reading env of
                Inr iv \<Rightarrow>
                  let pubEps = ComputePublicSymmetricEpsilon pCenter (Some iv) (rr_ReadBound reading)
                  in if PublicEpsilonCapDefault \<le> pubEps
                     then (public_now pCenter None pubEps StatusDesync ReasonPublicBoundTooWide, s2)
                     else (public_now pCenter (Some iv) pubEps (as_Status ass) (as_Reason ass), s2)
              | Inl err \<Rightarrow> (public_now pCenter None ErrorInfinity StatusDesync (mapPropagationError err), s2))
        else (public_now pCenter None ErrorInfinity (as_Status ass) (as_Reason ass), s2))"

text \<open>\<open>After\<close> and \<open>Before\<close>, on the value of the call of \<open>Now\<close> that they make.\<close>

definition after_decision :: "AssuredNow \<Rightarrow> GstInstant \<Rightarrow> Decision \<times> SyncStatus \<times> StatusReason" where
  "after_decision now t =
    (if \<not> an_HasInterval now then (Unknown, an_Status now, an_Reason now)
     else if t <s Earliest (an_Interval now) then (CertainYes, an_Status now, an_Reason now)
     else if Latest (an_Interval now) \<le>s t then (CertainNo, an_Status now, an_Reason now)
     else (Unknown, an_Status now, an_Reason now))"

definition After :: "ClockService \<Rightarrow> RawReading \<Rightarrow> envelope \<Rightarrow> GstInstant \<Rightarrow> (Decision \<times> SyncStatus \<times> StatusReason) \<times> ClockService" where
  "After s r env t = (let (now, s') = Now s r env in (after_decision now t, s'))"

definition before_decision :: "AssuredNow \<Rightarrow> GstInstant \<Rightarrow> Decision \<times> SyncStatus \<times> StatusReason" where
  "before_decision now t =
    (if \<not> an_HasInterval now then (Unknown, an_Status now, an_Reason now)
     else if Latest (an_Interval now) <s t then (CertainYes, an_Status now, an_Reason now)
     else if t \<le>s Earliest (an_Interval now) then (CertainNo, an_Status now, an_Reason now)
     else (Unknown, an_Status now, an_Reason now))"

definition Before :: "ClockService \<Rightarrow> RawReading \<Rightarrow> envelope \<Rightarrow> GstInstant \<Rightarrow> (Decision \<times> SyncStatus \<times> StatusReason) \<times> ClockService" where
  "Before s r env t = (let (now, s') = Now s r env in (before_decision now t, s'))"

definition PastWatermark ::
  "ClockService \<Rightarrow> RawReading \<Rightarrow> envelope \<Rightarrow> bytes \<Rightarrow> bytes \<Rightarrow> bytes \<Rightarrow>
    (GstInstant \<times> SyncStatus \<times> go_error option) \<times> ClockService" where
  "PastWatermark s r env epochID leapID cfgID =
    (let snap = cs_active s; status = as_Status (sn_Assurance snap)
     in if sn_AssuranceEpochID snap \<noteq> epochID then ((0, status, Some (Api ErrConfigurationMismatch)), s)
        else if sn_LeapHistoryID snap \<noteq> leapID then ((0, status, Some (Api ErrLeapHistoryMismatch)), s)
        else if sn_ConfigID snap \<noteq> cfgID then ((0, status, Some (Api ErrConfigurationMismatch)), s)
        else if status = StatusUnanchored then ((0, status, Some (Api ErrUnanchored)), s)
        else if status = StatusDesync then ((0, status, Some (Api ErrDesynchronized)), s)
        else
          let (reading, s') = service_Read s r
          in case propagateSnapshot snap reading env of
               Inl _ \<Rightarrow> ((0, StatusDesync, Some (Api ErrDesynchronized)), s')
             | Inr _ \<Rightarrow> ((as_PastWatermark (sn_Assurance snap), status, None), s'))"

subsection \<open>Waiting\<close>

datatype ctx_error = DeadlineExceeded | Canceled

definition ctx_api_error :: "ctx_error \<Rightarrow> go_error" where
  "ctx_api_error e = (case e of DeadlineExceeded \<Rightarrow> Api ErrDeadlineExceeded | Canceled \<Rightarrow> Api ErrCancelled)"

text \<open>
  One turn of a waiting loop, as its environment presents it: the context's error on entry, the
  service and raw clock as the turn reads them (other goroutines may have changed the service
  since the last turn), and what ends the pause, the context's error or the timer (None).
\<close>

record wait_turn =
  wt_ctxErr :: "ctx_error option"
  wt_service :: ClockService
  wt_reading :: RawReading
  wt_envelope :: envelope
  wt_wake :: "ctx_error option"

text \<open>
  The result after the turns given: None while still waiting, \<open>Some None\<close> for a nil error.
\<close>

fun CommitWait :: "wait_turn list \<Rightarrow> GstInstant \<Rightarrow> bytes \<Rightarrow> bytes \<Rightarrow> bytes \<Rightarrow> go_error option option" where
  "CommitWait [] commitTs epochID leapID cfgID = None"
| "CommitWait (w # ws) commitTs epochID leapID cfgID =
    (case wt_ctxErr w of
       Some e \<Rightarrow> Some (Some (ctx_api_error e))
     | None \<Rightarrow>
       (case fst (PastWatermark (wt_service w) (wt_reading w) (wt_envelope w) epochID leapID cfgID) of
          (wm, status, err) \<Rightarrow>
            if err \<noteq> None then Some err
            else if status = StatusDesync then Some (Some (Api ErrDesynchronized))
            else if commitTs <s wm then Some None
            else (case wt_wake w of
                    Some e \<Rightarrow> Some (Some (ctx_api_error e))
                  | None \<Rightarrow> CommitWait ws commitTs epochID leapID cfgID)))"

fun WaitSync_loop :: "wait_turn list \<Rightarrow> go_error option option" where
  "WaitSync_loop [] = None"
| "WaitSync_loop (w # ws) =
    (case wt_ctxErr w of
       Some e \<Rightarrow> Some (Some (ctx_api_error e))
     | None \<Rightarrow>
       if an_Status (fst (Now (wt_service w) (wt_reading w) (wt_envelope w))) = StatusSynced then Some None
       else (case wt_wake w of
               Some e \<Rightarrow> Some (Some (ctx_api_error e))
             | None \<Rightarrow> WaitSync_loop ws))"

definition WaitSync :: "ClockService \<Rightarrow> RawReading \<Rightarrow> envelope \<Rightarrow> wait_turn list \<Rightarrow> go_error option option" where
  "WaitSync s r env ws =
    (if an_Status (fst (Now s r env)) = StatusSynced then Some None else WaitSync_loop ws)"

subsection \<open>Writer transactions\<close>

definition publishCurrent :: "ClockService \<Rightarrow> RawReading \<Rightarrow> envelope \<Rightarrow> go_error option \<times> ClockService" where
  "publishCurrent s r env =
    (let (reading, s1) = service_Read s r;
         cur = cs_active s1;
         gen = sn_Generation cur + 1;
         nextSnap =
           \<lparr>sn_EstimateMapping = cs_estimate s1, sn_Assurance = cs_assurance s1,
            sn_RawScaleLower = fst env, sn_RawScaleUpper = snd env,
            sn_ContinuityToken = rr_ContinuityToken reading, sn_LeapHistoryID = cs_leapID s1,
            sn_ConfigID = cs_configID s1, sn_AssuranceEpochID = cs_epochID s1, sn_Generation = gen\<rparr>
     in case Publisher_Publish (Some cur) (Some nextSnap) of
          (err, active) \<Rightarrow> (err, s1\<lparr>cs_active := (case active of None \<Rightarrow> cur | Some a \<Rightarrow> a)\<rparr>))"

definition markRoundFailure ::
  "ClockService \<Rightarrow> i64 \<Rightarrow> RawReading \<Rightarrow> envelope \<Rightarrow> RawReading \<Rightarrow> RawReading \<Rightarrow> envelope \<Rightarrow>
    go_error option \<times> ClockService" where
  "markRoundFailure s maxHoldoverAge r1 env1 r2 r3 env3 =
    (let snap = cs_active s; status = as_Status (sn_Assurance snap)
     in if status = StatusUnanchored \<or> status = StatusDesync then (None, s)
        else
          let (reading1, s1) = service_Read s r1
          in case propagateSnapshot snap reading1 env1 of
               Inl err \<Rightarrow>
                 publishCurrent (s1\<lparr>cs_assurance := TransitionToDesync (cs_assurance s1) (mapPropagationError err)\<rparr>) r3 env3
             | Inr _ \<Rightarrow>
                 let s2 = s1\<lparr>cs_assurance := BeginHoldover (cs_assurance s1) ReasonInsufficientDomains maxHoldoverAge\<rparr>;
                     (reading2, s3) = service_Read s2 r2;
                     (iv, st, reason, e) = EvaluateAt (cs_assurance s3) (rr_Raw reading2) (rr_ReadBound reading2) (rr_ContinuityToken reading2);
                     s4 = (if st = StatusDesync
                           then s3\<lparr>cs_assurance := TransitionToDesync (cs_assurance s3) reason\<rparr> else s3)
                 in publishCurrent s4 r3 env3)"

definition publishSyncRound ::
  "ClockService \<Rightarrow> RawReading \<Rightarrow> envelope \<Rightarrow> AssuranceConsensusResult \<Rightarrow> RawNanos \<Rightarrow>
    RawReading \<Rightarrow> envelope \<Rightarrow> RawReading \<Rightarrow> envelope \<Rightarrow> go_error option \<times> ClockService" where
  "publishSyncRound s selection env consensus validUntil r1 env1 r2 env2 =
    (case ValidateHull (cr_Hull consensus) (as_MaxAssuranceWidthNs (cs_assurance s)) of
       Some e \<Rightarrow> (Some e, s)
     | None \<Rightarrow>
       let (current, s1) = service_Read s r1
       in if rr_Raw current < rr_Raw selection \<or> rr_ContinuityToken current \<noteq> rr_ContinuityToken selection \<or>
             rr_BackendGeneration current \<noteq> rr_BackendGeneration selection \<or>
             fst env1 \<noteq> fst env \<or> snd env1 \<noteq> snd env
          then (case publishCurrent (s1\<lparr>cs_assurance := TransitionToDesync (cs_assurance s1) ReasonRawDiscontinuity\<rparr>) r2 env2 of
                  (e, s2) \<Rightarrow> (errors_Join (Some ErrContinuityTokenMismatch) e, s2))
          else (case ProcessFullRound (cs_assurance s1) (rr_Raw selection) (cr_Hull consensus) (rr_ReadBound selection)
                       (fst env) (snd env) (rr_ContinuityToken selection) validUntil
                       (ucast (cr_FaultBudget consensus)) (ucast (cr_EligibleDomains consensus))
                       (ucast (cr_ThresholdK consensus)) (of_nat (length (cr_Components consensus)))
                       (cs_leapID s1) (cs_configID s1) of
                  (Inl err, ass) \<Rightarrow>
                    (case publishCurrent (s1\<lparr>cs_assurance := ass\<rparr>) r2 env2 of
                       (e, s2) \<Rightarrow> (errors_Join (Some err) e, s2))
                | (Inr _, ass) \<Rightarrow>
                    let span = Latest (cr_Hull consensus) - Earliest (cr_Hull consensus);
                        center = Earliest (cr_Hull consensus) + span div 2;
                        s2 = s1\<lparr>cs_assurance := ass,
                                cs_estimate := InitializeAnchors (cs_estimate s1) (rr_Raw selection) center 0\<rparr>
                    in publishCurrent s2 r2 env2))"

definition PublishAssuranceRound ::
  "ClockService \<Rightarrow> RawNanos \<Rightarrow> TimeInterval \<Rightarrow> u32 \<Rightarrow> u32 \<Rightarrow> u32 \<Rightarrow> u32 \<Rightarrow> RawNanos \<Rightarrow>
    RawReading \<Rightarrow> envelope \<Rightarrow> RawReading \<Rightarrow> envelope \<Rightarrow> go_error option \<times> ClockService" where
  "PublishAssuranceRound s rSel hullI faultBudget eligibleDomains coverageThreshold componentCount validUntilRaw r1 env1 r2 env2 =
    (case ValidateHull hullI (as_MaxAssuranceWidthNs (cs_assurance s)) of
       Some e \<Rightarrow> (Some e, s)
     | None \<Rightarrow>
       let (reading, s1) = service_Read s r1
       in case ProcessFullRound (cs_assurance s1) rSel hullI (rr_ReadBound reading) (fst env1) (snd env1)
                 (rr_ContinuityToken reading) validUntilRaw faultBudget eligibleDomains coverageThreshold componentCount
                 (cs_leapID s1) (cs_configID s1) of
            (Inl err, ass) \<Rightarrow>
              (case publishCurrent (s1\<lparr>cs_assurance := ass\<rparr>) r2 env2 of (e, s2) \<Rightarrow> (errors_Join (Some err) e, s2))
          | (Inr _, ass) \<Rightarrow> publishCurrent (s1\<lparr>cs_assurance := ass\<rparr>) r2 env2)"

definition InitializeEstimate ::
  "ClockService \<Rightarrow> RawNanos \<Rightarrow> GstInstant \<Rightarrow> RateFrac \<Rightarrow> RawReading \<Rightarrow> envelope \<Rightarrow> go_error option \<times> ClockService" where
  "InitializeEstimate s raw0 target baseRate r env =
    publishCurrent (s\<lparr>cs_estimate := InitializeAnchors (cs_estimate s) raw0 target baseRate\<rparr>) r env"

definition Invalidate :: "ClockService \<Rightarrow> RawReading \<Rightarrow> envelope \<Rightarrow> go_error option \<times> ClockService" where
  "Invalidate s r env =
    publishCurrent (s\<lparr>cs_assurance := TransitionToDesync (cs_assurance s) ReasonRawDiscontinuity\<rparr>) r env"

subsection \<open>What each operation does to the two assurance states\<close>

text \<open>
  The service keeps the assurance clock's state and, in the active snapshot, an earlier or equal
  one; readers change neither.
\<close>

lemma service_Read_frame [simp]:
  "cs_assurance (snd (service_Read s r)) = cs_assurance s" "cs_active (snd (service_Read s r)) = cs_active s"
  "cs_estimate (snd (service_Read s r)) = cs_estimate s" "cs_lastPublic (snd (service_Read s r)) = cs_lastPublic s"
  "cs_smearPlan (snd (service_Read s r)) = cs_smearPlan s"
  "cs_leapHistory (snd (service_Read s r)) = cs_leapHistory s" "cs_configID (snd (service_Read s r)) = cs_configID s"
  "cs_epochID (snd (service_Read s r)) = cs_epochID s"
  by (simp_all add: service_Read_def split: prod.splits)

lemma Guard_Read_raw [simp]:
  "rr_Raw (fst (Guard_Read g r)) = rr_Raw r" "rr_ReadBound (fst (Guard_Read g r)) = rr_ReadBound r"
  "rr_BackendGeneration (fst (Guard_Read g r)) = rr_BackendGeneration r"
  by (simp_all add: Guard_Read_def Let_def)

lemma service_Read_raw [simp]:
  "rr_Raw (fst (service_Read s r)) = rr_Raw r" "rr_ReadBound (fst (service_Read s r)) = rr_ReadBound r"
  "rr_BackendGeneration (fst (service_Read s r)) = rr_BackendGeneration r"
  using Guard_Read_raw [of "cs_guard s" r] by (simp_all add: service_Read_def split_beta)

lemma publishCurrent_frame:
  "cs_assurance (snd (publishCurrent s r env)) = cs_assurance s"
  "cs_active (snd (publishCurrent s r env)) = cs_active s \<or>
   sn_Assurance (cs_active (snd (publishCurrent s r env))) = cs_assurance s \<and> fst (publishCurrent s r env) = None"
  by (auto simp: publishCurrent_def Let_def Publisher_Publish_def split_beta split: option.splits)

lemma publishCurrent_ok:
  "fst (publishCurrent s r env) = None \<Longrightarrow>
    sn_Assurance (cs_active (snd (publishCurrent s r env))) = cs_assurance s \<and>
    sn_Generation (cs_active s) < sn_Generation (cs_active (snd (publishCurrent s r env))) \<and>
    coherent (cs_active (snd (publishCurrent s r env)))"
  by (auto simp: publishCurrent_def Let_def Publisher_Publish_def ValidatePublication_None_iff split_beta
      split: option.splits)

text \<open>A transaction on the assurance clock followed by a publication.\<close>

definition advances :: "(AssuranceState \<Rightarrow> bool) \<Rightarrow> ClockService \<Rightarrow> ClockService \<Rightarrow> bool" where
  "advances P s s' \<longleftrightarrow> P (cs_assurance s') \<and>
    (cs_active s' = cs_active s \<or> sn_Assurance (cs_active s') = cs_assurance s')"

lemma advances_publish:
  assumes "P (cs_assurance s1)" "cs_active s1 = cs_active s"
  shows "advances P s (snd (publishCurrent s1 r env))"
  using assms publishCurrent_frame [of s1 r env] by (auto simp: advances_def)

lemma Now_frame: "snd (Now s r env) = snd (service_Read s r)"
  by (auto simp: Now_def Let_def split_beta split: sum.splits option.splits)

lemma NowPublicAssured_frame:
  "\<exists>l. snd (NowPublicAssured s r env) = (snd (service_Read s r))\<lparr>cs_lastPublic := l\<rparr>"
  by (auto simp: NowPublicAssured_def Let_def split_beta split: sum.splits)

lemma PastWatermark_frame: "snd (PastWatermark s r env e l c) = s \<or> snd (PastWatermark s r env e l c) = snd (service_Read s r)"
  by (auto simp: PastWatermark_def Let_def split_beta split: sum.splits)

subsection \<open>Truthful runs of the service\<close>

text \<open>
  \<open>service_run \<tau> s \<rho>\<close>: the service reaches \<open>s\<close> at true raw coordinate \<open>\<rho>\<close>. Reads, failed rounds,
  invalidations and estimate settings are arbitrary; a round publishes a hull that contains true
  time at its selection reading, with a scale envelope that holds of the oscillator, and no other
  round is published between the selection and the publication of one.
\<close>

inductive service_run :: "(real \<Rightarrow> real) \<Rightarrow> ClockService \<Rightarrow> real \<Rightarrow> bool" for \<tau> where
  new: "service_run \<tau> (NewClockService epochID env lh cfgID w) \<rho>"
| wait: "service_run \<tau> s \<rho> \<Longrightarrow> \<rho> \<le> \<rho>' \<Longrightarrow> service_run \<tau> s \<rho>'"
| now: "service_run \<tau> s \<rho> \<Longrightarrow> service_run \<tau> (snd (Now s r env)) \<rho>"
| now_public: "service_run \<tau> s \<rho> \<Longrightarrow> service_run \<tau> (snd (NowPublicAssured s r env)) \<rho>"
| smear: "service_run \<tau> s \<rho> \<Longrightarrow> service_run \<tau> (SetSmearPlan plan s) \<rho>"
| past: "service_run \<tau> s \<rho> \<Longrightarrow> service_run \<tau> (snd (PastWatermark s r env e l c)) \<rho>"
| failure: "service_run \<tau> s \<rho> \<Longrightarrow> service_run \<tau> (snd (markRoundFailure s m r1 env1 r2 r3 env3)) \<rho>"
| sync_round: "service_run \<tau> s \<rho> \<Longrightarrow> reads \<rho> (rr_Raw sel) (rr_ReadBound sel) \<Longrightarrow> encloses (cr_Hull cons) (\<tau> \<rho>) \<Longrightarrow>
    rate_ok \<tau> (fst env) (snd env) \<Longrightarrow>
    service_run \<tau> (snd (publishSyncRound s sel env cons vu r1 env1 r2 env2)) \<rho>"
| direct_round: "service_run \<tau> s \<rho> \<Longrightarrow> reads \<rho> rSel (rr_ReadBound r1) \<Longrightarrow> encloses h (\<tau> \<rho>) \<Longrightarrow>
    rate_ok \<tau> (fst env1) (snd env1) \<Longrightarrow>
    service_run \<tau> (snd (PublishAssuranceRound s rSel h fb ed ct cc vu r1 env1 r2 env2)) \<rho>"
| set_estimate: "service_run \<tau> s \<rho> \<Longrightarrow> service_run \<tau> (snd (InitializeEstimate s raw0 target rate r env)) \<rho>"
| invalidate: "service_run \<tau> s \<rho> \<Longrightarrow> service_run \<tau> (snd (Invalidate s r env)) \<rho>"

definition served_ok :: "(real \<Rightarrow> real) \<Rightarrow> ClockService \<Rightarrow> real \<Rightarrow> bool" where
  "served_ok \<tau> s \<rho> \<longleftrightarrow> truthful_run \<tau> (cs_assurance s) \<rho> \<and> truthful_run \<tau> (sn_Assurance (cs_active s)) \<rho>"

lemma served_ok_advances:
  "advances (\<lambda>a. truthful_run \<tau> a \<rho>) s s' \<Longrightarrow> served_ok \<tau> s \<rho> \<Longrightarrow> served_ok \<tau> s' \<rho>"
  by (auto simp: served_ok_def advances_def)

lemma advances_same: "P (cs_assurance s) \<Longrightarrow> advances P s s"
  by (simp add: advances_def)

lemma markRoundFailure_advances:
  assumes "truthful_run \<tau> (cs_assurance s) \<rho>"
  shows "advances (\<lambda>a. truthful_run \<tau> a \<rho>) s (snd (markRoundFailure s m r1 env1 r2 r3 env3))"
proof -
  let ?s1 = "snd (service_Read s r1)"
  let ?s2 = "?s1\<lparr>cs_assurance := BeginHoldover (cs_assurance ?s1) ReasonInsufficientDomains m\<rparr>"
  let ?s3 = "snd (service_Read ?s2 r2)"
  note runs = truthful_run.holdover [OF assms] truthful_run.desync [OF assms]
    truthful_run.desync [OF truthful_run.holdover [OF assms]]
  show ?thesis
    using assms runs
    by (auto simp: markRoundFailure_def Let_def split_beta intro!: advances_publish advances_same split: sum.splits)
qed

lemma publishSyncRound_advances:
  assumes "truthful_run \<tau> (cs_assurance s) \<rho>" "reads \<rho> (rr_Raw sel) (rr_ReadBound sel)"
    "encloses (cr_Hull cons) (\<tau> \<rho>)" "rate_ok \<tau> (fst env) (snd env)"
  shows "advances (\<lambda>a. truthful_run \<tau> a \<rho>) s (snd (publishSyncRound s sel env cons vu r1 env1 r2 env2))"
  using assms truthful_run.desync [OF assms(1)] truthful_run.round [OF assms surjective_pairing]
  by (auto simp: publishSyncRound_def Let_def split_beta intro!: advances_publish advances_same
      split: option.splits sum.splits prod.splits)

lemma PublishAssuranceRound_advances:
  assumes "truthful_run \<tau> (cs_assurance s) \<rho>" "reads \<rho> rSel (rr_ReadBound r1)"
    "encloses h (\<tau> \<rho>)" "rate_ok \<tau> (fst env1) (snd env1)"
  shows "advances (\<lambda>a. truthful_run \<tau> a \<rho>) s (snd (PublishAssuranceRound s rSel h fb ed ct cc vu r1 env1 r2 env2))"
  using assms truthful_run.round [OF assms surjective_pairing]
  by (auto simp: PublishAssuranceRound_def Let_def split_beta intro!: advances_publish advances_same
      split: option.splits sum.splits prod.splits)

lemma service_run_served: "service_run \<tau> s \<rho> \<Longrightarrow> served_ok \<tau> s \<rho>"
proof (induction rule: service_run.induct)
  case (new epochID env lh cfgID w \<rho>)
  show ?case by (simp add: served_ok_def NewClockService_def Let_def truthful_run.init)
next
  case (wait s \<rho> \<rho>')
  then show ?case by (auto simp: served_ok_def intro: truthful_run.wait)
next
  case (now s \<rho> r env)
  then show ?case by (simp add: served_ok_def Now_frame)
next
  case (smear s \<rho> plan)
  then show ?case by (simp add: served_ok_def SetSmearPlan_def)
next
  case (now_public s \<rho> r env)
  then show ?case using NowPublicAssured_frame [of s r env] by (auto simp: served_ok_def)
next
  case (past s \<rho> r env e l c)
  then show ?case using PastWatermark_frame [of s r env e l c] by (auto simp: served_ok_def)
next
  case (failure s \<rho> m r1 env1 r2 r3 env3)
  from failure.IH have "truthful_run \<tau> (cs_assurance s) \<rho>" by (simp add: served_ok_def)
  from served_ok_advances [OF markRoundFailure_advances [OF this] failure.IH] show ?case .
next
  case (sync_round s \<rho> sel cons env vu r1 env1 r2 env2)
  from sync_round.IH have "truthful_run \<tau> (cs_assurance s) \<rho>" by (simp add: served_ok_def)
  from served_ok_advances [OF publishSyncRound_advances [OF this sync_round.hyps(2-4)] sync_round.IH] show ?case .
next
  case (direct_round s \<rho> rSel r1 h env1 fb ed ct cc vu r2 env2)
  from direct_round.IH have "truthful_run \<tau> (cs_assurance s) \<rho>" by (simp add: served_ok_def)
  from served_ok_advances [OF PublishAssuranceRound_advances [OF this direct_round.hyps(2-4)] direct_round.IH] show ?case .
next
  case (set_estimate s \<rho> raw0 target rate r env)
  show ?case
    unfolding InitializeEstimate_def
    by (rule served_ok_advances [OF advances_publish set_estimate.IH]) (use set_estimate.IH in \<open>simp_all add: served_ok_def\<close>)
next
  case (invalidate s \<rho> r env)
  show ?case
    unfolding Invalidate_def
    by (rule served_ok_advances [OF advances_publish invalidate.IH])
      (use invalidate.IH in \<open>auto simp: served_ok_def intro: truthful_run.desync\<close>)
qed

lemma propagateSnapshot_encloses:
  assumes "truthful_run \<tau> (sn_Assurance snap) \<rho>" "reads \<rho> (rr_Raw reading) (rr_ReadBound reading)"
    and "propagateSnapshot snap reading env = Inr I"
  shows "encloses I (\<tau> \<rho>)"
proof -
  obtain a where a: "as_Anchor (sn_Assurance snap) = Some a"
    using assms(3) by (cases "as_Anchor (sn_Assurance snap)") (auto simp: propagateSnapshot_def Let_def PropagateAnchor_def)
  have "as_LowerDebt (sn_Assurance snap) = 0 \<and> as_UpperDebt (sn_Assurance snap) = 0"
    using truthful_run_inv [OF assms(1)] by (simp add: assurance_inv_def)
  then have P: "PropagateAnchor (Some a) (rr_Raw reading) (rr_ReadBound reading) (rr_ContinuityToken reading) 0 0
      (as_MaxAssuranceWidthNs (sn_Assurance snap)) = Inr I"
    using assms(3) a by (auto simp: propagateSnapshot_def Let_def split: if_splits)
  have "anchor_truth \<tau> a \<rho>"
    using truthful_run_truth [OF assms(1)] a by (simp add: state_truth_def)
  then show ?thesis using assms(2) P by (rule anchor_truth_propagates)
qed

lemma Now_interval:
  assumes "an_HasInterval (fst (Now s r env))"
  shows "propagateSnapshot (cs_active s) (fst (service_Read s r)) env = Inr (an_Interval (fst (Now s r env)))"
    and "an_Status (fst (Now s r env)) = as_Status (sn_Assurance (cs_active s))"
    and "as_Status (sn_Assurance (cs_active s)) \<in> {StatusSynced, StatusHoldover}"
  using assms
  by (auto simp: Now_def Let_def now_without_interval_def split_beta split: sum.splits option.splits if_splits)

lemma Now_encloses:
  assumes "service_run \<tau> s \<rho>" "reads \<rho> (rr_Raw r) (rr_ReadBound r)" "an_HasInterval (fst (Now s r env))"
  shows "encloses (an_Interval (fst (Now s r env))) (\<tau> \<rho>)"
  using service_run_served [OF assms(1)] assms(2) Now_interval(1) [OF assms(3)]
  by (intro propagateSnapshot_encloses) (auto simp: served_ok_def)

subsection \<open>Bounds on real time\<close>

lemma symmetric_epsilon_exact:
  assumes "uint (symmetric_epsilon est I) < 2 ^ 53"
  shows "uint (symmetric_epsilon est I) = max \<bar>sint (est - Earliest I)\<bar> \<bar>sint (Latest I - est)\<bar>"
  using epsilon_exact [of est I 0 "symmetric_epsilon est I"] assms
  by (simp add: ComputePublicSymmetricEpsilon_def symmetric_epsilon_def Let_def)

lemma encloses_within:
  assumes "encloses I t" "\<bar>sint p - sint (Earliest I)\<bar> \<le> e" "\<bar>sint (Latest I) - sint p\<bar> \<le> e"
  shows "\<bar>t - real_of_int (sint p)\<bar> \<le> real_of_int e"
proof -
  have "real_of_int (sint p) - real_of_int (sint (Earliest I)) \<le> real_of_int e"
    "real_of_int (sint (Latest I)) - real_of_int (sint p) \<le> real_of_int e"
    using assms(2,3) by (simp_all only: of_int_diff [symmetric] of_int_le_iff)
  then show ?thesis
    using assms(1) unfolding encloses_def by linarith
qed

text \<open>\<open>fits p I\<close>: the distances from \<open>p\<close> to the ends of \<open>I\<close> are 64-bit integers.\<close>

definition fits :: "GstInstant \<Rightarrow> TimeInterval \<Rightarrow> bool" where
  "fits p I \<longleftrightarrow> in_i64 (sint p - sint (Earliest I)) \<and> in_i64 (sint (Latest I) - sint p)"

lemma Now_epsilon:
  assumes "an_HasInterval (fst (Now s r env))"
  shows "an_SymmetricEpsilon (fst (Now s r env)) = symmetric_epsilon (an_Estimate (fst (Now s r env))) (an_Interval (fst (Now s r env)))"
  using assms
  by (auto simp: Now_def Let_def now_without_interval_def split_beta split: sum.splits option.splits if_splits)

lemma NowPublicAssured_interval:
  assumes "fst (NowPublicAssured s r env) = p" "pn_HasInterval p"
  shows "propagateSnapshot (cs_active s) (fst (service_Read s r)) env = Inr (pn_Interval p)"
    and "pn_PublicSymmetricEpsilon p = ComputePublicSymmetricEpsilon (pn_Center p) (Some (pn_Interval p)) (rr_ReadBound r)"
    and "pn_PublicSymmetricEpsilon p < PublicEpsilonCapDefault"
  using assms
  by (auto simp: NowPublicAssured_def Let_def public_now_def split_beta not_le split: sum.splits option.splits if_splits)

lemma PastWatermark_ok:
  assumes "fst (PastWatermark s r env e l c) = (wm, status, None)"
  shows "wm = as_PastWatermark (sn_Assurance (cs_active s))"
  using assms by (auto simp: PastWatermark_def Let_def split_beta split: sum.splits if_splits)

lemma watermark_served:
  assumes "service_run \<tau> s \<rho>" "mono \<tau>" "- (2 ^ 62) < sint (as_PastWatermark (sn_Assurance (cs_active s)))"
  shows "real_of_int (sint (as_PastWatermark (sn_Assurance (cs_active s)))) \<le> \<tau> \<rho>"
proof -
  have "sint (- push_bit 62 1 :: i64) = - (2 ^ 62)" by simp
  then have "as_PastWatermark (sn_Assurance (cs_active s)) \<noteq> - push_bit 62 1"
    using assms(3) by auto
  then show ?thesis
    using service_run_served [OF assms(1)] assms(2) by (intro truthful_watermark) (simp_all add: served_ok_def)
qed

lemma CommitWait_ok:
  assumes "CommitWait ws t e l c = Some None"
  shows "\<exists>w \<in> set ws. \<exists>wm status. fst (PastWatermark (wt_service w) (wt_reading w) (wt_envelope w) e l c) = (wm, status, None)
    \<and> t <s wm"
  using assms
proof (induction ws t e l c rule: CommitWait.induct)
  case (2 w ws t e l c)
  obtain wm status err where P: "fst (PastWatermark (wt_service w) (wt_reading w) (wt_envelope w) e l c) = (wm, status, err)"
    by (metis prod_cases3)
  show ?case
  proof (cases "err = None \<and> t <s wm")
    case True
    with P show ?thesis by auto
  next
    case False
    with 2(2) P have "CommitWait ws t e l c = Some None"
      by (auto split: option.splits if_splits)
    then show ?thesis using 2 P False by (auto split: option.splits if_splits)
  qed
qed simp

subsection \<open>Properties\<close>

definition sample_env :: envelope where "sample_env = (OneQ48, OneQ48)"

definition sample_raw :: "RawNanos \<Rightarrow> RawReading" where
  "sample_raw r = \<lparr>rr_Raw = r, rr_ReadBound = 10, rr_ContinuityToken = 1, rr_BackendGeneration = 1\<rparr>"

definition sample_new :: ClockService where
  "sample_new = NewClockService [] sample_env \<lparr>lh_InitialTaiMinusUtc = 37, lh_Entries = [], lh_ID = [], lh_canonicalBytes = []\<rparr> [] 1000"

definition sample_round_consensus :: AssuranceConsensusResult where
  "sample_round_consensus = sample_consensus\<lparr>cr_Hull := interval 500 700\<rparr>"

definition sample_service :: ClockService where
  "sample_service = snd (publishSyncRound sample_new (sample_raw 1000) sample_env sample_round_consensus 5000
     (sample_raw 1050) sample_env (sample_raw 1060) sample_env)"

lemma sample_rate: "rate_ok (\<lambda>x. x - 400) (fst sample_env) (snd sample_env)"
  using rate_ok_identity [of "- 400"] by (simp add: sample_env_def)

lemma sample_service_run: "service_run (\<lambda>x. x - 400) sample_service 1000"
  unfolding sample_service_def
  by (rule service_run.sync_round [OF _ _ _ sample_rate])
    (simp_all add: sample_new_def service_run.new reads_def sample_raw_def encloses_def sample_round_consensus_def)

lemma sample_service_now:
  "an_HasInterval (fst (Now sample_service (sample_raw 2000) sample_env))"
  "an_Interval (fst (Now sample_service (sample_raw 2000) sample_env)) = interval 1480 1720"
  "an_Estimate (fst (Now sample_service (sample_raw 2000) sample_env)) = 1600"
  by code_simp+

text \<open>C1: what \<open>Now\<close> serves is true. In every run of the service in which each published round's
  hull contained true time, an interval served by \<open>Now\<close> contains true time at the reading, comes
  with a synced or holdover status, and its symmetric bound, if below \<open>2^53\<close> ns, covers the distance of
  the estimate from true time, provided the distances of the estimate from the ends of the interval do not leave the 64-bit range (\<open>fits\<close>).\<close>

theorem Now_serves_true_time:
  assumes "service_run \<tau> s \<rho>" "reads \<rho> (rr_Raw r) (rr_ReadBound r)"
    and "Now s r env = (now, s')" "an_HasInterval now"
  shows "encloses (an_Interval now) (\<tau> \<rho>) \<and> an_Status now \<in> {StatusSynced, StatusHoldover} \<and>
    (fits (an_Estimate now) (an_Interval now) \<and> uint (an_SymmetricEpsilon now) < 2 ^ 53 \<longrightarrow>
      \<bar>\<tau> \<rho> - real_of_int (sint (an_Estimate now))\<bar> \<le> real_of_int (uint (an_SymmetricEpsilon now)))"
proof -
  have now: "fst (Now s r env) = now" using assms(3) by simp
  note enc = Now_encloses [OF assms(1,2), of env, unfolded now, OF assms(4)]
  have "\<bar>\<tau> \<rho> - real_of_int (sint (an_Estimate now))\<bar> \<le> real_of_int (uint (an_SymmetricEpsilon now))"
    if "fits (an_Estimate now) (an_Interval now)" "uint (an_SymmetricEpsilon now) < 2 ^ 53"
    using that Now_epsilon [of s r env] symmetric_epsilon_exact [of "an_Estimate now" "an_Interval now"] assms(4)
    by (intro encloses_within [OF enc]) (simp_all add: now fits_def sint_sub_exact)
  then show ?thesis
    using enc Now_interval(2,3) [of s r env] assms(4) by (simp add: now)
qed

theorem Now_serves_true_time_witness: "encloses (interval 1480 1720) (1600 :: real)"
  using Now_serves_true_time [OF service_run.wait [OF sample_service_run, of 2000], of "sample_raw 2000" sample_env,
      OF _ _ surjective_pairing] sample_service_now
  by (simp add: reads_def sample_raw_def)

text \<open>C12: the tri-state comparisons are right. A certain answer of \<open>After\<close> or \<open>Before\<close> agrees with
  true time at the reading it was given for; a service without an interval answers unknown.\<close>

theorem certain_answers_are_true:
  assumes "service_run \<tau> s \<rho>" "reads \<rho> (rr_Raw r) (rr_ReadBound r)"
  shows "(case fst (fst (After s r env t)) of
      CertainYes \<Rightarrow> real_of_int (sint t) < \<tau> \<rho> | CertainNo \<Rightarrow> \<tau> \<rho> \<le> real_of_int (sint t) | Unknown \<Rightarrow> True) \<and>
    (case fst (fst (Before s r env t)) of
      CertainYes \<Rightarrow> \<tau> \<rho> < real_of_int (sint t) | CertainNo \<Rightarrow> real_of_int (sint t) \<le> \<tau> \<rho> | Unknown \<Rightarrow> True)"
proof (cases "an_HasInterval (fst (Now s r env))")
  case True
  let ?I = "an_Interval (fst (Now s r env))"
  have E: "real_of_int (sint (Earliest ?I)) \<le> \<tau> \<rho>" "\<tau> \<rho> \<le> real_of_int (sint (Latest ?I))"
    using Now_encloses [OF assms True] by (simp_all only: encloses_def)
  have L: "t <s Earliest ?I \<Longrightarrow> real_of_int (sint t) < real_of_int (sint (Earliest ?I))"
    "Latest ?I \<le>s t \<Longrightarrow> real_of_int (sint (Latest ?I)) \<le> real_of_int (sint t)"
    "Latest ?I <s t \<Longrightarrow> real_of_int (sint (Latest ?I)) < real_of_int (sint t)"
    "t \<le>s Earliest ?I \<Longrightarrow> real_of_int (sint t) \<le> real_of_int (sint (Earliest ?I))"
    by (simp_all only: go_signed of_int_less_iff of_int_le_iff)
  show ?thesis
    using L E True unfolding After_def Before_def after_decision_def before_decision_def split_beta Let_def
    by (auto intro: less_le_trans le_less_trans order_trans)
next
  case False
  then show ?thesis
    by (simp add: After_def Before_def after_decision_def before_decision_def split_beta)
qed

theorem certain_answers_are_true_witness: "real_of_int (sint (1400 :: i64)) < 1600"
proof -
  have "fst (fst (After sample_service (sample_raw 2000) sample_env 1400)) = CertainYes" by code_simp
  then show ?thesis
    using certain_answers_are_true [OF service_run.wait [OF sample_service_run, of 2000], of "sample_raw 2000" 1400 sample_env]
    by (simp add: reads_def sample_raw_def)
qed

text \<open>C3: commit-wait is safe. When \<open>CommitWait\<close> returns without an error, true time has passed the
  commit timestamp: it is strictly below true time at one of the turns the wait has made.\<close>

theorem CommitWait_is_safe:
  assumes "CommitWait ws commitTs e l c = Some None" "mono \<tau>" "- (2 ^ 62) \<le> sint commitTs"
    and "\<And>w. w \<in> set ws \<Longrightarrow> service_run \<tau> (wt_service w) (turn_at w)"
  shows "\<exists>w \<in> set ws. real_of_int (sint commitTs) < \<tau> (turn_at w)"
proof -
  obtain w wm status where w: "w \<in> set ws"
    "fst (PastWatermark (wt_service w) (wt_reading w) (wt_envelope w) e l c) = (wm, status, None)" "commitTs <s wm"
    using CommitWait_ok [OF assms(1)] by blast
  note wm = PastWatermark_ok [OF w(2)]
  have lt: "sint commitTs < sint wm" using w(3) by (simp add: go_signed)
  then have "real_of_int (sint wm) \<le> \<tau> (turn_at w)"
    using watermark_served [OF assms(4) [OF w(1)] assms(2)] assms(3) wm by simp
  moreover have "real_of_int (sint commitTs) < real_of_int (sint wm)"
    using lt by (simp only: of_int_less_iff)
  ultimately show ?thesis using w(1) by (intro bexI [of _ w]) simp_all
qed

definition sample_turn :: wait_turn where
  "sample_turn = \<lparr>wt_ctxErr = None, wt_service = sample_service, wt_reading = sample_raw 2000,
     wt_envelope = sample_env, wt_wake = None\<rparr>"

theorem CommitWait_is_safe_witness: "real_of_int (sint (499 :: i64)) < (1000 :: real) - 400"
proof -
  have "CommitWait [sample_turn] 499 [] [] [] = Some None" by code_simp
  from CommitWait_is_safe [OF this, of "\<lambda>x. x - 400" "\<lambda>_. 1000"] sample_service_run show ?thesis
    by (simp add: mono_def sample_turn_def)
qed

definition watermark_at :: "bytes \<Rightarrow> bytes \<Rightarrow> bytes \<Rightarrow> wait_turn \<Rightarrow> GstInstant \<times> SyncStatus \<times> go_error option" where
  "watermark_at e l c w = fst (PastWatermark (wt_service w) (wt_reading w) (wt_envelope w) e l c)"

lemma watermark_at_cases:
  assumes "watermark_at e l c w = (wm, status, err)"
  shows "err = None \<Longrightarrow> status \<noteq> StatusDesync"
    "err \<in> {None, Some (Api ErrConfigurationMismatch), Some (Api ErrLeapHistoryMismatch), Some (Api ErrUnanchored), Some (Api ErrDesynchronized)}"
  using assms by (auto simp: watermark_at_def PastWatermark_def Let_def split_beta split: sum.splits if_splits)

text \<open>The turns that let the loop go on, and what a turn that ends it makes the call return.\<close>

definition keeps_waiting :: "GstInstant \<Rightarrow> bytes \<Rightarrow> bytes \<Rightarrow> bytes \<Rightarrow> wait_turn \<Rightarrow> bool" where
  "keeps_waiting commitTs e l c w \<longleftrightarrow> wt_ctxErr w = None \<and> wt_wake w = None \<and>
    (\<exists>wm status. watermark_at e l c w = (wm, status, None) \<and> sint wm \<le> sint commitTs)"

definition ends_with :: "GstInstant \<Rightarrow> bytes \<Rightarrow> bytes \<Rightarrow> bytes \<Rightarrow> wait_turn \<Rightarrow> go_error option \<Rightarrow> bool" where
  "ends_with commitTs e l c w err \<longleftrightarrow>
    (\<forall>wm status werr. watermark_at e l c w = (wm, status, werr) \<longrightarrow>
      (wt_ctxErr w = Some DeadlineExceeded \<longrightarrow> err = Some (Api ErrDeadlineExceeded)) \<and>
      (wt_ctxErr w = Some Canceled \<longrightarrow> err = Some (Api ErrCancelled)) \<and>
      (wt_ctxErr w = None \<and> werr \<noteq> None \<longrightarrow> err = werr) \<and>
      (wt_ctxErr w = None \<and> werr = None \<and> sint commitTs < sint wm \<longrightarrow> err = None) \<and>
      (wt_ctxErr w = None \<and> werr = None \<and> sint wm \<le> sint commitTs \<longrightarrow>
        (wt_wake w = Some DeadlineExceeded \<and> err = Some (Api ErrDeadlineExceeded) \<or>
         wt_wake w = Some Canceled \<and> err = Some (Api ErrCancelled))))"

lemma CommitWait_stops:
  assumes "\<not> keeps_waiting commitTs e l c w"
  shows "\<exists>err. CommitWait (w # ws) commitTs e l c = Some err \<and> ends_with commitTs e l c w err"
proof -
  obtain wm status werr where W: "watermark_at e l c w = (wm, status, werr)" by (metis prod_cases3)
  note W' = W [unfolded watermark_at_def]
  show ?thesis
    using assms watermark_at_cases(1) [OF W] W W'
    by (auto simp: keeps_waiting_def ends_with_def ctx_api_error_def word_sless_alt not_less
        split: option.splits ctx_error.splits)
qed

lemma CommitWait_goes_on:
  assumes "keeps_waiting commitTs e l c w"
  shows "CommitWait (w # ws) commitTs e l c = CommitWait ws commitTs e l c"
  using assms watermark_at_cases(1) by (fastforce simp: keeps_waiting_def watermark_at_def word_sless_alt)

text \<open>C30: Waits end, and with what the deciding turn says. A commit-wait whose context is done at some turn, on entry or during the
  pause, returns at the first turn that does not let it wait on: with the error of the context where the context is done on entry
  (deadline or cancellation, each its own), else with the error of the past watermark where that fails, else with nil
  exactly where the commit timestamp is strictly below the watermark, else with the error of the context done during the
  pause. Every earlier turn had no error and a watermark not above the commit timestamp.\<close>

theorem CommitWait_returns:
  assumes "wt_ctxErr w \<noteq> None \<or> wt_wake w \<noteq> None" "w \<in> set ws"
  shows "\<exists>i err. i < length ws \<and> CommitWait ws commitTs e l c = Some err \<and>
    (\<forall>j<i. keeps_waiting commitTs e l c (ws ! j)) \<and> ends_with commitTs e l c (ws ! i) err \<and>
    err \<in> {None, Some (Api ErrDeadlineExceeded), Some (Api ErrCancelled), Some (Api ErrConfigurationMismatch),
      Some (Api ErrLeapHistoryMismatch), Some (Api ErrUnanchored), Some (Api ErrDesynchronized)}"
  using assms(2)
proof (induction ws)
  case (Cons u ws)
  show ?case
  proof (cases "keeps_waiting commitTs e l c u")
    case True
    then have "u \<noteq> w" using assms(1) by (auto simp: keeps_waiting_def)
    then obtain i err where "i < length ws" "CommitWait ws commitTs e l c = Some err"
      "\<forall>j<i. keeps_waiting commitTs e l c (ws ! j)" "ends_with commitTs e l c (ws ! i) err"
      "err \<in> {None, Some (Api ErrDeadlineExceeded), Some (Api ErrCancelled), Some (Api ErrConfigurationMismatch),
        Some (Api ErrLeapHistoryMismatch), Some (Api ErrUnanchored), Some (Api ErrDesynchronized)}"
      using Cons by auto
    then show ?thesis using True CommitWait_goes_on [OF True, of ws]
      by (intro exI [of _ "Suc i"] exI [of _ err]) (auto simp: less_Suc_eq_0_disj)
  next
    case False
    obtain err where err: "CommitWait (u # ws) commitTs e l c = Some err" "ends_with commitTs e l c u err"
      using CommitWait_stops [OF False] by blast
    obtain wm status werr where W: "watermark_at e l c u = (wm, status, werr)" by (metis prod_cases3)
    have "err \<in> {None, Some (Api ErrDeadlineExceeded), Some (Api ErrCancelled), Some (Api ErrConfigurationMismatch),
      Some (Api ErrLeapHistoryMismatch), Some (Api ErrUnanchored), Some (Api ErrDesynchronized)}"
      using err(2) W watermark_at_cases(2) [OF W]
      by (cases "wt_ctxErr u"; cases "the (wt_ctxErr u)"; cases werr) (auto simp: ends_with_def linorder_not_less [symmetric])
    with err show ?thesis by (intro exI [of _ 0] exI [of _ err]) simp
  qed
qed simp

theorem CommitWait_returns_witness:
  "CommitWait [sample_turn, sample_turn\<lparr>wt_wake := Some DeadlineExceeded\<rparr>] 900 [] [] [] = Some (Some (Api ErrDeadlineExceeded))"
proof -
  let ?ws = "[sample_turn, sample_turn\<lparr>wt_wake := Some DeadlineExceeded\<rparr>]"
  have W: "watermark_at [] [] [] sample_turn = (500, StatusSynced, None)" by code_simp
  then have W': "watermark_at [] [] [] (sample_turn\<lparr>wt_wake := Some DeadlineExceeded\<rparr>) = (500, StatusSynced, None)"
    by (simp add: watermark_at_def)
  have w: "wt_ctxErr (sample_turn\<lparr>wt_wake := Some DeadlineExceeded\<rparr>) \<noteq> None \<or> wt_wake (sample_turn\<lparr>wt_wake := Some DeadlineExceeded\<rparr>) \<noteq> None"
    "sample_turn\<lparr>wt_wake := Some DeadlineExceeded\<rparr> \<in> set ?ws" by simp_all
  obtain i err where i: "i < length ?ws" "CommitWait ?ws 900 [] [] [] = Some err" "ends_with 900 [] [] [] (?ws ! i) err"
    using CommitWait_returns [OF w, of 900 "[]" "[]" "[]"] by blast
  have "wt_ctxErr sample_turn = None" "wt_wake sample_turn = None" by (simp_all add: sample_turn_def)
  then have "err = Some (Api ErrDeadlineExceeded)"
    using i(1,3) W W' by (auto simp: ends_with_def less_Suc_eq)
  with i(2) show ?thesis by simp
qed

text \<open>C14: the public view is true. An interval served by \<open>NowPublicAssured\<close> contains true time, and the
  public bound, which is below the sixteen-second cap, covers the distance of the clamped and
  smeared public centre from true time, provided the distances of that centre from the ends of the interval do not leave the 64-bit
  range (\<open>fits\<close>) and the reading error is below \<open>2^53\<close> ns.\<close>

theorem NowPublicAssured_serves_true_time:
  assumes "service_run \<tau> s \<rho>" "reads \<rho> (rr_Raw r) (rr_ReadBound r)" "uint (rr_ReadBound r) < 2 ^ 53"
    and "NowPublicAssured s r env = (p, s')" "pn_HasInterval p" "fits (pn_Center p) (pn_Interval p)"
  shows "encloses (pn_Interval p) (\<tau> \<rho>) \<and> uint (pn_PublicSymmetricEpsilon p) < 16000000000 \<and>
    \<bar>\<tau> \<rho> - real_of_int (sint (pn_Center p))\<bar> \<le> real_of_int (uint (pn_PublicSymmetricEpsilon p))"
proof -
  have "fst (NowPublicAssured s r env) = p" using assms(4) by simp
  note P = NowPublicAssured_interval [OF this assms(5)]
  have enc: "encloses (pn_Interval p) (\<tau> \<rho>)"
    using service_run_served [OF assms(1)] assms(2) P(1)
    by (intro propagateSnapshot_encloses) (auto simp: served_ok_def)
  have cap: "uint (pn_PublicSymmetricEpsilon p) < 16000000000"
    using P(3) by (simp add: PublicEpsilonCapDefault_def word_less_def)
  have le_max: "x \<le> max x y + uint (rr_ReadBound r)" "y \<le> max x y + uint (rr_ReadBound r)" for x y
    using uint64_ge [of "rr_ReadBound r"] by linarith+
  from cap have "uint (pn_PublicSymmetricEpsilon p) =
      max \<bar>sint (pn_Center p - Earliest (pn_Interval p))\<bar> \<bar>sint (Latest (pn_Interval p) - pn_Center p)\<bar> + uint (rr_ReadBound r)"
    using assms(3) P(2) by (intro epsilon_exact) simp_all
  then have "\<bar>\<tau> \<rho> - real_of_int (sint (pn_Center p))\<bar> \<le> real_of_int (uint (pn_PublicSymmetricEpsilon p))"
    using assms(6) le_max
    by (intro encloses_within [OF enc]) (simp_all add: fits_def sint_sub_exact)
  with enc cap show ?thesis by simp
qed

theorem NowPublicAssured_serves_true_time_witness:
  "\<bar>(1600 :: real) - real_of_int (sint (pn_Center (fst (NowPublicAssured sample_service (sample_raw 2000) sample_env))))\<bar>
    \<le> real_of_int (uint (pn_PublicSymmetricEpsilon (fst (NowPublicAssured sample_service (sample_raw 2000) sample_env))))"
proof -
  have "pn_HasInterval (fst (NowPublicAssured sample_service (sample_raw 2000) sample_env))"
    "fits (pn_Center (fst (NowPublicAssured sample_service (sample_raw 2000) sample_env)))
      (pn_Interval (fst (NowPublicAssured sample_service (sample_raw 2000) sample_env)))"
    by code_simp+
  then show ?thesis
    using NowPublicAssured_serves_true_time [OF service_run.wait [OF sample_service_run, of 2000], of "sample_raw 2000"
        sample_env, OF _ _ _ surjective_pairing]
    by (simp add: reads_def sample_raw_def)
qed

text \<open>C13: stale evidence is never relabelled. If between selection and publication of a round the raw
  counter went back, or the token, the generation or the scale envelope changed, the round installs
  no anchor: the clock is desynchronized, the error is a continuity mismatch, and once the
  desynchronization is published no reading is given an interval.\<close>

theorem stale_selection_never_anchors:
  assumes "ValidateHull (cr_Hull cons) (as_MaxAssuranceWidthNs (cs_assurance s)) = None"
    and "service_Read s r1 = (cur, s1)"
    and "rr_Raw cur < rr_Raw sel \<or> rr_ContinuityToken cur \<noteq> rr_ContinuityToken sel \<or>
      rr_BackendGeneration cur \<noteq> rr_BackendGeneration sel \<or> env1 \<noteq> env"
    and "publishSyncRound s sel env cons vu r1 env1 r2 env2 = (err, s')"
  shows "\<exists>e. err = Some e \<and> errors_Is e ErrContinuityTokenMismatch \<and>
    as_Anchor (cs_assurance s') = None \<and> as_Status (cs_assurance s') = StatusDesync \<and>
    (if sn_Assurance (cs_active s') = cs_assurance s' then \<not> an_HasInterval (fst (Now s' r env3)) else cs_active s' = cs_active s)"
proof -
  have ne: "env1 \<noteq> env \<longleftrightarrow> fst env1 \<noteq> fst env \<or> snd env1 \<noteq> snd env" by (auto simp: prod_eq_iff)
  let ?s2 = "s1\<lparr>cs_assurance := TransitionToDesync (cs_assurance s1) ReasonRawDiscontinuity\<rparr>"
  have s1: "cs_active s1 = cs_active s" using service_Read_frame(2) [of s r1] assms(2) by simp
  have run: "err = errors_Join (Some ErrContinuityTokenMismatch) (fst (publishCurrent ?s2 r2 env2))"
    "s' = snd (publishCurrent ?s2 r2 env2)"
    using assms(1,3,4) unfolding ne by (auto simp: publishSyncRound_def assms(2) Let_def split_beta)
  then have "err \<noteq> None" by simp
  then obtain e where e0: "err = Some e" by auto
  have "errors_Is e ErrContinuityTokenMismatch"
    by (rule errors_Is_Join_left [OF errors_Is_refl run(1) [symmetric, unfolded e0]])
  note e = e0 this
  have fr: "cs_assurance s' = TransitionToDesync (cs_assurance s1) ReasonRawDiscontinuity"
    "cs_active s' = cs_active s \<or> sn_Assurance (cs_active s') = cs_assurance s'"
    using publishCurrent_frame [of ?s2 r2 env2] s1 by (auto simp: run(2))
  have "\<not> an_HasInterval (fst (Now s' r env3))" if "sn_Assurance (cs_active s') = cs_assurance s'"
    using Now_interval(3) [of s' r env3] that by (auto simp: fr TransitionToDesync_def)
  with e fr show ?thesis by (auto simp: TransitionToDesync_def)
qed

theorem stale_selection_never_anchors_witness:
  "as_Anchor (cs_assurance (snd (publishSyncRound sample_new (sample_raw 1000) sample_env sample_round_consensus 5000
     (sample_raw 900) sample_env (sample_raw 1060) sample_env))) = None"
proof -
  have "ValidateHull (cr_Hull sample_round_consensus) (as_MaxAssuranceWidthNs (cs_assurance sample_new)) = None"
    "rr_Raw (fst (service_Read sample_new (sample_raw 900))) < rr_Raw (sample_raw 1000)"
    by code_simp+
  from stale_selection_never_anchors [OF this(1) surjective_pairing, OF _ surjective_pairing] this(2)
  show ?thesis by blast
qed

lemma Now_has_interval: "an_Status (fst (Now s r env)) \<in> {StatusSynced, StatusHoldover} \<Longrightarrow> an_HasInterval (fst (Now s r env))"
  by (auto simp: Now_def Let_def now_without_interval_def split_beta split: sum.splits option.splits if_splits)

text \<open>C15: civil time is served truthfully. In a truthful run with a well-formed leap history, whenever
  \<open>NowUtc\<close> answers with a synced or holdover status its two labels, 23:59:60 included, name instants
  between which true time lies; and a caller expecting another leap history gets the mismatch error.\<close>

theorem NowUtc_brackets_true_time:
  assumes "service_run \<tau> s \<rho>" "reads \<rho> (rr_Raw r) (rr_ReadBound r)" "leap_table_ok (cs_leapHistory s)"
    and "NowUtc s r env expected = ((earliest, latest, est, status, err), s')" "status \<in> {StatusSynced, StatusHoldover}"
  shows "expected = cs_leapID s \<and> err = None \<and>
    (\<exists>lo hi. UtcToGstInstant (cs_leapHistory s) earliest = Inr lo \<and> UtcToGstInstant (cs_leapHistory s) latest = Inr hi
      \<and> real_of_int (sint lo) \<le> \<tau> \<rho> \<and> \<tau> \<rho> \<le> real_of_int (sint hi))"
proof -
  obtain now s1 where now: "Now s r env = (now, s1)" by (metis surj_pair)
  have ok: "expected = cs_leapID s" using assms(4,5) by (auto simp: NowUtc_def split: if_splits)
  have st: "an_Status now = status" using assms(4) ok now by (auto simp: NowUtc_def Let_def split: if_splits)
  then have iv: "an_HasInterval now" using Now_has_interval [of s r env] assms(5) now by simp
  have "encloses (an_Interval now) (\<tau> \<rho>)"
    using Now_encloses [OF assms(1,2), of env] iv now by simp
  then have "real_of_int (sint (Earliest (an_Interval now))) \<le> \<tau> \<rho>" "\<tau> \<rho> \<le> real_of_int (sint (Latest (an_Interval now)))"
    by (simp_all only: encloses_def)
  moreover have "earliest = GstInstantToUtc (cs_leapHistory s) (Earliest (an_Interval now))"
    "latest = GstInstantToUtc (cs_leapHistory s) (Latest (an_Interval now))" "err = None"
    using assms(4) ok now iv by (auto simp: NowUtc_def Let_def)
  ultimately show ?thesis using ok utc_label_roundtrip [OF assms(3)] by simp
qed


theorem NowUtc_brackets_true_time_witness:
  "\<exists>earliest latest est err s' lo hi.
     NowUtc sample_service (sample_raw 2000) sample_env [] = ((earliest, latest, est, StatusSynced, err), s')
     \<and> UtcToGstInstant (cs_leapHistory sample_service) earliest = Inr lo
     \<and> UtcToGstInstant (cs_leapHistory sample_service) latest = Inr hi
     \<and> real_of_int (sint lo) \<le> 1600 \<and> 1600 \<le> real_of_int (sint hi)"
proof -
  have st: "fst (snd (snd (snd (fst (NowUtc sample_service (sample_raw 2000) sample_env []))))) = StatusSynced"
    "leap_table_ok (cs_leapHistory sample_service)"
    by code_simp+
  then obtain e l est err s' where n: "NowUtc sample_service (sample_raw 2000) sample_env [] = ((e, l, est, StatusSynced, err), s')"
    by (metis prod.collapse)
  from NowUtc_brackets_true_time [OF service_run.wait [OF sample_service_run, of 2000] _ st(2) n]
  show ?thesis using n by (simp add: reads_def sample_raw_def)
qed

subsection \<open>The envelopes of the backends\<close>

text \<open>An oscillator within 200 ppm of its nominal rate satisfies \<open>rate_ok\<close> for the envelopes that the system
  and the boot-time backend report: there the hypothesis of the theorems on true time is a bound on the hardware alone.\<close>

definition within_ppm :: "(real \<Rightarrow> real) \<Rightarrow> real \<Rightarrow> bool" where
  "within_ppm \<tau> p \<longleftrightarrow>
    (\<forall>x y. x \<le> y \<longrightarrow> (1 - p / 10 ^ 6) * (y - x) \<le> \<tau> y - \<tau> x \<and> \<tau> y - \<tau> x \<le> (1 + p / 10 ^ 6) * (y - x))"

lemma rate_ok_within:
  assumes "within_ppm \<tau> p" "real_of_int (sint sl) / 2 ^ 48 \<le> 1 - p / 10 ^ 6" "1 + p / 10 ^ 6 \<le> real_of_int (sint su) / 2 ^ 48"
  shows "rate_ok \<tau> sl su"
  unfolding rate_ok_def
proof (intro allI impI)
  fix x y :: real assume xy: "x \<le> y"
  have "real_of_int (sint sl) / 2 ^ 48 * (y - x) \<le> (1 - p / 10 ^ 6) * (y - x)" "(1 + p / 10 ^ 6) * (y - x) \<le> real_of_int (sint su) / 2 ^ 48 * (y - x)"
    using assms(2,3) xy by (intro mult_right_mono; simp)+
  then show "real_of_int (sint sl) / 2 ^ 48 * (y - x) \<le> \<tau> y - \<tau> x \<and> \<tau> y - \<tau> x \<le> real_of_int (sint su) / 2 ^ 48 * (y - x)"
    using assms(1) xy unfolding within_ppm_def by (meson order_trans)
qed

lemma backend_envelopes:
  "sint (fst System_ScaleEnvelope) = 281418681715313" "sint (snd System_ScaleEnvelope) = 281531271705999"
  "LinuxBoot_ScaleEnvelope = System_ScaleEnvelope"
  by (simp_all add: System_ScaleEnvelope_def LinuxBoot_ScaleEnvelope_def scale_lower_def scale_upper_def rate_200ppm OneQ48_def)

lemma backend_rate_ok:
  assumes "within_ppm \<tau> 200"
  shows "rate_ok \<tau> (fst System_ScaleEnvelope) (snd System_ScaleEnvelope)"
    "rate_ok \<tau> (fst LinuxBoot_ScaleEnvelope) (snd LinuxBoot_ScaleEnvelope)"
proof -
  have "rate_ok \<tau> (fst System_ScaleEnvelope) (snd System_ScaleEnvelope)"
    by (rule rate_ok_within [OF assms]) (simp_all only: backend_envelopes, simp_all)
  then show "rate_ok \<tau> (fst System_ScaleEnvelope) (snd System_ScaleEnvelope)"
    "rate_ok \<tau> (fst LinuxBoot_ScaleEnvelope) (snd LinuxBoot_ScaleEnvelope)" by (simp_all add: backend_envelopes(3))
qed

end
