(* ===== verification/Ntp.thy ===== *)
theory Ntp
  imports Bytes Float64
begin

text \<open>
  The NTP wire formats (package \<open>ntp\<close>): the header (\<open>packet.go\<close>), the extension fields
  (\<open>extension.go\<close>), and the conversion of 64-bit NTP timestamps to Unix nanoseconds.
  Go arrays of a fixed size are byte lists of that length.
\<close>

subsection \<open>The packet header\<close>

record Packet =
  pk_LeapIndicator :: u8
  pk_Version :: u8
  pk_Mode :: u8
  pk_Stratum :: u8
  pk_Poll :: i8
  pk_Precision :: i8
  pk_RootDelay :: i32
  pk_RootDisp :: u32
  pk_RefID :: bytes
  pk_RefTimestamp :: bytes
  pk_OrigTimestamp :: bytes
  pk_RecvTimestamp :: bytes
  pk_TxTimestamp :: bytes
  pk_Extension :: bytes
  pk_Raw :: bytes

definition ParsePacket :: "bytes \<Rightarrow> go_error + Packet" where
  "ParsePacket b =
    (if length b < 48 then Inl ErrPacketTooShort
     else Inr \<lparr>pk_LeapIndicator = drop_bit 6 (b ! 0) AND 3, pk_Version = drop_bit 3 (b ! 0) AND 7,
               pk_Mode = b ! 0 AND 7, pk_Stratum = b ! 1, pk_Poll = b ! 2, pk_Precision = b ! 3,
               pk_RootDelay = Uint32 (slice b 4 8), pk_RootDisp = Uint32 (slice b 8 12),
               pk_RefID = slice b 12 16, pk_RefTimestamp = slice b 16 24, pk_OrigTimestamp = slice b 24 32,
               pk_RecvTimestamp = slice b 32 40, pk_TxTimestamp = slice b 40 48,
               pk_Extension = drop 48 b, pk_Raw = b\<rparr>)"

definition first_octet :: "Packet \<Rightarrow> u8" where
  "first_octet p = push_bit 6 (pk_LeapIndicator p AND 3) OR push_bit 3 (pk_Version p AND 7) OR (pk_Mode p AND 7)"

definition Packet_Encode :: "Packet \<Rightarrow> bytes" where
  "Packet_Encode p =
     [first_octet p, pk_Stratum p, pk_Poll p, pk_Precision p] @ PutUint32 (pk_RootDelay p) @ PutUint32 (pk_RootDisp p)
     @ pk_RefID p @ pk_RefTimestamp p @ pk_OrigTimestamp p @ pk_RecvTimestamp p @ pk_TxTimestamp p @ pk_Extension p"

text \<open>
  Root delay and dispersion in nanoseconds: 16.16 fixed point times \<open>10^9\<close> in float64, divided by
  65536 (exact, a power of two) and truncated.
\<close>

definition RootDelayNanoseconds :: "Packet \<Rightarrow> i64" where
  "RootDelayNanoseconds p = word_of_int (f64_of_int (f64_of_int (sint (pk_RootDelay p)) * 1000000000) sdiv 65536)"

definition RootDispersionNanoseconds :: "Packet \<Rightarrow> i64" where
  "RootDispersionNanoseconds p = word_of_int (f64_of_int (f64_of_int (uint (pk_RootDisp p)) * 1000000000) sdiv 65536)"

text \<open>A stratum-0 packet carries a kiss code in its reference identifier.\<close>

definition IsKissOfDeath :: "Packet \<Rightarrow> bool \<times> bytes" where
  "IsKissOfDeath p = (if pk_Stratum p \<noteq> 0 then (False, []) else (True, pk_RefID p))"

subsection \<open>Extension fields\<close>

record ExtensionField =
  ef_Type :: u16
  ef_Value :: bytes
  ef_Wire :: bytes

function ParseExtensionFields :: "bytes \<Rightarrow> go_error + ExtensionField list \<times> bytes" where
  "ParseExtensionFields data =
    (if length data < 4 then Inr ([], data)
     else
       let fieldType = Uint16 (slice data 0 2); fieldLen = unat (Uint16 (slice data 2 4))
       in if fieldLen < 4 then Inl (Wrap ''field length < 4'' ErrMalformedExtension)
          else if length data < fieldLen then Inl (Wrap ''field length exceeds remaining'' ErrMalformedExtension)
          else if fieldLen mod 4 \<noteq> 0 then Inl (Wrap ''field length not a multiple of 4'' ErrMalformedExtension)
          else
            let wireBytes = take fieldLen data
            in case ParseExtensionFields (drop fieldLen data) of
                 Inl e \<Rightarrow> Inl e
               | Inr (efs, trailing) \<Rightarrow>
                   Inr (\<lparr>ef_Type = fieldType, ef_Value = drop 4 wireBytes, ef_Wire = wireBytes\<rparr> # efs, trailing))"
  by pat_completeness auto
termination
  by (relation "measure length") (auto simp: not_less)

declare ParseExtensionFields.simps [simp del]

definition pad4 :: "nat \<Rightarrow> nat" where
  "pad4 n = (4 - n mod 4) mod 4"

definition encode_field :: "ExtensionField \<Rightarrow> bytes" where
  "encode_field f =
    (let bodyLen = length (ef_Value f); wireLen = 4 + bodyLen + pad4 bodyLen
     in PutUint16 (ef_Type f) @ PutUint16 (of_nat wireLen) @ ef_Value f @ replicate (pad4 bodyLen) 0)"

definition EncodeExtensionFields :: "ExtensionField list \<Rightarrow> bytes" where
  "EncodeExtensionFields efs = concat (map encode_field efs)"

subsection \<open>Timestamps\<close>

definition DecodeTimestampRaw :: "bytes \<Rightarrow> u32 \<times> u32" where
  "DecodeTimestampRaw b = (Uint32 (slice b 0 4), Uint32 (slice b 4 8))"

definition EncodeTimestamp :: "u32 \<Rightarrow> u32 \<Rightarrow> bytes" where
  "EncodeTimestamp sec fr = PutUint32 sec @ PutUint32 fr"

definition NtpToUnixOffset :: i64 where "NtpToUnixOffset = 2208988800"
definition MaxCoarseErrorSec :: i64 where "MaxCoarseErrorSec = 68 * 365 * 86400"

text \<open>The loop over the eras: the candidates within the coarse error, in order.\<close>

definition era_candidates :: "u32 \<Rightarrow> i64 \<Rightarrow> i64 list" where
  "era_candidates s32 coarseNtpSec =
    (let baseEra = signed_drop_bit 32 coarseNtpSec;
         cands = map (\<lambda>era. push_bit 32 era OR ucast s32)
                   (filter (\<lambda>era. \<not> era <s 0) [baseEra - 1, baseEra, baseEra + 1])
     in filter (\<lambda>cand. let dist = cand - coarseNtpSec
                       in (if dist <s 0 then - dist else dist) \<le>s MaxCoarseErrorSec) cands)"

definition UnfoldNtpSeconds :: "u32 \<Rightarrow> i64 \<Rightarrow> go_error + i64" where
  "UnfoldNtpSeconds s32 coarseUnixSec =
    (let coarseNtpSec0 = coarseUnixSec + NtpToUnixOffset;
         coarseNtpSec = (if coarseNtpSec0 <s 0 then 0 else coarseNtpSec0)
     in case era_candidates s32 coarseNtpSec of
          [c] \<Rightarrow> Inr c
        | _ \<Rightarrow> Inl (Wrap ''ntp era'' ErrEraAmbiguous))"

definition NtpFractionToNanos :: "u32 \<Rightarrow> i64" where
  "NtpFractionToNanos fr = drop_bit 32 ((ucast fr :: u64) * 1000000000 + push_bit 31 1)"

definition NtpFractionToNanosFloor :: "u32 \<Rightarrow> i64" where
  "NtpFractionToNanosFloor fr = drop_bit 32 ((ucast fr :: u64) * 1000000000)"

definition NtpFractionToNanosCeil :: "u32 \<Rightarrow> i64" where
  "NtpFractionToNanosCeil fr =
    (let p = (ucast fr :: u64) * 1000000000; q = drop_bit 32 p
     in if p AND 0xffffffff \<noteq> 0 then q + 1 else q)"

definition UnfoldTimestamp :: "bytes \<Rightarrow> i64 \<Rightarrow> go_error + i64" where
  "UnfoldTimestamp raw coarseUnixSec =
    (let (sec32, frac32) = DecodeTimestampRaw raw
     in if sec32 = 0 \<and> frac32 = 0 then Inl (Err ''zero timestamp represents unknown/unsynchronized'')
        else (case UnfoldNtpSeconds sec32 coarseUnixSec of
                Inl e \<Rightarrow> Inl e
              | Inr unfoldedNtp \<Rightarrow>
                let unixSec = unfoldedNtp - NtpToUnixOffset; nanos = NtpFractionToNanos frac32
                in Inr (unixSec * 1000000000 + nanos)))"

subsection \<open>The header codec\<close>

definition packet_ok :: "Packet \<Rightarrow> bool" where
  "packet_ok p \<longleftrightarrow> pk_LeapIndicator p < 4 \<and> pk_Version p < 8 \<and> pk_Mode p < 8 \<and> length (pk_RefID p) = 4
     \<and> length (pk_RefTimestamp p) = 8 \<and> length (pk_OrigTimestamp p) = 8 \<and> length (pk_RecvTimestamp p) = 8
     \<and> length (pk_TxTimestamp p) = 8"

lemma octet_split:
  fixes b :: u8
  shows "push_bit 6 (drop_bit 6 b AND 3) OR push_bit 3 (drop_bit 3 b AND 7) OR (b AND 7) = b"
proof (rule bit_word_eqI)
  fix n assume "n < LENGTH(8)"
  then have "n \<in> {0, 1, 2, 3, 4, 5, 6, 7}" by auto
  then show "bit (push_bit 6 (drop_bit 6 b AND 3) OR push_bit 3 (drop_bit 3 b AND 7) OR (b AND 7)) n = bit b n"
    by (elim insertE) (auto simp: bit_simps)
qed

lemma octet_join:
  fixes l v m :: u8
  assumes "l < 4" "v < 8" "m < 8"
  defines "b \<equiv> push_bit 6 (l AND 3) OR push_bit 3 (v AND 7) OR (m AND 7)"
  shows "drop_bit 6 b AND 3 = l" "drop_bit 3 b AND 7 = v" "b AND 7 = m"
proof -
  have "l = take_bit 2 l" "v = take_bit 3 v" "m = take_bit 3 m"
    using assms(1-3) by (simp_all add: word_less_def word_eq_iff_unsigned [where ?'a = int] unsigned_take_bit_eq take_bit_int_eq_self)
  then have l: "bit l k \<Longrightarrow> k < 2" and v: "bit v k \<Longrightarrow> k < 3" and m: "bit m k \<Longrightarrow> k < 3" for k
    by (metis bit_take_bit_iff)+
  have m3: "bit (3 :: int) k \<longleftrightarrow> k < 2" and m7: "bit (7 :: int) k \<longleftrightarrow> k < 3" for k
    using bit_mask_iff [of 2 k, where ?'a = int] bit_mask_iff [of 3 k, where ?'a = int] by (auto simp: mask_eq_exp_minus_1)
  show "drop_bit 6 b AND 3 = l"
    by (rule bit_word_eqI) (auto simp: b_def bit_simps m3 m7 dest: l v m)
  show "drop_bit 3 b AND 7 = v"
    by (rule bit_word_eqI) (auto simp: b_def bit_simps m3 m7 dest: l v m)
  show "b AND 7 = m"
    by (rule bit_word_eqI) (auto simp: b_def bit_simps m3 m7 dest: l v m)
qed

lemma take_4_nth: "4 \<le> length b \<Longrightarrow> take 4 b = [b ! 0, b ! 1, b ! 2, b ! 3]"
  by (rule nth_equalityI) (auto simp: less_Suc_eq numeral_eq_Suc)

text \<open>C20: (\<open>ParsePacket\<close>, \<open>Encode\<close>) The header codec is a bijection: a datagram parses to a packet
  exactly when the packet's fields fit their widths, its raw bytes are the datagram and encoding it
  gives the datagram back.\<close>
theorem packet_codec:
  "ParsePacket b = Inr p \<longleftrightarrow> packet_ok p \<and> pk_Raw p = b \<and> Packet_Encode p = b"
proof
  assume "ParsePacket b = Inr p"
  then have len: "48 \<le> length b" and p: "p = \<lparr>pk_LeapIndicator = drop_bit 6 (b ! 0) AND 3, pk_Version = drop_bit 3 (b ! 0) AND 7,
               pk_Mode = b ! 0 AND 7, pk_Stratum = b ! 1, pk_Poll = b ! 2, pk_Precision = b ! 3,
               pk_RootDelay = Uint32 (slice b 4 8), pk_RootDisp = Uint32 (slice b 8 12),
               pk_RefID = slice b 12 16, pk_RefTimestamp = slice b 16 24, pk_OrigTimestamp = slice b 24 32,
               pk_RecvTimestamp = slice b 32 40, pk_TxTimestamp = slice b 40 48,
               pk_Extension = drop 48 b, pk_Raw = b\<rparr>"
    by (auto simp: ParsePacket_def split: if_splits)
  have "Packet_Encode p = slice b 0 4 @ slice b 4 8 @ slice b 8 12 @ slice b 12 16 @ slice b 16 24 @ slice b 24 32
      @ slice b 32 40 @ slice b 40 48 @ drop 48 b"
    using len octet_split [of "b ! 0"]
    by (simp add: Packet_Encode_def p first_octet_def be32.enc_dec word_bw_assocs)
       (simp add: slice_def take_4_nth)
  also have "\<dots> = slice b 0 48 @ drop 48 b"
    by (simp only: append_assoc [symmetric] slice_join)
  also have "\<dots> = b" by (simp add: slice_def)
  finally have "Packet_Encode p = b" .
  moreover have "packet_ok p"
    using len order_le_less_trans [OF word_and_le1 [of "drop_bit 6 (b ! 0)" 3], of 4]
      order_le_less_trans [OF word_and_le1 [of "drop_bit 3 (b ! 0)" 7], of 8]
      order_le_less_trans [OF word_and_le1 [of "b ! 0" 7], of 8]
    by (simp add: packet_ok_def p)
  ultimately show "packet_ok p \<and> pk_Raw p = b \<and> Packet_Encode p = b" by (simp add: p)
next
  assume a: "packet_ok p \<and> pk_Raw p = b \<and> Packet_Encode p = b"
  then have b: "b = [first_octet p, pk_Stratum p, pk_Poll p, pk_Precision p] @ PutUint32 (pk_RootDelay p) @ PutUint32 (pk_RootDisp p)
     @ pk_RefID p @ pk_RefTimestamp p @ pk_OrigTimestamp p @ pk_RecvTimestamp p @ pk_TxTimestamp p @ pk_Extension p"
    by (simp add: Packet_Encode_def)
  have ok: "pk_LeapIndicator p < 4" "pk_Version p < 8" "pk_Mode p < 8" and len: "length (pk_RefID p) = 4"
    "length (pk_RefTimestamp p) = 8" "length (pk_OrigTimestamp p) = 8" "length (pk_RecvTimestamp p) = 8"
    "length (pk_TxTimestamp p) = 8"
    using a by (simp_all add: packet_ok_def)
  have fields: "b ! 0 = first_octet p" "b ! 1 = pk_Stratum p" "b ! 2 = pk_Poll p" "b ! 3 = pk_Precision p"
    "Uint32 (slice b 4 8) = pk_RootDelay p" "Uint32 (slice b 8 12) = pk_RootDisp p" "slice b 12 16 = pk_RefID p"
    "slice b 16 24 = pk_RefTimestamp p" "slice b 24 32 = pk_OrigTimestamp p" "slice b 32 40 = pk_RecvTimestamp p"
    "slice b 40 48 = pk_TxTimestamp p" "drop 48 b = pk_Extension p" "\<not> length b < 48"
    using len by (simp_all add: b slice_def)
  have oct: "drop_bit 6 (first_octet p) AND 3 = pk_LeapIndicator p" "drop_bit 3 (first_octet p) AND 7 = pk_Version p"
    "first_octet p AND 7 = pk_Mode p" and raw: "pk_Raw p = b"
    unfolding first_octet_def using a by (simp_all only: octet_join [OF ok])
  show "ParsePacket b = Inr p"
    unfolding ParsePacket_def fields oct using raw fields(13) by simp
qed

subsection \<open>The extension field codec\<close>

text \<open>A field as it stands on the wire: body of whole words, total length of 16 bits.\<close>

definition wire_field :: "ExtensionField \<Rightarrow> bool" where
  "wire_field f \<longleftrightarrow> length (ef_Value f) mod 4 = 0 \<and> length (ef_Value f) + 4 < 65536 \<and> ef_Wire f = encode_field f"

lemma pad4_sum: "(n + pad4 n) mod 4 = 0" "pad4 n < 4" "n mod 4 = 0 \<Longrightarrow> pad4 n = 0"
proof -
  have "n mod 4 = 0 \<or> n mod 4 = 1 \<or> n mod 4 = 2 \<or> n mod 4 = 3" by linarith
  then show "(n + pad4 n) mod 4 = 0" unfolding pad4_def by (elim disjE) (simp_all, presburger+)
qed (simp_all add: pad4_def)

lemma parse_wire_field:
  fixes t :: u16
  assumes "length body mod 4 = 0" "length body + 4 < 65536"
  defines "wire \<equiv> PutUint16 t @ PutUint16 (of_nat (4 + length body)) @ body"
  shows "ParseExtensionFields (wire @ rest)
    = (case ParseExtensionFields rest of
         Inl e \<Rightarrow> Inl e
       | Inr (efs, trailing) \<Rightarrow> Inr (\<lparr>ef_Type = t, ef_Value = body, ef_Wire = wire\<rparr> # efs, trailing))"
proof -
  have n: "unat (of_nat (4 + length body) :: u16) = 4 + length body"
    using assms(2) by (subst unat_of_nat) simp
  have f: "slice (wire @ rest) 0 2 = PutUint16 t" "slice (wire @ rest) 2 4 = PutUint16 (of_nat (4 + length body))"
    "length wire = 4 + length body" "drop 4 wire = body"
    by (simp_all add: wire_def slice_def)
  have m: "(4 + length body) mod 4 = 0" using assms(1) by simp
  show ?thesis
    by (subst ParseExtensionFields.simps) (simp only: Let_def f n be16.dec_enc length_append, simp add: f m assms(1) split: sum.splits)
qed

lemma parse_extension_inv:
  "ParseExtensionFields data = Inr (efs, trailing) \<Longrightarrow>
   data = EncodeExtensionFields efs @ trailing \<and> length trailing < 4 \<and> list_all wire_field efs"
proof (induction data arbitrary: efs rule: ParseExtensionFields.induct)
  case (1 data)
  show ?case
  proof (cases "length data < 4")
    case True
    with "1.prems" show ?thesis by (subst (asm) ParseExtensionFields.simps) (simp add: EncodeExtensionFields_def)
  next
    case False
    define t n where "t = Uint16 (slice data 0 2)" and "n = unat (Uint16 (slice data 2 4))"
    from "1.prems" False obtain efs' where ok: "4 \<le> n" "n \<le> length data" "n mod 4 = 0"
      "ParseExtensionFields (drop n data) = Inr (efs', trailing)"
      and efs: "efs = \<lparr>ef_Type = t, ef_Value = drop 4 (take n data), ef_Wire = take n data\<rparr> # efs'"
      by (subst (asm) ParseExtensionFields.simps)
         (auto simp: Let_def t_def n_def not_less split: if_splits sum.splits)
    have IH: "drop n data = EncodeExtensionFields efs' @ trailing \<and> length trailing < 4 \<and> list_all wire_field efs'"
      using "1.IH" [OF False refl refl, folded n_def] ok by simp
    have n16: "n < 65536" using unsigned_less [of "Uint16 (slice data 2 4)", where ?'a = nat] by (simp add: n_def)
    have nw: "(of_nat n :: u16) = Uint16 (slice data 2 4)" by (simp add: n_def)
    define f where "f = \<lparr>ef_Type = t, ef_Value = drop 4 (take n data), ef_Wire = take n data\<rparr>"
    have len: "length (ef_Value f) = n - 4" using ok(2) by (simp add: f_def)
    have m: "(n - 4) mod 4 = 0" using ok(1,3) by (simp add: mod_eq_0_iff_dvd dvd_diff_nat)
    then have "encode_field f = PutUint16 t @ PutUint16 (of_nat n) @ drop 4 (take n data)"
      unfolding encode_field_def Let_def len pad4_sum(3) [OF m] using ok(1) by (simp add: f_def)
    also have "\<dots> = slice data 0 2 @ slice data 2 4 @ drop 4 (take n data)"
      using False by (simp add: t_def nw be16.enc_dec)
    also have "\<dots> = (slice data 0 2 @ slice data 2 4) @ slice data 4 n" by (simp add: slice_def drop_take)
    also have "\<dots> = take n data" using ok(1) by (simp only: slice_join) (simp add: slice_join slice_def)
    finally have enc: "encode_field f = take n data" .
    then have "wire_field f" using len m n16 ok(1) by (simp add: wire_field_def f_def)
    moreover have "data = encode_field f @ drop n data" using enc by simp
    ultimately show ?thesis using IH efs by (simp add: EncodeExtensionFields_def f_def)
  qed
qed

text \<open>(\<open>ParseExtensionFields\<close>, \<open>EncodeExtensionFields\<close>) Parsing is exact: the bytes after an NTP header
  parse to fields and a rest exactly when the fields' encodings, each with its wire bytes, followed
  by the rest are those bytes and the rest is too short for a field. So re-encoding parsed
  fields, as the NTS code does to authenticate them, gives the bytes received.\<close>
theorem extension_codec:
  "ParseExtensionFields data = Inr (efs, trailing)
   \<longleftrightarrow> data = EncodeExtensionFields efs @ trailing \<and> length trailing < 4 \<and> list_all wire_field efs"
proof
  assume "data = EncodeExtensionFields efs @ trailing \<and> length trailing < 4 \<and> list_all wire_field efs"
  then have data: "data = EncodeExtensionFields efs @ trailing" and "length trailing < 4" "list_all wire_field efs" by simp_all
  from this(2,3) have "ParseExtensionFields (EncodeExtensionFields efs @ trailing) = Inr (efs, trailing)"
  proof (induction efs)
    case Nil
    then show ?case by (subst ParseExtensionFields.simps) (simp add: EncodeExtensionFields_def)
  next
    case (Cons f efs)
    then have f: "length (ef_Value f) mod 4 = 0" "length (ef_Value f) + 4 < 65536" "ef_Wire f = encode_field f"
      and IH: "ParseExtensionFields (EncodeExtensionFields efs @ trailing) = Inr (efs, trailing)"
      by (simp_all add: wire_field_def)
    have enc: "encode_field f = PutUint16 (ef_Type f) @ PutUint16 (of_nat (4 + length (ef_Value f))) @ ef_Value f"
      by (simp add: encode_field_def Let_def pad4_sum(3) [OF f(1)])
    show ?case
      using parse_wire_field [OF f(1,2), of "ef_Type f" "EncodeExtensionFields efs @ trailing", folded enc] IH f(3)
      by (simp add: EncodeExtensionFields_def)
  qed
  with data show "ParseExtensionFields data = Inr (efs, trailing)" by simp
qed (rule parse_extension_inv)

subsection \<open>Timestamps\<close>

lemma timestamp_codec:
  "DecodeTimestampRaw (EncodeTimestamp sec fr) = (sec, fr)"
  "length b = 8 \<Longrightarrow> EncodeTimestamp (fst (DecodeTimestampRaw b)) (snd (DecodeTimestampRaw b)) = b"
  by (simp_all add: DecodeTimestampRaw_def EncodeTimestamp_def slice_def be32.enc_dec)

lemma uint_fraction:
  "uint ((ucast (fr :: u32) :: u64) * 1000000000) = uint fr * 1000000000"
  "uint fr * 1000000000 < 2 ^ 62" "0 \<le> uint fr * 1000000000"
proof -
  have lt: "uint fr < 2 ^ 32" using unsigned_less [of fr, where ?'a = int] by simp
  then show b: "uint fr * 1000000000 < 2 ^ 62" by simp
  show "0 \<le> uint fr * 1000000000" by simp
  have u: "uint (ucast fr :: u64) = uint fr"
    using lt by (simp add: unsigned_ucast_eq take_bit_int_eq_self)
  show "uint ((ucast fr :: u64) * 1000000000) = uint fr * 1000000000"
    using b by (simp add: uint_word_ariths u)
qed

lemma sint_drop32:
  "sint (drop_bit 32 (w :: u64)) = uint w div 2 ^ 32"
proof -
  have u: "uint (drop_bit 32 w) = uint w div 2 ^ 32" by (simp add: drop_bit_eq_div uint_div_distrib)
  moreover have "uint w div 2 ^ 32 < 2 ^ 32" using uint64_lt [of w] by (simp add: div_less_iff_less_mult)
  ultimately show ?thesis using sint_eq_uint64 [of "drop_bit 32 w"] by simp
qed

text \<open>The fraction conversions round down, up and to the nearest, halves up.\<close>

lemma fraction_floor: "sint (NtpFractionToNanosFloor fr) = uint fr * 1000000000 div 2 ^ 32"
  by (simp add: NtpFractionToNanosFloor_def sint_drop32 uint_fraction)

lemma fraction_nearest: "sint (NtpFractionToNanos fr) = (uint fr * 1000000000 + 2 ^ 31) div 2 ^ 32"
proof -
  have "uint ((ucast fr :: u64) * 1000000000 + push_bit 31 1) = uint fr * 1000000000 + 2 ^ 31"
    using uint_fraction [of fr] by (subst uint_add_exact) simp_all
  then show ?thesis by (simp add: NtpFractionToNanos_def sint_drop32)
qed

lemma fraction_ceil: "sint (NtpFractionToNanosCeil fr) = - ((- (uint fr * 1000000000)) div 2 ^ 32)"
proof -
  define p where "p = uint fr * 1000000000"
  have p: "0 \<le> p" "p < 2 ^ 62" using uint_fraction(2,3) [of fr] by (simp_all add: p_def)
  define w where "w = (ucast fr :: u64) * 1000000000"
  have w: "uint w = p" using uint_fraction(1) [of fr] by (simp add: w_def p_def)
  have m: "(0xffffffff :: u64) = mask 32" by (simp add: mask_eq_exp_minus_1)
  have "uint (w AND 0xffffffff) = p mod 2 ^ 32"
    unfolding m take_bit_eq_mask [symmetric] unsigned_take_bit_eq w by (rule take_bit_eq_mod)
  then have z: "w AND 0xffffffff = 0 \<longleftrightarrow> p mod 2 ^ 32 = 0" by (simp add: word_eq_iff_unsigned [where ?'a = int])
  have q: "sint (drop_bit 32 w) = p div 2 ^ 32" by (simp add: sint_drop32 w)
  have "p div 2 ^ 32 < 2 ^ 30" using p(2) by (simp add: div_less_iff_less_mult)
  then have q1: "sint (drop_bit 32 w + 1) = p div 2 ^ 32 + 1"
    using p(1) by (subst sint_add_exact) (simp_all add: q in_i64_def)
  show ?thesis
    unfolding NtpFractionToNanosCeil_def Let_def w_def [symmetric] p_def [symmetric]
    using q q1 z by (simp add: zdiv_zminus1_eq_if)
qed

text \<open>The three fraction conversions are exact roundings of \<open>fraction / 2^32\<close> seconds: below and
  above by less than a nanosecond, and the plain one to within half a nanosecond, which can be
  a full second.\<close>
theorem ntp_fraction_rounding:
  "let x = real_of_int (uint fr) * 10 ^ 9 / 2 ^ 32
   in real_of_int (sint (NtpFractionToNanosFloor fr)) \<le> x \<and> x < real_of_int (sint (NtpFractionToNanosFloor fr)) + 1
    \<and> x \<le> real_of_int (sint (NtpFractionToNanosCeil fr)) \<and> real_of_int (sint (NtpFractionToNanosCeil fr)) < x + 1
    \<and> \<bar>real_of_int (sint (NtpFractionToNanos fr)) - x\<bar> \<le> 1 / 2
    \<and> 0 \<le> sint (NtpFractionToNanos fr) \<and> sint (NtpFractionToNanos fr) \<le> 10 ^ 9"
proof -
  define p where "p = uint fr * 1000000000"
  have p: "0 \<le> p" "p \<le> 4294967295 * 1000000000"
    using unsigned_less [of fr, where ?'a = int] by (simp_all add: p_def)
  define f c n where "f = sint (NtpFractionToNanosFloor fr)" and "c = sint (NtpFractionToNanosCeil fr)" and "n = sint (NtpFractionToNanos fr)"
  have "f = p div 4294967296" "c = - ((- p) div 4294967296)" "n = (p + 2147483648) div 4294967296"
    using fraction_floor [of fr] fraction_ceil [of fr] fraction_nearest [of fr] by (simp_all add: f_def c_def n_def p_def)
  then have b: "4294967296 * f \<le> p" "p < 4294967296 * f + 4294967296" "p \<le> 4294967296 * c" "4294967296 * c < p + 4294967296"
    "4294967296 * n \<le> p + 2147483648" "p + 2147483648 < 4294967296 * n + 4294967296" "0 \<le> n" "n \<le> 1000000000"
    using p by linarith+
  have r: "4294967296 * real_of_int f \<le> real_of_int p" "real_of_int p < 4294967296 * real_of_int f + 4294967296"
    "real_of_int p \<le> 4294967296 * real_of_int c" "4294967296 * real_of_int c < real_of_int p + 4294967296"
    "4294967296 * real_of_int n \<le> real_of_int p + 2147483648" "real_of_int p + 2147483648 < 4294967296 * real_of_int n + 4294967296"
    using b(1-6) by linarith+
  have x: "real_of_int (uint fr) * 10 ^ 9 / 2 ^ 32 = real_of_int p / 4294967296" by (simp add: p_def)
  show ?thesis
    unfolding Let_def x f_def [symmetric] c_def [symmetric] n_def [symmetric]
    using r b(7,8) by (auto simp: field_simps abs_le_iff)
qed

text \<open>A candidate of an era: the era and the 32-bit second.\<close>

lemma sint_candidate:
  assumes "0 \<le> sint era" "sint era < 2 ^ 31 - 1"
  shows "sint (push_bit 32 era OR ucast (s32 :: u32) :: i64) = sint era * 2 ^ 32 + uint s32"
proof -
  have s: "uint (ucast s32 :: u64) = uint s32" "uint s32 < 2 ^ 32"
    using unsigned_less [of s32, where ?'a = int] by (simp_all add: unsigned_ucast_eq take_bit_int_eq_self)
  have ss: "sint (ucast s32 :: u64) = uint s32" using s by (subst sint_eq_uint64) simp_all
  have e: "push_bit 32 era = era * 2 ^ 32" by (simp add: push_bit_eq_mult)
  have se: "sint (era * 2 ^ 32) = sint era * 2 ^ 32"
    using assms sint_mult_exact [of era "2 ^ 32"] by (simp add: in_i64_def)
  define u where "u = uint s32"
  have "0 \<le> u" "u < 2 ^ 32" using s(2) by (simp_all add: u_def)
  then have iv: "in_i64 (sint era * 2 ^ 32 + uint s32)"
    using assms unfolding u_def [symmetric] in_i64_def by (simp; linarith)
  have d: "\<not> bit (push_bit 32 era) n \<or> \<not> bit (ucast s32 :: u64) n" for n
    using bit_imp_le_length [of s32 n] by (auto simp: bit_simps)
  have "push_bit 32 era OR ucast s32 = push_bit 32 era + (ucast s32 :: u64)"
    by (rule disjunctive_add [symmetric]) (rule d)
  then show ?thesis
    using sint_add_exact [of "era * 2 ^ 32" "ucast s32 :: u64"] iv unfolding e by (simp only: ss se)
qed


lemma only_one:
  assumes "\<not> (A \<and> B)" "\<not> (B \<and> C)" "\<not> (A \<and> C)"
  shows "(if A then [x] else []) @ (if B then [y] else []) @ (if C then [z] else []) = [r]
    \<longleftrightarrow> A \<and> x = r \<or> B \<and> y = r \<or> C \<and> z = r"
  using assms by auto

text \<open>The seconds with given low 32 bits in the neighbouring eras, and those near the coarse second among them.\<close>

definition era_second :: "int \<Rightarrow> int \<Rightarrow> int" where
  "era_second s e = e * 2 ^ 32 + s"

definition near_coarse :: "int \<Rightarrow> int \<Rightarrow> bool" where
  "near_coarse k c \<longleftrightarrow> \<bar>c - k\<bar> \<le> 68 * 365 * 86400"

lemma era_second_unique:
  "\<not> (near_coarse k (era_second s (q - 1)) \<and> near_coarse k (era_second s q))"
  "\<not> (near_coarse k (era_second s q) \<and> near_coarse k (era_second s (q + 1)))"
  "\<not> (near_coarse k (era_second s (q - 1)) \<and> near_coarse k (era_second s (q + 1)))"
  unfolding near_coarse_def era_second_def by (simp_all add: algebra_simps) linarith+

lemma era_second_exact:
  assumes s: "0 \<le> s" "s < 2 ^ 32" and k: "0 \<le> k"
  defines "q \<equiv> k div 2 ^ 32"
  shows "0 \<le> r \<and> r mod 2 ^ 32 = s \<and> near_coarse k r
     \<longleftrightarrow> (0 \<le> q - 1 \<and> near_coarse k (era_second s (q - 1))) \<and> era_second s (q - 1) = r \<or>
       near_coarse k (era_second s q) \<and> era_second s q = r \<or> near_coarse k (era_second s (q + 1)) \<and> era_second s (q + 1) = r"
    (is "?l \<longleftrightarrow> ?r")
proof
  assume ?l
  then have e: "r = era_second s (r div 2 ^ 32)" "0 \<le> r div 2 ^ 32" "near_coarse k r"
    using div_mult_mod_eq [of r "2 ^ 32"] by (simp_all add: era_second_def pos_imp_zdiv_nonneg_iff)
  have km: "k = q * 2 ^ 32 + k mod 2 ^ 32" "0 \<le> k mod 2 ^ 32" "k mod 2 ^ 32 < 2 ^ 32" by (simp_all add: q_def)
  define e0 m where "e0 = r div 2 ^ 32" and "m = k mod 2 ^ 32"
  have "\<bar>(e0 * 4294967296 + s) - (q * 4294967296 + m)\<bar> \<le> 2144448000"
    using e(1,3) km(1) unfolding near_coarse_def by (simp add: era_second_def e0_def m_def)
  then have "e0 = q - 1 \<or> e0 = q \<or> e0 = q + 1" using s km(2,3) unfolding m_def [symmetric] by simp linarith
  with e show ?r unfolding e0_def [symmetric] by (elim disjE) simp_all
next
  assume ?r
  moreover have "0 \<le> q" using k by (simp add: q_def pos_imp_zdiv_nonneg_iff)
  ultimately obtain e where e: "r = era_second s e" "0 \<le> e" "near_coarse k (era_second s e)"
    by (elim disjE conjE) (metis add_nonneg_nonneg zero_le_one)+
  have "era_second s e mod 2 ^ 32 = s" "0 \<le> era_second s e" using s e(2) by (simp_all add: era_second_def)
  then show ?l unfolding e(1) using e(3) by blast
qed

text \<open>C21: (\<open>UnfoldNtpSeconds\<close>) The era is recovered exactly: with a coarse clock, the result is the
  non-negative second with the given low 32 bits that lies within 68 years of the coarse second,
  when there is one, and the ambiguity error otherwise. There is never more than one.\<close>
theorem UnfoldNtpSeconds_exact:
  assumes "\<bar>sint coarse\<bar> < 2 ^ 61"
  defines "k \<equiv> max 0 (sint coarse + 2208988800)"
  shows "UnfoldNtpSeconds s32 coarse = Inr r
     \<longleftrightarrow> 0 \<le> sint r \<and> sint r mod 2 ^ 32 = uint s32 \<and> \<bar>sint r - k\<bar> \<le> 68 * 365 * 86400"
proof -
  define s where "s = uint s32"
  have s: "0 \<le> s" "s < 2 ^ 32" using unsigned_less [of s32, where ?'a = int] by (simp_all add: s_def)
  have k: "0 \<le> k" "k < 2 ^ 62" using assms(1) by (simp_all add: k_def)
  define ntp where "ntp = (if coarse + NtpToUnixOffset <s 0 then 0 else coarse + NtpToUnixOffset)"
  have "sint (coarse + NtpToUnixOffset) = sint coarse + 2208988800"
    unfolding NtpToUnixOffset_def by (subst sint_add_exact) (use assms(1) in \<open>simp_all add: in_i64_def abs_less_iff\<close>)
  then have ntp: "sint ntp = k" by (simp add: ntp_def go_signed k_def)
  define b where "b = signed_drop_bit 32 ntp"
  have b: "sint b = k div 2 ^ 32" by (simp add: b_def sint_signed_drop_bit_eq ntp drop_bit_eq_div)
  have bb: "0 \<le> k div 2 ^ 32" "k div 2 ^ 32 < 2 ^ 30" using k by (simp_all add: div_less_iff_less_mult pos_imp_zdiv_nonneg_iff)
  have b1: "sint (b - 1) = k div 2 ^ 32 - 1" "sint (b + 1) = k div 2 ^ 32 + 1"
    using bb b by (simp_all add: sint_sub_exact sint_add_exact in_i64_def)
  define near cand where "near = near_coarse k" and "cand = era_second s"
  define w where "w = (\<lambda>x :: i64. (push_bit 32 x OR ucast s32 :: i64))"
  have w: "sint (w x) = cand (sint x)" if "0 \<le> sint x" "sint x < 2 ^ 31 - 1" for x
    unfolding w_def cand_def era_second_def s_def by (rule sint_candidate [OF that])
  have test: "((let dist = c - ntp in if dist <s 0 then - dist else dist) \<le>s MaxCoarseErrorSec) \<longleftrightarrow> near (sint c)"
    if "0 \<le> sint c" for c
  proof -
    have d: "sint (c - ntp) = sint c - k"
      using sint64_lt [of c] that k by (subst sint_sub_exact) (simp_all add: ntp in_i64_def)
    moreover have "sint (- (c - ntp)) = - (sint c - k)" if "sint c - k < 0"
      using sint_neg_exact [of "c - ntp"] d that \<open>0 \<le> sint c\<close> k by (simp add: in_i64_def)
    ultimately show ?thesis
      by (simp add: Let_def go_signed MaxCoarseErrorSec_def near_def near_coarse_def abs_if)
  qed
  define q where "q = k div 2 ^ 32"
  have nn: "0 \<le> cand e" if "0 \<le> e" for e using that s by (simp add: cand_def era_second_def)
  have step: "filter (\<lambda>c. (let dist = c - ntp in if dist <s 0 then - dist else dist) \<le>s MaxCoarseErrorSec)
      (map w (filter (\<lambda>era. \<not> era <s 0) [x])) = (if 0 \<le> sint x \<and> near (cand (sint x)) then [w x] else [])"
    if "sint x < 2 ^ 31 - 1" for x
    using that test [of "w x"] w [of x] nn [of "sint x"] by (simp add: go_signed)
  have cands: "era_candidates s32 ntp
      = (if 0 \<le> q - 1 \<and> near (cand (q - 1)) then [w (b - 1)] else []) @ (if near (cand q) then [w b] else [])
        @ (if near (cand (q + 1)) then [w (b + 1)] else [])"
  proof -
    have l: "filter P (map w (filter Q [x, y, z])) = filter P (map w (filter Q [x])) @ filter P (map w (filter Q [y]))
      @ filter P (map w (filter Q [z]))" for P Q and x y z :: i64
      by simp
    have e: "era_candidates s32 ntp = filter (\<lambda>c. (let dist = c - ntp in if dist <s 0 then - dist else dist) \<le>s MaxCoarseErrorSec)
      (map w (filter (\<lambda>era. \<not> era <s 0) [b - 1, b, b + 1]))"
      by (simp only: era_candidates_def Let_def b_def w_def)
    show ?thesis
      unfolding e l using step [of "b - 1"] step [of b] step [of "b + 1"] bb b b1 by (simp add: q_def)
  qed
  have u: "UnfoldNtpSeconds s32 coarse = Inr r \<longleftrightarrow> era_candidates s32 ntp = [r]"
    by (simp add: UnfoldNtpSeconds_def Let_def ntp_def split: list.splits)
  have eq: "w x = r \<longleftrightarrow> cand (sint x) = sint r" if "0 \<le> sint x" "sint x < 2 ^ 31 - 1" for x
    using w [OF that] by (metis sint_eqI)
  note r = era_second_exact [OF s k(1), of "sint r", folded near_def cand_def q_def]
  have "UnfoldNtpSeconds s32 coarse = Inr r \<longleftrightarrow> 0 \<le> sint r \<and> sint r mod 2 ^ 32 = s \<and> near (sint r)"
    unfolding u cands r
  proof (subst only_one)
    have q: "0 \<le> q" "q < 2 ^ 30" using bb by (simp_all add: q_def)
    have "w b = r \<longleftrightarrow> cand q = sint r" "w (b + 1) = r \<longleftrightarrow> cand (q + 1) = sint r"
      "0 \<le> q - 1 \<Longrightarrow> w (b - 1) = r \<longleftrightarrow> cand (q - 1) = sint r"
      using eq [of b] eq [of "b + 1"] eq [of "b - 1"] q b b1 by (simp_all add: q_def [simplified])
    then show "((0 \<le> q - 1 \<and> near (cand (q - 1))) \<and> w (b - 1) = r \<or> near (cand q) \<and> w b = r \<or> near (cand (q + 1)) \<and> w (b + 1) = r) \<longleftrightarrow>
       ((0 \<le> q - 1 \<and> near (cand (q - 1))) \<and> cand (q - 1) = sint r \<or> near (cand q) \<and> cand q = sint r
        \<or> near (cand (q + 1)) \<and> cand (q + 1) = sint r)"
      by blast
  qed (use era_second_unique [of k s q, folded near_def cand_def] in blast)+
  then show ?thesis by (simp add: near_def near_coarse_def s_def)
qed

lemma UnfoldNtpSeconds_exact_witness: "UnfoldNtpSeconds 3908988800 1700000007 = Inr 3908988800"
  by (subst UnfoldNtpSeconds_exact) simp_all

subsection \<open>Root delay and dispersion\<close>

text \<open>The float64 conversions of the 16.16 fields are exact up to the final truncation.\<close>

lemma f64_round_shift:
  assumes "0 \<le> n" "n < 2 ^ 53"
  shows "f64_round (n * 2 ^ j) = n * 2 ^ j"
proof -
  define s where "s = nat (bitlen (n * 2 ^ j) - 53)"
  have "n * 2 ^ j < 2 ^ 53 * 2 ^ j" using assms(2) by (intro mult_strict_right_mono) simp_all
  then have "bitlen (n * 2 ^ j) \<le> int (53 + j)"
    using bitlen_le_iff_power [of "n * 2 ^ j" "int (53 + j)"] by (simp add: nat_add_distrib power_add del: of_nat_add)
  then have "s \<le> j" by (simp add: s_def)
  then have e: "n * 2 ^ j = n * 2 ^ (j - s) * 2 ^ s" by (simp add: mult.assoc power_add [symmetric])
  have "round_half_even (n * 2 ^ j) (2 ^ s) = n * 2 ^ (j - s)" unfolding e by (simp add: round_half_even_def)
  then have "round_half_even (n * 2 ^ j) (2 ^ s) * 2 ^ s = n * 2 ^ j" using e by (simp only:)
  then show ?thesis unfolding f64_round_def Let_def s_def [symmetric] .
qed

lemma f64_times_billion:
  assumes "\<bar>n\<bar> \<le> 2 ^ 32"
  shows "f64_of_int (f64_of_int n * 1000000000) = n * 1000000000"
proof -
  have "f64_round (m * 1000000000) = m * 1000000000" if "0 \<le> m" "m \<le> 2 ^ 32" for m
    using f64_round_shift [of "m * 1953125" 9] that by (simp add: mult.assoc)
  from this [of n] this [of "- n"] have "f64_of_int (n * 1000000000) = n * 1000000000"
    using assms by (simp add: f64_of_int_def abs_le_iff)
  moreover have "f64_of_int n = n" using assms by (intro f64_of_int_exact) simp
  ultimately show ?thesis by simp
qed

lemma root_nanos_bounds:
  fixes n :: int
  assumes "\<bar>n\<bar> \<le> 2 ^ 32"
  shows "in_i64 (n * 1000000000 sdiv 65536)" "\<bar>n * 1000000000 sdiv 65536\<bar> \<le> 2 ^ 46"
proof -
  have "\<bar>n * 1000000000 sdiv 65536\<bar> = \<bar>n\<bar> * 1000000000 div 65536"
    by (cases "0 \<le> n") (simp_all add: signed_divide_int_def sgn_if abs_mult)
  also have "\<dots> \<le> 2 ^ 32 * 1000000000 div 65536" using assms by (intro zdiv_mono1) simp_all
  finally show b: "\<bar>n * 1000000000 sdiv 65536\<bar> \<le> 2 ^ 46" by simp
  then show "in_i64 (n * 1000000000 sdiv 65536)" unfolding in_i64_def abs_le_iff by (simp; linarith)
qed

lemma sint_RootDelayNanoseconds: "sint (RootDelayNanoseconds p) = sint (pk_RootDelay p) * 1000000000 sdiv 65536"
  and sint_RootDispersionNanoseconds: "sint (RootDispersionNanoseconds p) = uint (pk_RootDisp p) * 1000000000 sdiv 65536"
proof -
  have "\<bar>sint (pk_RootDelay p)\<bar> \<le> 2 ^ 32" using sint_ge [of "pk_RootDelay p"] sint_lt [of "pk_RootDelay p"] by simp
  then show "sint (RootDelayNanoseconds p) = sint (pk_RootDelay p) * 1000000000 sdiv 65536"
    unfolding RootDelayNanoseconds_def by (simp only: f64_times_billion sint_of_int64 root_nanos_bounds)
  have "\<bar>uint (pk_RootDisp p)\<bar> \<le> 2 ^ 32" using unsigned_less [of "pk_RootDisp p", where ?'a = int] by simp
  then show "sint (RootDispersionNanoseconds p) = uint (pk_RootDisp p) * 1000000000 sdiv 65536"
    unfolding RootDispersionNanoseconds_def by (simp only: f64_times_billion sint_of_int64 root_nanos_bounds)
qed

end
