(* ===== verification/Measurement.thy ===== *)
theory Measurement
  imports Ntp Floats
begin

text \<open>
  The four-timestamp measurement (\<open>ntp/measurement.go\<close>) with the step-escape gate of the estimate path, and the
  reachability register (\<open>ntp/slot.go\<close>).
\<close>

subsection \<open>The measurement\<close>

record MeasurementInput =
  mi_T1LocalSendEstimate :: GstInstant
  mi_T2ServerRecv :: GstInstant
  mi_T3ServerTx :: GstInstant
  mi_T4LocalRecvEstimate :: GstInstant
  mi_LocalSendRaw :: RawNanos
  mi_LocalRecvRaw :: RawNanos
  mi_LocalEstimateAtMid :: GstInstant
  mi_ServerRootDispersionNs :: i64
  mi_ServerRootDelayNs :: i64
  mi_LocalSendReadError :: ErrorNs
  mi_LocalRecvReadError :: ErrorNs
  mi_RemoteTimestampQuantization :: ErrorNs
  mi_LocalMappingIntegrationErr :: ErrorNs
  mi_StaticAsymmetryCorrection :: i64
  mi_StaticAsymmetryUncertainty :: ErrorNs
  mi_ProtocolConversionError :: ErrorNs
  mi_PrecisionFloorNs :: i64
  mi_MaxServerTurnaroundNs :: i64
  mi_MaxRootDistanceNs :: i64

record MeasurementResult =
  mr_ThetaSlowPositive :: i64
  mr_DeltaRaw :: i64
  mr_DeltaClamped :: i64
  mr_RawMid :: RawNanos
  mr_RawMidReadBound :: ErrorNs
  mr_Center :: GstInstant
  mr_NetworkBound :: i64
  mr_HardInterval :: TimeInterval

definition ComputeMeasurement :: "MeasurementInput \<Rightarrow> go_error + MeasurementResult" where
  "ComputeMeasurement inp =
    (if mi_LocalRecvRaw inp < mi_LocalSendRaw inp then Inl ErrNonChronologicalTimes
     else if mi_T3ServerTx inp <s mi_T2ServerRecv inp then Inl ErrServerTimeReversal
     else
       let serverTurnaround = mi_T3ServerTx inp - mi_T2ServerRecv inp
       in if 0 <s mi_MaxServerTurnaroundNs inp \<and> mi_MaxServerTurnaroundNs inp <s serverTurnaround
          then Inl (Err ''server turnaround time exceeded limit'')
          else
            let rootDist = mi_ServerRootDispersionNs inp + go_quot (mi_ServerRootDelayNs inp) 2
            in if 0 <s mi_MaxRootDistanceNs inp \<and> mi_MaxRootDistanceNs inp <s rootDist then Inl ErrRootDistanceExceeded
               else
                 let t1 = mi_T1LocalSendEstimate inp; t2 = mi_T2ServerRecv inp;
                     t3 = mi_T3ServerTx inp; t4 = mi_T4LocalRecvEstimate inp;
                     theta = go_quot ((t2 - t1) + (t3 - t4)) 2 + mi_StaticAsymmetryCorrection inp;
                     deltaRaw = (t4 - t1) - (t3 - t2);
                     deltaClamped = (if 0 <s mi_PrecisionFloorNs inp \<and> deltaRaw <s mi_PrecisionFloorNs inp
                                     then mi_PrecisionFloorNs inp else deltaRaw);
                     rawMidReadBound = max (mi_LocalSendReadError inp) (mi_LocalRecvReadError inp);
                     rounding = (mi_LocalRecvRaw inp - mi_LocalSendRaw inp) AND 1
                 in if MaxInt64 - rounding < rawMidReadBound
                       \<or> MaxInt64 - mi_LocalRecvReadError inp < mi_LocalSendReadError inp
                    then Inl ErrOverflow
                    else
                      let rawMid = mi_LocalSendRaw inp + (mi_LocalRecvRaw inp - mi_LocalSendRaw inp) div 2;
                          center = mi_LocalEstimateAtMid inp + theta;
                          netBound0 = mi_ServerRootDispersionNs inp + go_quot (mi_ServerRootDelayNs inp) 2
                            + go_quot deltaClamped 2 + mi_LocalSendReadError inp + mi_LocalRecvReadError inp
                            + mi_RemoteTimestampQuantization inp + mi_LocalMappingIntegrationErr inp
                            + mi_StaticAsymmetryUncertainty inp + mi_ProtocolConversionError inp;
                          netBound = (if netBound0 <s 0 then 0 else netBound0)
                      in Inr \<lparr>mr_ThetaSlowPositive = theta, mr_DeltaRaw = deltaRaw, mr_DeltaClamped = deltaClamped,
                              mr_RawMid = rawMid, mr_RawMidReadBound = rawMidReadBound + rounding,
                              mr_Center = center, mr_NetworkBound = netBound,
                              mr_HardInterval = interval (center - netBound) (center + netBound)\<rparr>)"

subsection \<open>The reachability register\<close>

text \<open>The binding of an outstanding request, which nothing fills yet.\<close>

record Stamp =
  st_Raw :: RawNanos
  st_Estimate :: GstInstant
  st_EstimateReadError :: ErrorNs
  st_MappingGeneration :: Generation
  st_PublicationGeneration :: Generation

record RequestSlot =
  rs_EndpointID :: string
  rs_RequestSerial :: u64
  rs_ReachSerial :: u64
  rs_SourcePortGeneration :: u64
  rs_BasicTransmitWire :: bytes
  rs_LocalSend :: Stamp
  rs_NtsUniqueID :: bytes
  rs_NtsCookieID :: bytes
  rs_DeadlineRaw :: RawNanos
  rs_ResponseAccepted :: bool

record ReachabilityManager =
  rm_reach :: u8
  rm_currentReachSerial :: u64

definition NewReachabilityManager :: ReachabilityManager where
  "NewReachabilityManager = \<lparr>rm_reach = 0, rm_currentReachSerial = 0\<rparr>"

definition OnTransmit :: "ReachabilityManager \<Rightarrow> u64 \<times> ReachabilityManager" where
  "OnTransmit r =
    (let serial = rm_currentReachSerial r + 1
     in (serial, r\<lparr>rm_currentReachSerial := serial, rm_reach := push_bit 1 (rm_reach r) AND 0xff\<rparr>))"

definition OnResponse :: "ReachabilityManager \<Rightarrow> u64 \<Rightarrow> ReachabilityManager" where
  "OnResponse r reachSerial =
    (if rm_currentReachSerial r < reachSerial \<or> reachSerial = 0 then r
     else
       let age = rm_currentReachSerial r - reachSerial
       in if age < 8 then r\<lparr>rm_reach := rm_reach r OR push_bit (unat age) 1\<rparr> else r)"

subsection \<open>Exact arithmetic under magnitude bounds\<close>

lemma sint_word_of_int_sum:
  "w = word_of_int x \<Longrightarrow> in_i64 x \<Longrightarrow> sint (w :: i64) = x"
  by (simp add: sint_of_int64)

text \<open>Inputs of which no sum below overflows: instants within 36 years of 1970, errors below 2 years.\<close>

definition measurement_bounded :: "MeasurementInput \<Rightarrow> bool" where
  "measurement_bounded inp \<longleftrightarrow>
     \<bar>sint (mi_T1LocalSendEstimate inp)\<bar> < 2 ^ 61 \<and> \<bar>sint (mi_T2ServerRecv inp)\<bar> < 2 ^ 61 \<and>
     \<bar>sint (mi_T3ServerTx inp)\<bar> < 2 ^ 61 \<and> \<bar>sint (mi_T4LocalRecvEstimate inp)\<bar> < 2 ^ 61 \<and>
     \<bar>sint (mi_T4LocalRecvEstimate inp) - sint (mi_T1LocalSendEstimate inp)\<bar> < 2 ^ 56 \<and>
     \<bar>sint (mi_T3ServerTx inp) - sint (mi_T2ServerRecv inp)\<bar> < 2 ^ 56 \<and>
     \<bar>sint (mi_ServerRootDispersionNs inp)\<bar> < 2 ^ 56 \<and> \<bar>sint (mi_ServerRootDelayNs inp)\<bar> < 2 ^ 56 \<and>
     \<bar>sint (mi_PrecisionFloorNs inp)\<bar> < 2 ^ 56 \<and>
     uint (mi_LocalSendReadError inp) < 2 ^ 56 \<and> uint (mi_LocalRecvReadError inp) < 2 ^ 56 \<and>
     uint (mi_RemoteTimestampQuantization inp) < 2 ^ 56 \<and> uint (mi_LocalMappingIntegrationErr inp) < 2 ^ 56"

text \<open>
  The exchange as \<open>measureResponse\<close> sets it up: the estimate at the middle is the middle of the two
  local estimates, and there is no asymmetry correction or conversion error.
\<close>

definition symmetric_exchange :: "MeasurementInput \<Rightarrow> bool" where
  "symmetric_exchange inp \<longleftrightarrow>
     mi_LocalEstimateAtMid inp = mi_T1LocalSendEstimate inp
       + go_quot (mi_T4LocalRecvEstimate inp - mi_T1LocalSendEstimate inp) 2 \<and>
     mi_StaticAsymmetryCorrection inp = 0 \<and> mi_StaticAsymmetryUncertainty inp = 0 \<and> mi_ProtocolConversionError inp = 0"

lemma sdiv2_bounds: "x - 1 \<le> 2 * (x sdiv 2)" "2 * (x sdiv 2) \<le> (x :: int) + 1"
  unfolding sdiv_half by (cases "0 \<le> x"; simp; linarith)+

lemma sdiv2_abs: "\<bar>x\<bar> \<le> 2 * b \<Longrightarrow> \<bar>(x :: int) sdiv 2\<bar> \<le> b"
  unfolding sdiv_half by (cases "0 \<le> x"; simp add: abs_le_iff; linarith)

text \<open>The centre and the bound, as integers.\<close>

lemma ComputeMeasurement_exact:
  assumes "ComputeMeasurement inp = Inr m" "measurement_bounded inp" "symmetric_exchange inp"
  defines "t1 \<equiv> sint (mi_T1LocalSendEstimate inp)" and "t2 \<equiv> sint (mi_T2ServerRecv inp)"
    and "t3 \<equiv> sint (mi_T3ServerTx inp)" and "t4 \<equiv> sint (mi_T4LocalRecvEstimate inp)"
  defines "c \<equiv> t1 + (t4 - t1) sdiv 2 + ((t2 - t1) + (t3 - t4)) sdiv 2"
    and "n \<equiv> sint (mi_ServerRootDispersionNs inp) + sint (mi_ServerRootDelayNs inp) sdiv 2
      + (if 0 < sint (mi_PrecisionFloorNs inp) \<and> (t4 - t1) - (t3 - t2) < sint (mi_PrecisionFloorNs inp)
         then sint (mi_PrecisionFloorNs inp) else (t4 - t1) - (t3 - t2)) sdiv 2
      + uint (mi_LocalSendReadError inp) + uint (mi_LocalRecvReadError inp)
      + uint (mi_RemoteTimestampQuantization inp) + uint (mi_LocalMappingIntegrationErr inp)"
  shows "sint (Earliest (mr_HardInterval m)) = c - max 0 n" "sint (Latest (mr_HardInterval m)) = c + max 0 n"
    and "sint (mr_Center m) = c" "sint (mr_NetworkBound m) = max 0 n" "t2 \<le> t3"
    and "\<bar>c\<bar> < 2 ^ 62" "\<bar>n\<bar> < 2 ^ 60"
proof -
  note B = assms(2) [unfolded measurement_bounded_def, folded t1_def t2_def t3_def t4_def, simplified abs_less_iff]
  note S = assms(3) [unfolded symmetric_exchange_def]
  let ?T1 = "mi_T1LocalSendEstimate inp" and ?T2 = "mi_T2ServerRecv inp" and ?T3 = "mi_T3ServerTx inp"
    and ?T4 = "mi_T4LocalRecvEstimate inp"
  define dw where "dw = (if 0 <s mi_PrecisionFloorNs inp \<and> (?T4 - ?T1) - (?T3 - ?T2) <s mi_PrecisionFloorNs inp
      then mi_PrecisionFloorNs inp else (?T4 - ?T1) - (?T3 - ?T2))"
  define cw where "cw = mi_LocalEstimateAtMid inp + (go_quot ((?T2 - ?T1) + (?T3 - ?T4)) 2 + mi_StaticAsymmetryCorrection inp)"
  define nw where "nw = mi_ServerRootDispersionNs inp + go_quot (mi_ServerRootDelayNs inp) 2
      + go_quot dw 2 + mi_LocalSendReadError inp + mi_LocalRecvReadError inp
      + mi_RemoteTimestampQuantization inp + mi_LocalMappingIntegrationErr inp
      + mi_StaticAsymmetryUncertainty inp + mi_ProtocolConversionError inp"
  define d where "d = (if 0 < sint (mi_PrecisionFloorNs inp) \<and> (t4 - t1) - (t3 - t2) < sint (mi_PrecisionFloorNs inp)
      then sint (mi_PrecisionFloorNs inp) else (t4 - t1) - (t3 - t2))"
  from assms(1) have m: "\<not> ?T3 <s ?T2" "mr_Center m = cw" "mr_NetworkBound m = (if nw <s 0 then 0 else nw)"
    "mr_HardInterval m = interval (cw - (if nw <s 0 then 0 else nw)) (cw + (if nw <s 0 then 0 else nw))"
    by (auto simp: ComputeMeasurement_def Let_def cw_def nw_def dw_def split: if_splits)
  then show t23: "t2 \<le> t3" by (simp add: go_signed t2_def t3_def)
  have e: "sint (?T2 - ?T1) = t2 - t1" "sint (?T3 - ?T4) = t3 - t4" "sint (?T4 - ?T1) = t4 - t1" "sint (?T3 - ?T2) = t3 - t2"
    unfolding t1_def t2_def t3_def t4_def
    by (rule sint_sub_exact; use B in \<open>simp add: in_i64_def t1_def t2_def t3_def t4_def; linarith\<close>)+
  have "in_i64 ((t2 - t1) + (t3 - t4))" "in_i64 ((t4 - t1) - (t3 - t2))"
    using B by (simp_all add: in_i64_def; linarith)+
  then have sum: "sint ((?T2 - ?T1) + (?T3 - ?T4)) = (t2 - t1) + (t3 - t4)"
    and "sint ((?T4 - ?T1) - (?T3 - ?T2)) = (t4 - t1) - (t3 - t2)"
    using sint_add_exact [of "?T2 - ?T1" "?T3 - ?T4"] sint_sub_exact [of "?T4 - ?T1" "?T3 - ?T2"] unfolding e by blast+
  from this(2) have dw: "sint dw = d" by (simp add: dw_def d_def go_signed)
  have d: "\<bar>d\<bar> \<le> 2 * 2 ^ 56" using B unfolding d_def abs_le_iff by (auto split: if_splits)
  define q1 q2 where "q1 = (t4 - t1) sdiv 2" and "q2 = ((t2 - t1) + (t3 - t4)) sdiv 2"
  have c: "c = t1 + q1 + q2" by (simp only: c_def q1_def q2_def)
  have c2: "2 * c \<le> t2 + t3 + 2" "t2 + t3 - 2 \<le> 2 * c"
    using sdiv2_bounds [of "t4 - t1", folded q1_def] sdiv2_bounds [of "(t2 - t1) + (t3 - t4)", folded q2_def]
    unfolding c by simp_all
  then show cb: "\<bar>c\<bar> < 2 ^ 62" using B by (simp add: abs_less_iff)
  have "cw = word_of_int c"
  proof -
    have "cw = word_of_int (sint ?T1) + word_of_int (sint (go_quot (?T4 - ?T1) 2)) + word_of_int (sint (go_quot ((?T2 - ?T1) + (?T3 - ?T4)) 2))"
      using S by (simp add: cw_def)
    also have "\<dots> = word_of_int c" unfolding sint_go_quot2 e sum c_def t1_def by simp
    finally show ?thesis .
  qed
  then have cw: "sint cw = c" using cb by (intro sint_word_of_int_sum) (simp_all add: in_i64_def abs_less_iff)
  then show "sint (mr_Center m) = c" using m by simp
  have nb: "\<bar>n\<bar> < 2 ^ 60"
    using B sdiv2_abs [OF d] sdiv2_abs [of "sint (mi_ServerRootDelayNs inp)" "2 ^ 55"]
    unfolding n_def d_def [symmetric]
    by (simp add: abs_less_iff abs_le_iff)
       (use uint_nonnegative [of "mi_LocalSendReadError inp"] uint_nonnegative [of "mi_LocalRecvReadError inp"]
         uint_nonnegative [of "mi_RemoteTimestampQuantization inp"] uint_nonnegative [of "mi_LocalMappingIntegrationErr inp"] in linarith)
  show "\<bar>n\<bar> < 2 ^ 60" by (fact nb)
  have "nw = word_of_int n"
  proof -
    have "nw = word_of_int (sint (mi_ServerRootDispersionNs inp)) + word_of_int (sint (go_quot (mi_ServerRootDelayNs inp) 2))
      + word_of_int (sint (go_quot dw 2)) + word_of_int (uint (mi_LocalSendReadError inp)) + word_of_int (uint (mi_LocalRecvReadError inp))
      + word_of_int (uint (mi_RemoteTimestampQuantization inp)) + word_of_int (uint (mi_LocalMappingIntegrationErr inp))"
      using S by (simp add: nw_def)
    also have "\<dots> = word_of_int n" unfolding sint_go_quot2 dw n_def d_def [symmetric] by simp
    finally show ?thesis .
  qed
  then have nw: "sint nw = n" using nb by (intro sint_word_of_int_sum) (simp_all add: in_i64_def abs_less_iff)
  define N where "N = (if nw <s 0 then 0 else nw)"
  have N: "sint N = max 0 n" using nw by (simp add: N_def go_signed)
  then show "sint (mr_NetworkBound m) = max 0 n" using m by (simp add: N_def)
  have "sint (cw - N) = c - max 0 n" "sint (cw + N) = c + max 0 n"
    using cb nb by (simp_all add: sint_sub_exact sint_add_exact cw N in_i64_def abs_less_iff max_def)
  then show "sint (Earliest (mr_HardInterval m)) = c - max 0 n" "sint (Latest (mr_HardInterval m)) = c + max 0 n"
    using m(4) by (simp_all add: N_def)
qed


lemma measured_interval_encloses:
  fixes send recv a2 a3 :: real
  assumes "ComputeMeasurement inp = Inr m" "measurement_bounded inp" "symmetric_exchange inp"
    and "send \<le> a2" "a2 \<le> a3" "a3 \<le> recv"
    and "\<bar>of_int (sint (mi_T2ServerRecv inp)) - a2\<bar> \<le> E" "\<bar>of_int (sint (mi_T3ServerTx inp)) - a3\<bar> \<le> E"
    and "E + 2 \<le> of_int (sint (mi_ServerRootDispersionNs inp) + sint (mi_ServerRootDelayNs inp) sdiv 2
        + uint (mi_RemoteTimestampQuantization inp))"
    and "\<bar>of_int (sint (mi_T4LocalRecvEstimate inp) - sint (mi_T1LocalSendEstimate inp)) - (recv - send)\<bar>
        \<le> of_int (uint (mi_LocalSendReadError inp) + uint (mi_LocalRecvReadError inp) + uint (mi_LocalMappingIntegrationErr inp))"
  shows "of_int (sint (Earliest (mr_HardInterval m))) \<le> (send + recv) / 2 \<and>
    (send + recv) / 2 \<le> of_int (sint (Latest (mr_HardInterval m)))"
proof -
  define t1 t2 t3 t4 where "t1 = sint (mi_T1LocalSendEstimate inp)" and "t2 = sint (mi_T2ServerRecv inp)"
    and "t3 = sint (mi_T3ServerTx inp)" and "t4 = sint (mi_T4LocalRecvEstimate inp)"
  define q1 q2 where "q1 = (t4 - t1) sdiv 2" and "q2 = ((t2 - t1) + (t3 - t4)) sdiv 2"
  define d where "d = (if 0 < sint (mi_PrecisionFloorNs inp) \<and> (t4 - t1) - (t3 - t2) < sint (mi_PrecisionFloorNs inp)
      then sint (mi_PrecisionFloorNs inp) else (t4 - t1) - (t3 - t2))"
  define q3 where "q3 = d sdiv 2"
  define R e l where "R = sint (mi_ServerRootDispersionNs inp) + sint (mi_ServerRootDelayNs inp) sdiv 2"
    and "e = uint (mi_RemoteTimestampQuantization inp)"
    and "l = uint (mi_LocalSendReadError inp) + uint (mi_LocalRecvReadError inp) + uint (mi_LocalMappingIntegrationErr inp)"
  note X = ComputeMeasurement_exact [OF assms(1-3), folded t1_def t2_def t3_def t4_def, folded q1_def q2_def d_def, folded q3_def]
  define N c where "N = R + q3 + l + e" and "c = t1 + q1 + q2"
  have n: "sint (Earliest (mr_HardInterval m)) = c - max 0 N" "sint (Latest (mr_HardInterval m)) = c + max 0 N"
    using X(1,2) by (simp_all add: N_def c_def R_def e_def l_def algebra_simps)
  have c: "2 * c \<le> t2 + t3 + 2" "t2 + t3 - 2 \<le> 2 * c"
    using sdiv2_bounds [of "t4 - t1", folded q1_def] sdiv2_bounds [of "(t2 - t1) + (t3 - t4)", folded q2_def]
    unfolding c_def by simp_all
  have "(t4 - t1) - (t3 - t2) \<le> d" by (simp add: d_def)
  then have q3: "(t4 - t1) - (t3 - t2) - 1 \<le> 2 * q3" using sdiv2_bounds(1) [of d, folded q3_def] by simp
  have l: "0 \<le> l" by (simp add: l_def)
  have h: "\<bar>of_int t2 - a2\<bar> \<le> E" "\<bar>of_int t3 - a3\<bar> \<le> E" "E + 2 \<le> of_int R + of_int e"
    "\<bar>of_int t4 - of_int t1 - (recv - send)\<bar> \<le> of_int l"
    using assms(7-10) by (simp_all add: t1_def t2_def t3_def t4_def R_def e_def l_def)
  have r: "2 * of_int c \<le> of_int t2 + of_int t3 + (2 :: real)" "of_int t2 + of_int t3 - (2 :: real) \<le> 2 * of_int c"
    "of_int t4 - of_int t1 - (of_int t3 - of_int t2) - (1 :: real) \<le> 2 * of_int q3" "0 \<le> (of_int l :: real)"
    "real_of_int N = of_int R + of_int q3 + of_int l + of_int e"
    using c q3 l by (linarith, linarith, linarith, simp, simp add: N_def)
  have "\<bar>(send + recv) / 2 - of_int c\<bar> \<le> real_of_int N"
    unfolding abs_le_iff using r h [unfolded abs_le_iff] assms(4-6) by (simp add: field_simps)
  moreover have "real_of_int N \<le> of_int (max 0 N)" by simp
  ultimately show ?thesis unfolding n by (simp add: abs_le_iff field_simps)
qed

text \<open>C5: (\<open>ComputeMeasurement\<close>) A measured interval contains true time. Let the server receive and send at
  true times between those of our sending and receiving, with a clock within its root dispersion,
  half its root delay and the timestamp quantization (two nanoseconds of which pay for the integer
  halvings), and let our clock measure the round trip to within the read and mapping errors. Then,
  however the path delay is split, the hard interval contains true time at the middle of the exchange.\<close>
theorem measurement_contains_true_time:
  fixes send recv a2 a3 :: real
  assumes "ComputeMeasurement inp = Inr m" "measurement_bounded inp" "symmetric_exchange inp"
    and "send \<le> a2" "a2 \<le> a3" "a3 \<le> recv"
    and "\<bar>of_int (sint (mi_T2ServerRecv inp)) - a2\<bar> \<le> E" "\<bar>of_int (sint (mi_T3ServerTx inp)) - a3\<bar> \<le> E"
    and "E + 2 \<le> of_int (sint (mi_ServerRootDispersionNs inp) + sint (mi_ServerRootDelayNs inp) sdiv 2
        + uint (mi_RemoteTimestampQuantization inp))"
    and "\<bar>of_int (sint (mi_T4LocalRecvEstimate inp) - sint (mi_T1LocalSendEstimate inp)) - (recv - send)\<bar>
        \<le> of_int (uint (mi_LocalSendReadError inp) + uint (mi_LocalRecvReadError inp) + uint (mi_LocalMappingIntegrationErr inp))"
  shows "of_int (sint (Earliest (mr_HardInterval m))) \<le> (send + recv) / 2 \<and>
    (send + recv) / 2 \<le> of_int (sint (Latest (mr_HardInterval m)))"
  using assms by (rule measured_interval_encloses)

definition sample_exchange :: MeasurementInput where
  "sample_exchange = \<lparr>mi_T1LocalSendEstimate = 1000000, mi_T2ServerRecv = 1030000, mi_T3ServerTx = 1040000,
     mi_T4LocalRecvEstimate = 1050000, mi_LocalSendRaw = 500, mi_LocalRecvRaw = 50501, mi_LocalEstimateAtMid = 1025000,
     mi_ServerRootDispersionNs = 3000, mi_ServerRootDelayNs = 4001, mi_LocalSendReadError = 10,
     mi_LocalRecvReadError = 20, mi_RemoteTimestampQuantization = 1000, mi_LocalMappingIntegrationErr = 1000,
     mi_StaticAsymmetryCorrection = 0, mi_StaticAsymmetryUncertainty = 0, mi_ProtocolConversionError = 0,
     mi_PrecisionFloorNs = 1000, mi_MaxServerTurnaroundNs = 2000000000, mi_MaxRootDistanceNs = 16000000000\<rparr>"

lemma sample_exchange_measured:
  "case ComputeMeasurement sample_exchange of Inl _ \<Rightarrow> False
   | Inr m \<Rightarrow> mr_HardInterval m = interval 1007970 1062030 \<and> mr_Center m = 1035000 \<and> mr_RawMid m = 25500
       \<and> mr_RawMidReadBound m = 21"
  by code_simp

lemma sample_exchange_ok: "measurement_bounded sample_exchange" "symmetric_exchange sample_exchange"
  by code_simp+

lemma measurement_contains_true_time_witness:
  "\<exists>m. ComputeMeasurement sample_exchange = Inr m \<and> of_int (sint (Earliest (mr_HardInterval m))) \<le> (1023000 :: real)"
proof -
  obtain m where m: "ComputeMeasurement sample_exchange = Inr m"
    using sample_exchange_measured by (auto split: sum.splits)
  have "of_int (sint (Earliest (mr_HardInterval m))) \<le> (998000 + 1048000) / (2 :: real)"
    using measurement_contains_true_time [OF m sample_exchange_ok, of 998000 1027000 1037000 1048000 3000]
    by (simp add: sample_exchange_def sdiv_half)
  then show ?thesis using m by simp
qed

subsection \<open>What the register says\<close>

text \<open>Runs of the register, with the serials answered while they were in the past.\<close>

inductive reach_run :: "ReachabilityManager \<Rightarrow> u64 set \<Rightarrow> bool" where
  new: "reach_run NewReachabilityManager {}"
| transmit: "reach_run r S \<Longrightarrow> rm_currentReachSerial r \<noteq> MaxUint64 \<Longrightarrow> reach_run (snd (OnTransmit r)) S"
| response: "reach_run r S \<Longrightarrow>
    reach_run (OnResponse r k) (if k \<noteq> 0 \<and> k \<le> rm_currentReachSerial r then insert k S else S)"

inductive_cases reach_run_cases: "reach_run r S"

lemma unat_minus_le: "b \<le> a \<Longrightarrow> unat ((a :: u64) - b) = unat a - unat b"
  by (simp add: unat_sub_if' word_le_nat_alt)

lemma reach_run_inv:
  "reach_run r S \<Longrightarrow> (\<forall>k \<in> S. k \<noteq> 0 \<and> k \<le> rm_currentReachSerial r) \<and>
    (\<forall>i < 8. bit (rm_reach r) i \<longleftrightarrow> (\<exists>k \<in> S. unat (rm_currentReachSerial r) = unat k + i))"
proof (induction rule: reach_run.induct)
  case new
  then show ?case by (simp add: NewReachabilityManager_def)
next
  case (transmit r S)
  define c where "c = rm_currentReachSerial r"
  have c1: "unat (c + 1) = unat c + 1"
    using transmit.hyps(2) by (subst unat_add_lem [THEN iffD1])
      (use unsigned_less [of c, where ?'a = nat] in \<open>auto simp: c_def word_eq_iff_unsigned [where ?'a = nat]\<close>)
  have le: "k \<le> c + 1" if "k \<le> c" for k using that c1 by (simp add: word_le_nat_alt)
  have b: "bit (push_bit 1 (rm_reach r) AND 0xff) i \<longleftrightarrow> 0 < i \<and> bit (rm_reach r) (i - 1)" if "i < 8" for i
  proof -
    have "(0xff :: u8) = - 1" by simp
    then have "push_bit 1 (rm_reach r) AND 0xff = push_bit 1 (rm_reach r)" by (simp only: and.right_neutral)
    then show ?thesis unfolding \<open>push_bit 1 (rm_reach r) AND 0xff = push_bit 1 (rm_reach r)\<close> bit_push_bit_iff
      using that by auto
  qed
  have no: "\<not> (\<exists>k \<in> S. unat (c + 1) = unat k)"
    using transmit.IH c1 by (auto simp: c_def word_le_nat_alt)
  have "bit (push_bit 1 (rm_reach r) AND 0xff) i \<longleftrightarrow> (\<exists>k \<in> S. unat (c + 1) = unat k + i)" if "i < 8" for i
  proof (cases i)
    case 0
    then show ?thesis using b [OF that] no by simp
  next
    case (Suc j)
    then show ?thesis using b [OF that] transmit.IH that c1 by (simp add: c_def)
  qed
  then show ?case using transmit.IH le by (simp add: OnTransmit_def Let_def c_def)
next
  case (response r S k)
  define c where "c = rm_currentReachSerial r"
  show ?case
  proof (cases "k \<noteq> 0 \<and> k \<le> c")
    case False
    then have "OnResponse r k = r" by (auto simp: OnResponse_def c_def not_le)
    moreover have "\<not> (k \<noteq> 0 \<and> k \<le> rm_currentReachSerial r)" using False by (simp only: c_def) simp
    ultimately show ?thesis using response.IH by (simp only: if_False)
  next
    case True
    define age where "age = unat (c - k)"
    have age: "unat c = unat k + age" using True unat_minus_le [of k c] by (simp add: age_def word_le_nat_alt)
    have lt: "c - k < 8 \<longleftrightarrow> age < 8" by (simp add: age_def word_less_nat_alt)
    have r: "rm_reach (OnResponse r k) = (if age < 8 then rm_reach r OR push_bit age 1 else rm_reach r)"
      "rm_currentReachSerial (OnResponse r k) = c"
      using True lt by (auto simp: OnResponse_def Let_def c_def age_def)
    have b: "bit (rm_reach (OnResponse r k)) i \<longleftrightarrow> bit (rm_reach r) i \<or> i = age" if "i < 8" for i
      using that by (auto simp: r(1) bit_simps)
    have "bit (rm_reach (OnResponse r k)) i \<longleftrightarrow> (\<exists>k \<in> insert k S. unat c = unat k + i)" if "i < 8" for i
      using b [OF that] response.IH that age by (auto simp: c_def)
    then show ?thesis using response.IH True by (simp add: r(2)) (simp add: c_def)
  qed
qed

text \<open>(\<open>OnTransmit\<close>, \<open>OnResponse\<close>) The register is the history of the last eight polls: in every run,
  bit \<open>i\<close> of the bitmap is set exactly when the poll sent \<open>i\<close> transmissions before the latest one has
  been answered. Late, repeated and unknown serials never set another poll's bit.\<close>
theorem reachability_register_exact:
  assumes "reach_run r S" "i < 8"
  shows "bit (rm_reach r) i \<longleftrightarrow> (\<exists>k \<in> S. unat (rm_currentReachSerial r) = unat k + i)"
  using reach_run_inv [OF assms(1)] assms(2) by simp

lemma reachability_register_exact_witness:
  "bit (rm_reach (OnResponse (snd (OnTransmit (snd (OnTransmit NewReachabilityManager)))) 1)) 1"
proof -
  have run: "reach_run (OnResponse (snd (OnTransmit (snd (OnTransmit NewReachabilityManager)))) 1) {1}"
    using reach_run.response [OF reach_run.transmit [OF reach_run.transmit [OF reach_run.new]], of 1]
    by (simp add: OnTransmit_def NewReachabilityManager_def Let_def)
  show ?thesis
    by (rule reachability_register_exact [OF run, THEN iffD2])
      (simp_all add: OnTransmit_def OnResponse_def NewReachabilityManager_def Let_def)
qed

subsection \<open>The step-escape gate\<close>

definition CheckGateC :: "float64 \<Rightarrow> float64 \<Rightarrow> float64 \<Rightarrow> float64 \<Rightarrow> bool" where
  "CheckGateC measuredSlowPos predictedFastPos delayAnomaly allowedInnovation =
    (let diff = f_sub (f_Abs (f_add measuredSlowPos predictedFastPos)) delayAnomaly
     in f_less allowedInnovation diff)"

text \<open>An innovation the delay anomaly accounts for never trips the gate, and neither does one that is not a number.\<close>

lemma CheckGateC_explained:
  assumes f: "f_within 500 m" "f_within 500 p" "f_within 500 d" "f_finite a" and d: "rnd (f_val d) = f_val d"
    and le: "\<bar>f_val m + f_val p\<bar> \<le> f_val d" "0 \<le> f_val a"
  shows "\<not> CheckGateC m p d a"
proof -
  have s: "f_within 501 (f_add m p)" "f_val (f_add m p) = rnd (f_val m + f_val p)" using f_within_add [OF f(1,2)] by simp_all
  have "rnd (f_val m + f_val p) \<le> f_val d" "- f_val d \<le> rnd (f_val m + f_val p)"
    using rnd_mono [of "f_val m + f_val p" "f_val d"] rnd_mono [of "- f_val d" "f_val m + f_val p"] le(1) d by (simp_all add: abs_le_iff)
  then have n: "\<bar>f_val (f_add m p)\<bar> - f_val d \<le> 0" by (simp add: s(2) abs_le_iff)
  have w: "f_within 501 (f_Abs (f_add m p))" "f_within 501 (f_uminus d)"
    using s(1) f_within_mono [OF f(3), of 501] by (simp_all add: f_within_def float_val)
  have "f_within 502 (f_sub (f_Abs (f_add m p)) d)" "f_val (f_sub (f_Abs (f_add m p)) d) = rnd (\<bar>f_val (f_add m p)\<bar> - f_val d)"
    using f_within_add [OF w] by (simp_all add: f_sub_def float_val)
  then show ?thesis using rnd_mono [OF n] le(2) f(4) by (simp add: CheckGateC_def f_less_val f_within_def)
qed

lemma CheckGateC_nan: "\<not> CheckGateC NaN p d a" "\<not> CheckGateC m NaN d a" "\<not> CheckGateC m p NaN a" "\<not> CheckGateC m p d NaN"
  by (simp_all add: CheckGateC_def f_add_def f_sub_def f_less_def Let_def split: float64.splits)

end
