(* ===== verification/NtsKe.thy ===== *)
theory NtsKe
  imports Bytes "HOL-Library.Multiset"
begin

text \<open>
  NTS key establishment (package \<open>nts\<close>): framed records (\<open>record.go\<close>), the reader of a server
  response (\<open>ke.go\<close>), and the cookie jar (\<open>cookie.go\<close>). \<open>net.ParseIP\<close> is the argument \<open>parseIP\<close>: the
  canonical text of the address a string denotes, if it denotes one.
\<close>

subsection \<open>Records\<close>

abbreviation RecordEndOfMessage :: u16 where "RecordEndOfMessage \<equiv> 0"
abbreviation RecordNextProtocol :: u16 where "RecordNextProtocol \<equiv> 1"
abbreviation RecordError :: u16 where "RecordError \<equiv> 2"
abbreviation RecordWarning :: u16 where "RecordWarning \<equiv> 3"
abbreviation RecordAeadNegotiation :: u16 where "RecordAeadNegotiation \<equiv> 4"
abbreviation RecordNewCookie :: u16 where "RecordNewCookie \<equiv> 5"
abbreviation RecordServerNegotiation :: u16 where "RecordServerNegotiation \<equiv> 6"
abbreviation RecordPortNegotiation :: u16 where "RecordPortNegotiation \<equiv> 7"
abbreviation RecordCompliantExporter :: u16 where "RecordCompliantExporter \<equiv> 1024"

record Record =
  rc_Critical :: bool
  rc_Type :: u16
  rc_Body :: bytes

definition EncodeRecord :: "Record \<Rightarrow> bytes" where
  "EncodeRecord r =
    (let typeWord = rc_Type r AND 0x7fff;
         typeWord = (if rc_Critical r then typeWord OR 0x8000 else typeWord)
     in PutUint16 typeWord @ PutUint16 (of_nat (length (rc_Body r))) @ rc_Body r)"

text \<open>The loop of \<open>ParseRecords\<close> on the bytes from its offset on.\<close>

function ParseRecords :: "bytes \<Rightarrow> int \<Rightarrow> go_error + Record list" where
  "ParseRecords data maxRecordCap =
    (if data = [] then Inr []
     else if length data < 4 then Inl ErrRecordTooShort
     else
       let typeWord = Uint16 (slice data 0 2); bodyLen = unat (Uint16 (slice data 2 4))
       in if 0 < maxRecordCap \<and> maxRecordCap < int bodyLen then Inl (Wrap ''record cap'' ErrRecordCapExceeded)
          else if length data < 4 + bodyLen then Inl (Err ''nts-ke record body truncated'')
          else
            case ParseRecords (drop (4 + bodyLen) data) maxRecordCap of
              Inl e \<Rightarrow> Inl e
            | Inr records \<Rightarrow>
                Inr (\<lparr>rc_Critical = (typeWord AND 0x8000 \<noteq> 0), rc_Type = typeWord AND 0x7fff,
                      rc_Body = slice data 4 (4 + bodyLen)\<rparr> # records))"
  by pat_completeness auto
termination
  by (relation "measure (\<lambda>(data, cap). length data)") auto

declare ParseRecords.simps [simp del]

definition BuildClientRequest :: "u16 list \<Rightarrow> bool \<Rightarrow> bytes" where
  "BuildClientRequest offeredAeads includeExporterMarker =
     EncodeRecord \<lparr>rc_Critical = True, rc_Type = RecordNextProtocol, rc_Body = PutUint16 0\<rparr>
     @ EncodeRecord \<lparr>rc_Critical = True, rc_Type = RecordAeadNegotiation, rc_Body = concat (map PutUint16 offeredAeads)\<rparr>
     @ (if includeExporterMarker
        then EncodeRecord \<lparr>rc_Critical = False, rc_Type = RecordCompliantExporter, rc_Body = []\<rparr> else [])
     @ EncodeRecord \<lparr>rc_Critical = True, rc_Type = RecordEndOfMessage, rc_Body = []\<rparr>"

subsection \<open>The record codec\<close>

definition record_ok :: "int \<Rightarrow> Record \<Rightarrow> bool" where
  "record_ok cap r \<longleftrightarrow> rc_Type r < 0x8000 \<and> length (rc_Body r) < 65536 \<and> (0 < cap \<longrightarrow> int (length (rc_Body r)) \<le> cap)"

lemma type_word:
  fixes t :: u16
  shows "t < 0x8000 \<Longrightarrow> t AND 0x7fff = t" "t AND 0x7fff < 0x8000"
    and "(if t AND 0x8000 \<noteq> 0 then (t AND 0x7fff) OR 0x8000 else t AND 0x7fff) = t"
    and "(t AND 0x7fff) AND 0x7fff = t AND 0x7fff"
    and "((t AND 0x7fff) OR 0x8000) AND 0x7fff = t AND 0x7fff"
    and "((t AND 0x7fff) OR 0x8000) AND 0x8000 = 0x8000" "(t AND 0x7fff) AND 0x8000 = 0"
proof -
  have m: "(0x7fff :: u16) = mask 15" "(0x8000 :: u16) = push_bit 15 1" by (simp_all add: mask_eq_exp_minus_1)
  show "t < 0x8000 \<Longrightarrow> t AND 0x7fff = t"
    unfolding m(1) take_bit_eq_mask [symmetric]
    by (simp add: word_less_def word_eq_iff_unsigned [where ?'a = int] unsigned_take_bit_eq take_bit_int_eq_self)
  show "t AND 0x7fff < 0x8000"
    using word_and_le1 [of t "0x7fff"] by (rule order_le_less_trans) simp
  have n: "bit (0x8000 :: u16) k \<longleftrightarrow> k = 15" "bit (0x8000 :: int) k \<longleftrightarrow> k = 15" "bit (0x7fff :: u16) k \<longleftrightarrow> k < 15"
    "bit (0x7fff :: int) k \<longleftrightarrow> k < 15" for k
    using bit_exp_iff [of 15 k, where ?'a = u16] bit_exp_iff [of 15 k, where ?'a = int]
      bit_mask_iff [of 15 k, where ?'a = u16] bit_mask_iff [of 15 k, where ?'a = int]
    by (auto simp: mask_eq_exp_minus_1)
  have b: "t AND 0x8000 = (if bit t 15 then 0x8000 else 0)"
    by (rule bit_word_eqI) (auto simp: bit_simps n)
  show "(if t AND 0x8000 \<noteq> 0 then (t AND 0x7fff) OR 0x8000 else t AND 0x7fff) = t"
  proof (rule bit_word_eqI)
    fix k assume "k < LENGTH(16)"
    then have "k < 15 \<or> k = 15" by auto
    then show "bit (if t AND 0x8000 \<noteq> 0 then (t AND 0x7fff) OR 0x8000 else t AND 0x7fff) k \<longleftrightarrow> bit t k"
      unfolding b by (auto simp: bit_simps n)
  qed
  show "(t AND 0x7fff) AND 0x7fff = t AND 0x7fff" by simp
  show "((t AND 0x7fff) OR 0x8000) AND 0x7fff = t AND 0x7fff"
    by (rule bit_word_eqI) (auto simp: bit_simps n)
  show "((t AND 0x7fff) OR 0x8000) AND 0x8000 = 0x8000" "(t AND 0x7fff) AND 0x8000 = 0"
    by (simp_all add: bit.conj_disj_distrib2 and.assoc)
qed

lemma EncodeRecord_length [simp]: "length (EncodeRecord r) = 4 + length (rc_Body r)"
  by (simp add: EncodeRecord_def Let_def)

lemma EncodeRecord_not_Nil [simp]: "EncodeRecord r \<noteq> []"
  by (metis EncodeRecord_length add_is_0 list.size(3) zero_neq_numeral)

lemma parse_encoded_record:
  assumes "record_ok cap r"
  shows "ParseRecords (EncodeRecord r @ rest) cap
    = (case ParseRecords rest cap of Inl e \<Rightarrow> Inl e | Inr rs \<Rightarrow> Inr (r # rs))"
proof -
  define t where "t = (if rc_Critical r then (rc_Type r AND 0x7fff) OR 0x8000 else rc_Type r AND 0x7fff)"
  have e: "EncodeRecord r = PutUint16 t @ PutUint16 (of_nat (length (rc_Body r))) @ rc_Body r"
    by (simp add: EncodeRecord_def t_def)
  have n: "unat (of_nat (length (rc_Body r)) :: u16) = length (rc_Body r)"
    using assms by (subst unat_of_nat) (simp add: record_ok_def)
  have s: "slice (EncodeRecord r @ rest) 0 2 = PutUint16 t"
    "slice (EncodeRecord r @ rest) 2 4 = PutUint16 (of_nat (length (rc_Body r)))"
    "slice (EncodeRecord r @ rest) 4 (4 + length (rc_Body r)) = rc_Body r"
    by (simp_all add: e slice_def)
  have t: "t AND 0x7fff = rc_Type r" "(t AND 0x8000 \<noteq> 0) = rc_Critical r"
    using assms type_word(1) [of "rc_Type r"] type_word(5,6,7) [of "rc_Type r"] by (auto simp: t_def record_ok_def)
  have cap: "\<not> (0 < cap \<and> cap < int (length (rc_Body r)))" using assms by (auto simp: record_ok_def)
  show ?thesis
    by (subst ParseRecords.simps) (use cap in \<open>auto simp add: Let_def s n t split: sum.splits\<close>)
qed

text \<open>Reading the frame at the front of a buffer.\<close>

lemma read_frame:
  assumes "4 \<le> length data" "4 + unat (Uint16 (slice data 2 4)) \<le> length data"
  defines "t \<equiv> Uint16 (slice data 0 2)" and "n \<equiv> unat (Uint16 (slice data 2 4))"
  defines "r \<equiv> \<lparr>rc_Critical = (t AND 0x8000 \<noteq> 0), rc_Type = t AND 0x7fff, rc_Body = slice data 4 (4 + n)\<rparr>"
  shows "EncodeRecord r = take (4 + n) data" "data = EncodeRecord r @ drop (4 + n) data"
    and "n < 65536" "length (rc_Body r) = n" "rc_Type r < 0x8000"
proof -
  show "n < 65536" using unsigned_less [of "Uint16 (slice data 2 4)", where ?'a = nat] by (simp add: n_def)
  show len: "length (rc_Body r) = n" using assms(2) by (simp add: r_def n_def)
  show "rc_Type r < 0x8000" using type_word(2) [of t] by (simp add: r_def)
  have "(of_nat n :: u16) = Uint16 (slice data 2 4)" by (simp add: n_def)
  moreover have "(if rc_Critical r then (rc_Type r AND 0x7fff) OR 0x8000 else rc_Type r AND 0x7fff) = t"
    using type_word(3,4) [of t] by (cases "t AND 0x8000 = 0") (simp_all add: r_def)
  ultimately have "EncodeRecord r = slice data 0 2 @ slice data 2 4 @ slice data 4 (4 + n)"
    using assms(1) unfolding EncodeRecord_def Let_def len
    by (simp add: t_def be16.enc_dec) (simp add: r_def)
  also have "\<dots> = take (4 + n) data" by (simp only: slice_join) (simp add: slice_join slice_def)
  finally show enc: "EncodeRecord r = take (4 + n) data" .
  show "data = EncodeRecord r @ drop (4 + n) data" by (simp add: enc)
qed

lemma parse_records_inv:
  "ParseRecords data cap = Inr rs \<Longrightarrow> data = concat (map EncodeRecord rs) \<and> list_all (record_ok cap) rs"
proof (induction data cap arbitrary: rs rule: ParseRecords.induct)
  case (1 data cap)
  show ?case
  proof (cases "data = []")
    case True
    with "1.prems" show ?thesis by (subst (asm) ParseRecords.simps) simp
  next
    case False
    define t n where "t = Uint16 (slice data 0 2)" and "n = unat (Uint16 (slice data 2 4))"
    define r where "r = \<lparr>rc_Critical = (t AND 0x8000 \<noteq> 0), rc_Type = t AND 0x7fff, rc_Body = slice data 4 (4 + n)\<rparr>"
    from "1.prems" False obtain rs' where ok: "\<not> length data < 4" "\<not> (0 < cap \<and> cap < int n)" "\<not> length data < 4 + n"
      "ParseRecords (drop (4 + n) data) cap = Inr rs'" and rs: "rs = r # rs'"
      by (subst (asm) ParseRecords.simps)
         (auto simp: Let_def t_def n_def r_def split: if_splits sum.splits)
    have IH: "drop (4 + n) data = concat (map EncodeRecord rs') \<and> list_all (record_ok cap) rs'"
      using "1.IH" [OF False ok(1) refl refl, folded n_def] ok by simp
    have "4 \<le> length data" "4 + n \<le> length data" using ok by simp_all
    note frame = read_frame [OF this [unfolded n_def], folded t_def n_def, folded r_def]
    have "0 < cap \<longrightarrow> int n \<le> cap" using ok(2) by linarith
    then have "record_ok cap r" unfolding record_ok_def frame(4) using frame(3,5) by blast
    moreover have "data = EncodeRecord r @ drop (4 + n) data" by (rule frame(2))
    ultimately show ?thesis unfolding rs list.map concat.simps list.pred_inject using IH by metis
  qed
qed

text \<open>(\<open>ParseRecords\<close>, \<open>EncodeRecord\<close>) The NTS-KE framing is exact: a buffer parses to a list of records
  exactly when it is the concatenation of their encodings and each has a 15-bit type, a body that
  fits its length field and respects the cap. Nothing else is accepted and no record is read two ways.\<close>
theorem record_codec:
  "ParseRecords data cap = Inr rs \<longleftrightarrow> data = concat (map EncodeRecord rs) \<and> list_all (record_ok cap) rs"
proof
  assume a: "data = concat (map EncodeRecord rs) \<and> list_all (record_ok cap) rs"
  then have "list_all (record_ok cap) rs" by simp
  then have "ParseRecords (concat (map EncodeRecord rs)) cap = Inr rs"
  proof (induction rs)
    case Nil
    then show ?case by (subst ParseRecords.simps) simp
  next
    case (Cons r rs)
    then show ?case using parse_encoded_record [of cap r "concat (map EncodeRecord rs)"] by simp
  qed
  then show "ParseRecords data cap = Inr rs" using a by simp
qed (rule parse_records_inv)

text \<open>What the client sends is read back as the records of its negotiation.\<close>

lemma BuildClientRequest_parses:
  assumes "2 * length offered < 65536"
  shows "ParseRecords (BuildClientRequest offered marker) 0 = Inr
    ([\<lparr>rc_Critical = True, rc_Type = RecordNextProtocol, rc_Body = PutUint16 0\<rparr>,
      \<lparr>rc_Critical = True, rc_Type = RecordAeadNegotiation, rc_Body = concat (map PutUint16 offered)\<rparr>]
     @ (if marker then [\<lparr>rc_Critical = False, rc_Type = RecordCompliantExporter, rc_Body = []\<rparr>] else [])
     @ [\<lparr>rc_Critical = True, rc_Type = RecordEndOfMessage, rc_Body = []\<rparr>])"
  using assms by (simp add: record_codec BuildClientRequest_def record_ok_def be16.length_table word_less_def)

subsection \<open>Sizes and algorithms\<close>

definition MaxPacketSize :: int where "MaxPacketSize = 65535 - 20 - 8"
definition PreferredPacketSize :: int where "PreferredPacketSize = 1280 - 40 - 8"
definition MaxPlaceholderCount :: int where "MaxPlaceholderCount = 7"
definition MaxCookieSize :: int where "MaxCookieSize = MaxPacketSize div 4 * 4 - 48 - 36 - 4 - 40"

definition validCookieSize :: "int \<Rightarrow> bool" where
  "validCookieSize sz \<longleftrightarrow> 0 < sz \<and> sz \<le> MaxCookieSize"

record AeadParams =
  ap_ID :: u16
  ap_KeyLength :: nat
  ap_NonceSize :: nat
  ap_TagSize :: nat

definition Registry :: "u16 \<Rightarrow> AeadParams option" where
  "Registry aead =
    (if aead = 15 then Some \<lparr>ap_ID = 15, ap_KeyLength = 32, ap_NonceSize = 16, ap_TagSize = 16\<rparr>
     else if aead = 30 then Some \<lparr>ap_ID = 30, ap_KeyLength = 16, ap_NonceSize = 12, ap_TagSize = 16\<rparr>
     else None)"

subsection \<open>The server name\<close>

definition isValidDomainChar :: "u8 \<Rightarrow> bool" where
  "isValidDomainChar c \<longleftrightarrow> (97 \<le> c \<and> c \<le> 122) \<or> (65 \<le> c \<and> c \<le> 90) \<or> (48 \<le> c \<and> c \<le> 57) \<or> c = 45"

fun split_on :: "u8 \<Rightarrow> bytes \<Rightarrow> bytes \<Rightarrow> bytes list" where
  "split_on sep acc [] = [acc]"
| "split_on sep acc (b # bs) = (if b = sep then acc # split_on sep [] bs else split_on sep (acc @ [b]) bs)"

definition label_error :: "bytes \<Rightarrow> go_error option" where
  "label_error label =
    (if label = [] \<or> 63 < length label \<or> hd label = 45 \<or> last label = 45
     then Some (Err ''invalid NTP server label'')
     else if list_ex (\<lambda>c. \<not> isValidDomainChar c) label
     then Some (Err ''NTP server name must be an ASCII FQDN or IP address'')
     else None)"

fun labels_error :: "bytes list \<Rightarrow> go_error option" where
  "labels_error [] = None"
| "labels_error (l # ls) = (case label_error l of Some e \<Rightarrow> Some e | None \<Rightarrow> labels_error ls)"

definition serverName :: "(bytes \<Rightarrow> bytes option) \<Rightarrow> bytes \<Rightarrow> go_error + bytes" where
  "serverName parseIP body =
    (case parseIP body of
       Some ip \<Rightarrow> Inr ip
     | None \<Rightarrow>
       let name = (if body \<noteq> [] \<and> last body = 46 then butlast body else body)
       in if name = [] \<or> 253 < length name then Inl (Err ''invalid NTP server name'')
          else case labels_error (split_on 46 [] name) of
                 Some e \<Rightarrow> Inl e
               | None \<Rightarrow> Inr (name @ [46]))"

subsection \<open>The server response\<close>

record KeyExchangeResponse =
  ke_AEAD :: u16
  ke_Cookies :: "bytes list"
  ke_ServerName :: bytes
  ke_Port :: u16

definition MaxKEMessageSize :: int where "MaxKEMessageSize = 64 * 1024"

datatype ke_next = KeDone KeyExchangeResponse | KeMore "u16 set" KeyExchangeResponse

text \<open>The switch over the record kinds.\<close>

definition ke_record ::
  "(bytes \<Rightarrow> bytes option) \<Rightarrow> u16 list \<Rightarrow> u16 set \<Rightarrow> KeyExchangeResponse \<Rightarrow> u16 \<Rightarrow> bool \<Rightarrow> bytes \<Rightarrow> go_error + ke_next" where
  "ke_record parseIP offered seen response kind critical body =
    (let sz = length body
     in if kind = RecordEndOfMessage
        then if \<not> critical \<or> sz \<noteq> 0 then Inl (Err ''invalid NTS-KE End of Message record'')
             else if RecordNextProtocol \<notin> seen \<or> RecordAeadNegotiation \<notin> seen \<or> ke_Cookies response = []
             then Inl (Err ''NTS-KE response missing protocol, AEAD, or cookies'')
             else Inr (KeDone response)
        else if kind = RecordNextProtocol
        then if kind \<in> seen \<or> \<not> critical \<or> sz \<noteq> 2 \<or> Uint16 body \<noteq> 0
             then Inl (Err ''NTS-KE must select NTPv4 exactly once'')
             else Inr (KeMore (insert kind seen) response)
        else if kind = RecordAeadNegotiation
        then if kind \<in> seen \<or> sz \<noteq> 2 then Inl (Err ''NTS-KE must select one AEAD exactly once'')
             else let aead = Uint16 body
                  in if aead \<notin> set offered \<or> Registry aead = None then Inl ErrUnsupportedAead
                     else Inr (KeMore (insert kind seen) (response\<lparr>ke_AEAD := aead\<rparr>))
        else if kind = RecordNewCookie
        then if \<not> validCookieSize (int sz) then Inl ErrInvalidCookie
             else Inr (KeMore seen (response\<lparr>ke_Cookies := ke_Cookies response @ [body]\<rparr>))
        else if kind = RecordError then Inl ErrNtsKeFailed
        else if kind = RecordWarning
        then if \<not> critical \<or> sz \<noteq> 2 then Inl (Err ''invalid NTS-KE Warning record'') else Inl ErrWarningEncountered
        else if kind = RecordServerNegotiation
        then if kind \<in> seen then Inl (Err ''duplicate NTP server negotiation'')
             else (case serverName parseIP body of
                     Inl e \<Rightarrow> Inl e
                   | Inr name \<Rightarrow> Inr (KeMore (insert kind seen) (response\<lparr>ke_ServerName := name\<rparr>)))
        else if kind = RecordPortNegotiation
        then if kind \<in> seen \<or> sz \<noteq> 2 \<or> Uint16 body = 0 then Inl (Err ''invalid NTP port negotiation'')
             else Inr (KeMore (insert kind seen) (response\<lparr>ke_Port := Uint16 body\<rparr>))
        else if kind = RecordCompliantExporter
        then if kind \<in> seen \<or> sz \<noteq> 0 then Inl (Err ''invalid compliant exporter marker'')
             else Inr (KeMore (insert kind seen) response)
        else if critical then Inl (Wrap ''kind'' ErrUnknownCritical)
        else Inr (KeMore seen response))"

text \<open>The loop; the stream is what is still to be read before the connection ends.\<close>

function ke_loop ::
  "(bytes \<Rightarrow> bytes option) \<Rightarrow> u16 list \<Rightarrow> bytes \<Rightarrow> int \<Rightarrow> u16 set \<Rightarrow> KeyExchangeResponse \<Rightarrow> go_error + KeyExchangeResponse" where
  "ke_loop parseIP offered stream tot seen response =
    (if MaxKEMessageSize - 4 < tot then Inl ErrRecordCapExceeded
     else if length stream < 4 then Inl (Wrap ''EOF'' ErrMissingEndOfMessage)
     else
       let word = Uint16 (slice stream 0 2); kind = word AND 0x7fff; critical = (word AND 0x8000 \<noteq> 0);
           sz = unat (Uint16 (slice stream 2 4)); tot = tot + 4 + int sz
       in if MaxKEMessageSize < tot then Inl ErrRecordCapExceeded
          else if length stream < 4 + sz then Inl (Wrap ''truncated NTS-KE record'' (Err ''unexpected EOF''))
          else
            case ke_record parseIP offered seen response kind critical (slice stream 4 (4 + sz)) of
              Inl e \<Rightarrow> Inl e
            | Inr (KeDone resp) \<Rightarrow> Inr resp
            | Inr (KeMore seen' resp') \<Rightarrow> ke_loop parseIP offered (drop (4 + sz) stream) tot seen' resp')"
  by pat_completeness auto
termination
  by (relation "measure (\<lambda>(p, o', stream, t, s, r). length stream)") auto

declare ke_loop.simps [simp del]

definition ReadServerResponse :: "(bytes \<Rightarrow> bytes option) \<Rightarrow> bytes \<Rightarrow> u16 list \<Rightarrow> go_error + KeyExchangeResponse" where
  "ReadServerResponse parseIP stream offered =
     ke_loop parseIP offered stream 0 {} \<lparr>ke_AEAD = 0, ke_Cookies = [], ke_ServerName = [], ke_Port = 123\<rparr>"

subsection \<open>What an accepted response says\<close>

definition ke_known :: "u16 set" where
  "ke_known = {RecordEndOfMessage, RecordNextProtocol, RecordAeadNegotiation, RecordNewCookie, RecordServerNegotiation,
     RecordPortNegotiation, RecordCompliantExporter}"

text \<open>A record that the reader takes before the end of the message.\<close>

definition ke_acceptable :: "u16 list \<Rightarrow> Record \<Rightarrow> bool" where
  "ke_acceptable offered r \<longleftrightarrow>
     rc_Type r \<notin> {RecordEndOfMessage, RecordError, RecordWarning} \<and> (rc_Critical r \<longrightarrow> rc_Type r \<in> ke_known) \<and>
     (rc_Type r = RecordNextProtocol \<longrightarrow> rc_Critical r \<and> rc_Body r = PutUint16 0) \<and>
     (rc_Type r = RecordAeadNegotiation \<longrightarrow> length (rc_Body r) = 2 \<and> Uint16 (rc_Body r) \<in> set offered
        \<and> Registry (Uint16 (rc_Body r)) \<noteq> None) \<and>
     (rc_Type r = RecordNewCookie \<longrightarrow> validCookieSize (int (length (rc_Body r))))"

definition of_type :: "u16 \<Rightarrow> Record list \<Rightarrow> bytes list" where
  "of_type t rs = map rc_Body (filter (\<lambda>r. rc_Type r = t) rs)"

lemma of_type_simps [simp]:
  "of_type t [] = []" "of_type t (r # rs) = (if rc_Type r = t then rc_Body r # of_type t rs else of_type t rs)"
  by (simp_all add: of_type_def)

lemma Uint16_0_iff: "length b = 2 \<Longrightarrow> Uint16 b = 0 \<longleftrightarrow> b = PutUint16 0"
  using be16.enc_dec [of b] be16.dec_enc [of 0] by metis

lemma ke_record_done:
  "ke_record parseIP offered seen response kind critical body = Inr (KeDone resp) \<Longrightarrow>
   kind = 0 \<and> critical \<and> body = [] \<and> resp = response \<and> RecordNextProtocol \<in> seen \<and> RecordAeadNegotiation \<in> seen
   \<and> ke_Cookies response \<noteq> []"
  by (auto simp: ke_record_def Let_def split: if_splits sum.splits)

lemma ke_record_more:
  assumes "ke_record parseIP offered seen response (rc_Type r) (rc_Critical r) (rc_Body r) = Inr (KeMore seen' response')"
  shows "ke_acceptable offered r"
    and "ke_Cookies response' = ke_Cookies response @ of_type RecordNewCookie [r]"
    and "RecordNextProtocol \<in> seen' \<longleftrightarrow> RecordNextProtocol \<in> seen \<or> rc_Type r = RecordNextProtocol"
    and "RecordAeadNegotiation \<in> seen' \<longleftrightarrow> RecordAeadNegotiation \<in> seen \<or> rc_Type r = RecordAeadNegotiation"
    and "rc_Type r = RecordNextProtocol \<Longrightarrow> RecordNextProtocol \<notin> seen"
    and "rc_Type r = RecordAeadNegotiation \<Longrightarrow> RecordAeadNegotiation \<notin> seen \<and> rc_Body r = PutUint16 (ke_AEAD response')"
    and "rc_Type r \<noteq> RecordAeadNegotiation \<Longrightarrow> ke_AEAD response' = ke_AEAD response"
    and "ke_Port response \<noteq> 0 \<Longrightarrow> ke_Port response' \<noteq> 0"
  using assms
  by (auto simp: ke_record_def Let_def ke_acceptable_def ke_known_def Uint16_0_iff be16.enc_dec
      split: if_splits sum.splits)


abbreviation end_record :: Record where
  "end_record \<equiv> \<lparr>rc_Critical = True, rc_Type = RecordEndOfMessage, rc_Body = []\<rparr>"

definition ke_message :: "u16 list \<Rightarrow> Record list \<Rightarrow> KeyExchangeResponse \<Rightarrow> bytes \<Rightarrow> bytes \<Rightarrow> bool" where
  "ke_message offered rs resp stream rest \<longleftrightarrow>
     stream = concat (map EncodeRecord (rs @ [end_record])) @ rest \<and> list_all (ke_acceptable offered) rs \<and>
     ke_Cookies resp = of_type RecordNewCookie rs \<and> ke_Cookies resp \<noteq> [] \<and>
     of_type RecordNextProtocol rs = [PutUint16 0] \<and> of_type RecordAeadNegotiation rs = [PutUint16 (ke_AEAD resp)] \<and>
     int (length stream) - int (length rest) \<le> MaxKEMessageSize"

text \<open>The same for the rest of a message, read in the middle.\<close>

definition ke_tail :: "u16 list \<Rightarrow> u16 set \<Rightarrow> KeyExchangeResponse \<Rightarrow> KeyExchangeResponse \<Rightarrow> int \<Rightarrow> bytes \<Rightarrow> Record list \<Rightarrow> bytes \<Rightarrow> bool" where
  "ke_tail offered seen resp0 resp tot stream rs rest \<longleftrightarrow> stream = concat (map EncodeRecord (rs @ [end_record])) @ rest \<and> list_all (ke_acceptable offered) rs
    \<and> ke_Cookies resp = ke_Cookies resp0 @ of_type RecordNewCookie rs \<and> ke_Cookies resp \<noteq> []
    \<and> of_type RecordNextProtocol rs = (if RecordNextProtocol \<in> seen then [] else [PutUint16 0])
    \<and> of_type RecordAeadNegotiation rs = (if RecordAeadNegotiation \<in> seen then [] else [PutUint16 (ke_AEAD resp)])
    \<and> (RecordAeadNegotiation \<in> seen \<longrightarrow> ke_AEAD resp = ke_AEAD resp0)
    \<and> (ke_Port resp0 \<noteq> 0 \<longrightarrow> ke_Port resp \<noteq> 0)
    \<and> tot + int (length stream) - int (length rest) \<le> MaxKEMessageSize"

lemma ke_loop_sound:
  assumes "ke_loop parseIP offered stream tot seen resp0 = Inr resp"
  shows "\<exists>rs rest. ke_tail offered seen resp0 resp tot stream rs rest"
  using assms
proof (induction parseIP offered stream tot seen resp0 rule: ke_loop.induct)
  case (1 parseIP offered stream tot seen resp0)
  define t n where "t = Uint16 (slice stream 0 2)" and "n = unat (Uint16 (slice stream 2 4))"
  define r where "r = \<lparr>rc_Critical = (t AND 0x8000 \<noteq> 0), rc_Type = t AND 0x7fff, rc_Body = slice stream 4 (4 + n)\<rparr>"
  from "1.prems" have ok: "\<not> MaxKEMessageSize - 4 < tot" "\<not> length stream < 4" "\<not> MaxKEMessageSize < tot + 4 + int n"
    "\<not> length stream < 4 + n"
    by (subst (asm) ke_loop.simps; auto simp: Let_def n_def split: if_splits)+
  then have "4 \<le> length stream" "4 + n \<le> length stream" by simp_all
  note frame = read_frame [OF this [unfolded n_def], folded t_def n_def, folded r_def]
  have r: "ke_record parseIP offered seen resp0 (t AND 0x7fff) (t AND 0x8000 \<noteq> 0) (slice stream 4 (4 + n))
    = ke_record parseIP offered seen resp0 (rc_Type r) (rc_Critical r) (rc_Body r)" by (simp add: r_def)
  have loop: "ke_loop parseIP offered stream tot seen resp0 =
      (case ke_record parseIP offered seen resp0 (rc_Type r) (rc_Critical r) (rc_Body r) of
         Inl e \<Rightarrow> Inl e
       | Inr (KeDone resp) \<Rightarrow> Inr resp
       | Inr (KeMore seen' resp') \<Rightarrow> ke_loop parseIP offered (drop (4 + n) stream) (tot + 4 + int n) seen' resp')"
    by (subst ke_loop.simps) (simp add: ok Let_def t_def [symmetric] n_def [symmetric] r)
  show ?case
  proof (cases "ke_record parseIP offered seen resp0 (rc_Type r) (rc_Critical r) (rc_Body r)")
    case (Inl e)
    then show ?thesis using "1.prems" loop by simp
  next
    case (Inr res)
    show ?thesis
    proof (cases res)
      case (KeDone resp1)
      note d = ke_record_done [OF Inr [unfolded KeDone]]
      have "resp1 = resp" using "1.prems" loop Inr KeDone by simp
      moreover have "r = end_record" using d by (cases r) simp
      then have "stream = EncodeRecord end_record @ drop (4 + n) stream" using frame(2) by metis
      moreover note this
      moreover have "int (length stream) - int (length (drop (4 + n) stream)) = 4 + int n" using ok(4) by simp
      ultimately show ?thesis
        using d ok(3) unfolding ke_tail_def
        by (intro exI [of _ "[] :: Record list"] exI [of _ "drop (4 + n) stream"]) simp
    next
      case (KeMore seen' resp')
      note m = ke_record_more [OF Inr [unfolded KeMore]]
      have "ke_loop parseIP offered (drop (4 + n) stream) (tot + 4 + int n) seen' resp' = Inr resp"
        using "1.prems" loop Inr KeMore by simp
      from "1.IH" [OF ok(1,2) refl refl refl refl refl, folded t_def n_def, OF ok(3,4) Inr [folded r] KeMore this]
      obtain rs rest where tail: "ke_tail offered seen' resp' resp (tot + 4 + int n) (drop (4 + n) stream) rs rest"
        by blast
      note ih = tail [unfolded ke_tail_def]
      have "ke_tail offered seen resp0 resp tot stream (r # rs) rest"
        unfolding ke_tail_def
      proof (intro conjI)
        show "stream = concat (map EncodeRecord ((r # rs) @ [end_record])) @ rest" using frame(2) ih by simp
        show "list_all (ke_acceptable offered) (r # rs)" using m(1) ih by simp
        show "ke_Cookies resp = ke_Cookies resp0 @ of_type RecordNewCookie (r # rs)" using m(2) ih by simp
        show "ke_Cookies resp \<noteq> []" using ih by blast
        show "of_type RecordNextProtocol (r # rs) = (if RecordNextProtocol \<in> seen then [] else [PutUint16 0])"
          using m(1,3,5) ih by (auto simp: ke_acceptable_def)
        show "of_type RecordAeadNegotiation (r # rs) = (if RecordAeadNegotiation \<in> seen then [] else [PutUint16 (ke_AEAD resp)])"
          using m(4,6) ih by auto
        show "RecordAeadNegotiation \<in> seen \<longrightarrow> ke_AEAD resp = ke_AEAD resp0" using m(4,6,7) ih by metis
        show "ke_Port resp0 \<noteq> 0 \<longrightarrow> ke_Port resp \<noteq> 0" using m(8) ih by blast
        have "int (length (drop (4 + n) stream)) = int (length stream) - 4 - int n" using ok(4) by simp
        moreover have "tot + 4 + int n + int (length (drop (4 + n) stream)) - int (length rest) \<le> MaxKEMessageSize" using ih by blast
        ultimately show "tot + int (length stream) - int (length rest) \<le> MaxKEMessageSize" by linarith
      qed
      then show ?thesis by blast
    qed
  qed
qed

text \<open>C22: (\<open>ReadServerResponse\<close>) Whatever arrives, an accepted response is a well-formed NTS-KE message: the bytes
  read are framed records of at most 64 KiB ending with a critical empty End of Message; they select
  NTPv4 exactly once and exactly one algorithm, which was offered and is supported; the cookies returned
  are those sent, in order, at least one and each of a usable size; there is no error, warning or unknown
  critical record; and the port is not zero.\<close>
theorem ke_response_sound:
  assumes "ReadServerResponse parseIP stream offered = Inr resp"
  shows "ke_AEAD resp \<in> set offered \<and> Registry (ke_AEAD resp) \<noteq> None \<and> ke_Port resp \<noteq> 0 \<and>
    list_all (\<lambda>c. validCookieSize (int (length c))) (ke_Cookies resp) \<and>
    (\<exists>rs rest. ke_message offered rs resp stream rest)"
proof -
  from ke_loop_sound [OF assms [unfolded ReadServerResponse_def]]
  obtain rs rest where m: "ke_message offered rs resp stream rest" and p: "ke_Port resp \<noteq> 0"
    by (auto simp: ke_message_def ke_tail_def)
  then have acc: "list_all (ke_acceptable offered) rs" and c: "ke_Cookies resp = of_type RecordNewCookie rs"
    and a: "of_type RecordAeadNegotiation rs = [PutUint16 (ke_AEAD resp)]"
    by (simp_all add: ke_message_def)
  have "PutUint16 (ke_AEAD resp) \<in> set (of_type RecordAeadNegotiation rs)" by (simp add: a)
  then obtain r where r: "r \<in> set rs" "rc_Type r = RecordAeadNegotiation" "rc_Body r = PutUint16 (ke_AEAD resp)"
    by (auto simp: of_type_def)
  then have "ke_acceptable offered r" using acc by (simp add: list_all_iff)
  then have "ke_AEAD resp \<in> set offered" "Registry (ke_AEAD resp) \<noteq> None" using r by (simp_all add: ke_acceptable_def)
  moreover have "list_all (\<lambda>c. validCookieSize (int (length c))) (ke_Cookies resp)"
    using acc by (auto simp: c of_type_def list_all_iff ke_acceptable_def)
  ultimately show ?thesis using m p by blast
qed

definition sample_ke_stream :: bytes where
  "sample_ke_stream = concat (map EncodeRecord
     [\<lparr>rc_Critical = True, rc_Type = RecordNextProtocol, rc_Body = [0, 0]\<rparr>,
      \<lparr>rc_Critical = False, rc_Type = RecordAeadNegotiation, rc_Body = [0, 15]\<rparr>,
      \<lparr>rc_Critical = False, rc_Type = RecordNewCookie, rc_Body = [1, 2, 3]\<rparr>,
      \<lparr>rc_Critical = True, rc_Type = RecordEndOfMessage, rc_Body = []\<rparr>]) @ [9]"

lemma sample_ke_response:
  "ReadServerResponse (\<lambda>_. None) sample_ke_stream [15, 30]
   = Inr \<lparr>ke_AEAD = 15, ke_Cookies = [[1, 2, 3]], ke_ServerName = [], ke_Port = 123\<rparr>"
  by code_simp

lemma ke_response_sound_witness: "\<exists>rs rest. ke_message [15, 30] rs
    \<lparr>ke_AEAD = 15, ke_Cookies = [[1, 2, 3]], ke_ServerName = [], ke_Port = 123\<rparr> sample_ke_stream rest"
  using ke_response_sound [OF sample_ke_response] by simp

subsection \<open>The cookie jar\<close>

datatype CookieState = CookieUnused | CookieInFlight | CookieSpent

record ManagedCookie =
  mc_ID :: bytes
  mc_Bytes :: bytes
  mc_State :: CookieState

record CookieJar =
  cj_capacity :: int
  cj_target :: int
  cj_lowWatermark :: int
  cj_burstReserve :: int
  cj_cookies :: "ManagedCookie list"
  cj_reusedCount :: int
  cj_spentCount :: int
  cj_inFlightCount :: int

definition NewCookieJar :: CookieJar where
  "NewCookieJar = \<lparr>cj_capacity = 8, cj_target = 8, cj_lowWatermark = 2, cj_burstReserve = 1, cj_cookies = [],
                   cj_reusedCount = 0, cj_spentCount = 0, cj_inFlightCount = 0\<rparr>"

definition evictSpentLocked :: "CookieJar \<Rightarrow> CookieJar" where
  "evictSpentLocked cj = cj\<lparr>cj_cookies := filter (\<lambda>c. mc_State c \<noteq> CookieSpent) (cj_cookies cj)\<rparr>"

fun add_loop :: "(bytes \<Rightarrow> bytes) \<Rightarrow> bytes list \<Rightarrow> CookieJar \<Rightarrow> int \<Rightarrow> int \<times> CookieJar" where
  "add_loop sha [] cj added = (added, cj)"
| "add_loop sha (raw # raws) cj added =
     (if \<not> validCookieSize (int (length raw)) then add_loop sha raws cj added
      else
        let cj = (if cj_capacity cj \<le> int (length (cj_cookies cj)) then evictSpentLocked cj else cj)
        in if cj_capacity cj \<le> int (length (cj_cookies cj)) then (added, cj)
           else add_loop sha raws
                  (cj\<lparr>cj_cookies := cj_cookies cj @ [\<lparr>mc_ID = take 16 (sha raw), mc_Bytes = raw, mc_State = CookieUnused\<rparr>]\<rparr>)
                  (added + 1))"

definition AddCookies :: "(bytes \<Rightarrow> bytes) \<Rightarrow> CookieJar \<Rightarrow> bytes list \<Rightarrow> int \<times> CookieJar" where
  "AddCookies sha cj newCookies = add_loop sha newCookies cj 0"

definition count_state :: "CookieState \<Rightarrow> ManagedCookie list \<Rightarrow> int" where
  "count_state s cs = int (length (filter (\<lambda>c. mc_State c = s) cs))"

definition Counts :: "CookieJar \<Rightarrow> int \<times> int \<times> int" where
  "Counts cj = (count_state CookieUnused (cj_cookies cj), count_state CookieInFlight (cj_cookies cj),
                count_state CookieSpent (cj_cookies cj))"

definition NeedsReplenishment :: "CookieJar \<Rightarrow> bool" where
  "NeedsReplenishment cj \<longleftrightarrow> fst (Counts cj) \<le> cj_lowWatermark cj"

text \<open>The first unused cookie goes in flight; the caller gets that very entry.\<close>

fun take_unused :: "ManagedCookie list \<Rightarrow> (ManagedCookie \<times> ManagedCookie list) option" where
  "take_unused [] = None"
| "take_unused (c # cs) =
     (if mc_State c = CookieUnused then (let c' = c\<lparr>mc_State := CookieInFlight\<rparr> in Some (c', c' # cs))
      else (case take_unused cs of None \<Rightarrow> None | Some (d, cs') \<Rightarrow> Some (d, c # cs')))"

definition AcquireForRequest :: "CookieJar \<Rightarrow> bool \<Rightarrow> (go_error + ManagedCookie) \<times> CookieJar" where
  "AcquireForRequest cj isBurst =
    (case take_unused (cj_cookies cj) of
       None \<Rightarrow> (Inl ErrCookieStarvation, cj)
     | Some (selected, cs) \<Rightarrow>
       if isBurst \<and> count_state CookieUnused (cj_cookies cj) \<le> cj_burstReserve cj then (Inl ErrCookieStarvation, cj)
       else (Inr selected, cj\<lparr>cj_cookies := cs, cj_inFlightCount := cj_inFlightCount cj + 1\<rparr>))"

fun spend :: "bytes \<Rightarrow> ManagedCookie list \<Rightarrow> ManagedCookie list option" where
  "spend cookieID [] = None"
| "spend cookieID (c # cs) =
     (if mc_ID c = cookieID \<and> mc_State c = CookieInFlight then Some (c\<lparr>mc_State := CookieSpent\<rparr> # cs)
      else map_option ((#) c) (spend cookieID cs))"

definition MarkSpent :: "CookieJar \<Rightarrow> bytes \<Rightarrow> CookieJar" where
  "MarkSpent cj cookieID =
    (case spend cookieID (cj_cookies cj) of
       None \<Rightarrow> cj
     | Some cs \<Rightarrow> cj\<lparr>cj_cookies := cs, cj_inFlightCount := cj_inFlightCount cj - 1, cj_spentCount := cj_spentCount cj + 1\<rparr>)"

definition CalculatePlaceholderCount :: "CookieJar \<Rightarrow> int" where
  "CalculatePlaceholderCount cj =
    (let (unused, inFlight, _) = Counts cj; needed = cj_target cj - (unused + inFlight)
     in if needed < 0 then 0 else min needed MaxPlaceholderCount)"

subsection \<open>A cookie is handed out once\<close>

definition unused_bytes :: "ManagedCookie list \<Rightarrow> bytes multiset" where
  "unused_bytes cs = mset (map mc_Bytes (filter (\<lambda>c. mc_State c = CookieUnused) cs))"

text \<open>Runs of a jar, with the cookies received and the cookies handed out.\<close>

inductive jar_run :: "(bytes \<Rightarrow> bytes) \<Rightarrow> CookieJar \<Rightarrow> bytes multiset \<Rightarrow> bytes multiset \<Rightarrow> bool" for sha where
  new: "jar_run sha NewCookieJar {#} {#}"
| add: "jar_run sha cj A H \<Longrightarrow> jar_run sha (snd (AddCookies sha cj new)) (A + mset new) H"
| acquire: "jar_run sha cj A H \<Longrightarrow> AcquireForRequest cj isBurst = (Inr c, cj') \<Longrightarrow>
    jar_run sha cj' A (add_mset (mc_Bytes c) H)"
| spent: "jar_run sha cj A H \<Longrightarrow> jar_run sha (MarkSpent cj cookieID) A H"

definition jar_ok :: "CookieJar \<Rightarrow> bool" where
  "jar_ok cj \<longleftrightarrow> cj_capacity cj = 8 \<and> cj_target cj = 8 \<and> length (cj_cookies cj) \<le> 8
     \<and> cj_inFlightCount cj = count_state CookieInFlight (cj_cookies cj)
     \<and> list_all (\<lambda>c. validCookieSize (int (length (mc_Bytes c)))) (cj_cookies cj)"

lemma count_state_simps [simp]:
  "count_state s [] = 0" "count_state s (c # cs) = (if mc_State c = s then 1 else 0) + count_state s cs"
  "count_state s (cs @ ds) = count_state s cs + count_state s ds"
  by (simp_all add: count_state_def)

lemma unused_bytes_simps [simp]:
  "unused_bytes [] = {#}"
  "unused_bytes (c # cs) = (if mc_State c = CookieUnused then add_mset (mc_Bytes c) (unused_bytes cs) else unused_bytes cs)"
  "unused_bytes (cs @ ds) = unused_bytes cs + unused_bytes ds"
  by (simp_all add: unused_bytes_def)

lemma evict_facts:
  "jar_ok cj \<Longrightarrow> jar_ok (evictSpentLocked cj)"
  "unused_bytes (cj_cookies (evictSpentLocked cj)) = unused_bytes (cj_cookies cj)"
proof -
  have c: "count_state CookieInFlight (filter (\<lambda>c. mc_State c \<noteq> CookieSpent) cs) = count_state CookieInFlight cs" for cs
    by (induction cs) auto
  show "jar_ok cj \<Longrightarrow> jar_ok (evictSpentLocked cj)"
    by (auto simp: jar_ok_def evictSpentLocked_def c list_all_iff intro: order_trans [OF length_filter_le])
  have "unused_bytes (filter (\<lambda>c. mc_State c \<noteq> CookieSpent) cs) = unused_bytes cs" for cs by (induction cs) auto
  then show "unused_bytes (cj_cookies (evictSpentLocked cj)) = unused_bytes (cj_cookies cj)"
    by (simp add: evictSpentLocked_def)
qed

lemma add_loop_facts:
  "jar_ok cj \<Longrightarrow> jar_ok (snd (add_loop sha raws cj n)) \<and>
   unused_bytes (cj_cookies (snd (add_loop sha raws cj n))) \<subseteq># unused_bytes (cj_cookies cj) + mset raws"
proof (induction raws arbitrary: cj n)
  case (Cons raw raws)
  define cj' where "cj' = (if cj_capacity cj \<le> int (length (cj_cookies cj)) then evictSpentLocked cj else cj)"
  have cj': "jar_ok cj'" "unused_bytes (cj_cookies cj') = unused_bytes (cj_cookies cj)"
    using Cons.prems evict_facts [of cj] by (simp_all add: cj'_def)
  define cj'' where "cj'' = cj'\<lparr>cj_cookies := cj_cookies cj' @ [\<lparr>mc_ID = take 16 (sha raw), mc_Bytes = raw, mc_State = CookieUnused\<rparr>]\<rparr>"
  consider (bad) "\<not> validCookieSize (int (length raw))" | (full) "validCookieSize (int (length raw))" "cj_capacity cj' \<le> int (length (cj_cookies cj'))"
    | (ok) "validCookieSize (int (length raw))" "\<not> cj_capacity cj' \<le> int (length (cj_cookies cj'))" by blast
  then show ?case
  proof cases
    case bad
    then have "add_loop sha (raw # raws) cj n = add_loop sha raws cj n" by simp
    moreover have "unused_bytes (cj_cookies cj) + mset raws \<subseteq># unused_bytes (cj_cookies cj) + mset (raw # raws)"
      by (simp add: subseteq_mset_def)
    ultimately show ?thesis using Cons.IH [OF Cons.prems, of n] by (auto intro: subset_mset.order_trans)
  next
    case full
    then have "add_loop sha (raw # raws) cj n = (n, cj')" by (simp add: cj'_def [symmetric])
    then show ?thesis using cj' by (simp only: snd_conv) (simp add: subseteq_mset_def)
  next
    case ok
    then have a: "add_loop sha (raw # raws) cj n = add_loop sha raws cj'' (n + 1)" by (simp add: cj'_def [symmetric] cj''_def)
    have "jar_ok cj''" using cj'(1) ok by (auto simp: jar_ok_def cj''_def)
    moreover have "unused_bytes (cj_cookies cj'') = add_mset raw (unused_bytes (cj_cookies cj))" by (simp add: cj''_def cj'(2))
    ultimately show ?thesis unfolding a using Cons.IH [of cj'' "n + 1"] by (simp add: union_assoc)
  qed
qed simp

lemma take_unused_facts:
  "take_unused cs = Some (c, cs') \<Longrightarrow> unused_bytes cs = add_mset (mc_Bytes c) (unused_bytes cs') \<and> length cs' = length cs
   \<and> count_state CookieInFlight cs' = count_state CookieInFlight cs + 1 \<and> mc_State c = CookieInFlight
   \<and> map mc_Bytes cs' = map mc_Bytes cs \<and> c \<in> set cs'"
  by (induction cs arbitrary: cs') (auto simp: Let_def split: if_splits option.splits)

lemma spend_facts:
  "spend i cs = Some cs' \<Longrightarrow> unused_bytes cs' = unused_bytes cs \<and> length cs' = length cs
   \<and> count_state CookieInFlight cs' = count_state CookieInFlight cs - 1 \<and> map mc_Bytes cs' = map mc_Bytes cs"
  by (induction cs arbitrary: cs') (auto split: if_splits)

lemma list_all_bytes: "map mc_Bytes cs' = map mc_Bytes cs \<Longrightarrow>
    list_all (\<lambda>c. P (mc_Bytes c)) cs' = list_all (\<lambda>c. P (mc_Bytes c)) cs"
  by (metis list.pred_map comp_def list.pred_mono_strong)

lemma jar_run_inv: "jar_run sha cj A H \<Longrightarrow> jar_ok cj \<and> H + unused_bytes (cj_cookies cj) \<subseteq># A"
proof (induction rule: jar_run.induct)
  case new
  then show ?case by (simp add: NewCookieJar_def jar_ok_def)
next
  case (add cj A H new)
  from add_loop_facts [of cj sha new 0] add.IH
  have "jar_ok (snd (AddCookies sha cj new))"
    "unused_bytes (cj_cookies (snd (AddCookies sha cj new))) \<subseteq># unused_bytes (cj_cookies cj) + mset new"
    by (simp_all add: AddCookies_def)
  then show ?case using add.IH
    by (metis (no_types, lifting) subset_mset.add_mono subset_mset.order_refl subset_mset.order_trans add.assoc)
next
  case (acquire cj A H isBurst c cj')
  then obtain cs where cs: "take_unused (cj_cookies cj) = Some (c, cs)"
    "cj' = cj\<lparr>cj_cookies := cs, cj_inFlightCount := cj_inFlightCount cj + 1\<rparr>"
    by (auto simp: AcquireForRequest_def split: option.splits if_splits)
  note f = take_unused_facts [OF cs(1)]
  have "jar_ok cj'" using acquire.IH f list_all_bytes [of cs "cj_cookies cj" "\<lambda>b. validCookieSize (int (length b))"]
    by (auto simp: jar_ok_def cs(2))
  then show ?case using acquire.IH f by (simp add: cs(2))
next
  case (spent cj A H cookieID)
  show ?case
  proof (cases "spend cookieID (cj_cookies cj)")
    case None
    then show ?thesis using spent.IH by (simp add: MarkSpent_def)
  next
    case (Some cs)
    note f = spend_facts [OF Some]
    have "jar_ok (MarkSpent cj cookieID)"
      using spent.IH f list_all_bytes [of cs "cj_cookies cj" "\<lambda>b. validCookieSize (int (length b))"]
      by (auto simp: jar_ok_def MarkSpent_def Some)
    then show ?thesis using spent.IH f by (simp add: MarkSpent_def Some)
  qed
qed

text \<open>C23: (\<open>AddCookies\<close>, \<open>AcquireForRequest\<close>, \<open>MarkSpent\<close>) In every run of the jar a cookie is handed out at most as
  often as it was received, so no request reuses another's cookie; the jar never holds more than eight
  cookies, its in-flight count is the number of entries in flight, and every entry fits a request.\<close>
theorem cookie_single_use:
  assumes "jar_run sha cj received handed"
  shows "handed \<subseteq># received \<and> jar_ok cj"
  using jar_run_inv [OF assms] by (auto intro: subset_mset.order_trans [OF mset_subset_eq_add_left])

lemma cookie_single_use_witness:
  "\<exists>cj. jar_run (\<lambda>_. []) cj {#[1], [2]#} {#[1]#} \<and> {#[1]#} \<subseteq># ({#[1], [2]#} :: bytes multiset)"
proof -
  have "AcquireForRequest (snd (AddCookies (\<lambda>_. []) NewCookieJar [[1], [2]])) False
    = (Inr \<lparr>mc_ID = [], mc_Bytes = [1], mc_State = CookieInFlight\<rparr>,
       (snd (AcquireForRequest (snd (AddCookies (\<lambda>_. []) NewCookieJar [[1], [2]])) False)))"
    by code_simp
  from jar_run.acquire [OF jar_run.add [OF jar_run.new] this]
  have run: "jar_run (\<lambda>_. []) (snd (AcquireForRequest (snd (AddCookies (\<lambda>_. []) NewCookieJar [[1], [2]])) False))
      {#[1], [2]#} {#[1]#}" by simp
  from cookie_single_use [OF this] run show ?thesis by blast
qed

text \<open>Placeholders never ask for more than the inventory target leaves room for.\<close>

lemma placeholders_fit:
  assumes "jar_ok cj"
  shows "0 \<le> CalculatePlaceholderCount cj" "CalculatePlaceholderCount cj \<le> 7"
    and "fst (Counts cj) + fst (snd (Counts cj)) + CalculatePlaceholderCount cj \<le> max 8 (fst (Counts cj) + fst (snd (Counts cj)))"
  using assms by (auto simp: CalculatePlaceholderCount_def Counts_def jar_ok_def MaxPlaceholderCount_def Let_def)

end
