(* ===== verification/Siv.thy ===== *)
theory Siv
  imports Bytes
begin

text \<open>
  Authenticated encryption (package \<open>internal/siv\<close>): CMAC and AES-SIV-CMAC (RFC 5297),
  POLYVAL and AES-GCM-SIV (RFC 8452). AES itself is the standard library's: the parameter
  \<open>aes\<close> maps a key and a 128-bit block to a block.
\<close>

type_synonym u128 = "128 word"
type_synonym block_cipher = "bytes \<Rightarrow> u128 \<Rightarrow> u128"

subsection \<open>Blocks\<close>

definition PutUint128 :: "u128 \<Rightarrow> bytes" where "PutUint128 w = be_enc 16 (uint w)"
definition Uint128 :: "bytes \<Rightarrow> u128" where "Uint128 bs = word_of_int (be_dec bs)"

interpretation be128: field_codec PutUint128 Uint128 16
  by unfold_locales (simp_all add: PutUint128_def Uint128_def word_be_round)

text \<open>\<open>cipher.Block.Encrypt\<close> on the first 16 bytes.\<close>

definition Encrypt :: "block_cipher \<Rightarrow> bytes \<Rightarrow> bytes \<Rightarrow> bytes" where
  "Encrypt aes key src = PutUint128 (aes key (Uint128 (take 16 src)))"

lemma length_Encrypt [simp]: "length (Encrypt aes key src) = 16"
  by (simp add: Encrypt_def)

text \<open>\<open>xorBytes(dst[off:], src)\<close> for a source that fits.\<close>

definition xorBytes :: "bytes \<Rightarrow> nat \<Rightarrow> bytes \<Rightarrow> bytes" where
  "xorBytes dst off src = take off dst @ map2 (XOR) (drop off dst) src @ drop (off + length src) dst"

definition xor_bytes :: "bytes \<Rightarrow> bytes \<Rightarrow> bytes" where
  "xor_bytes a b = map2 (XOR) a b"

definition zero_block :: bytes where "zero_block = replicate 16 0"

subsection \<open>CMAC\<close>

text \<open>\<open>shiftLeft\<close>: the loop from the last byte to the first; the shifted bytes and the carry out.\<close>

fun shift_loop :: "bytes \<Rightarrow> u8 \<Rightarrow> bytes \<Rightarrow> bytes \<times> u8" where
  "shift_loop [] carry out = (out, carry)"
| "shift_loop (b # bs) carry out = shift_loop bs (drop_bit 7 b) ((push_bit 1 b OR carry) # out)"

definition shiftLeft :: "bytes \<Rightarrow> bytes \<times> u8" where
  "shiftLeft src = shift_loop (rev src) 0 []"

definition poly128 :: u8 where "poly128 = 0x87"

definition double_block :: "bytes \<Rightarrow> bytes" where
  "double_block src =
    (let (dst, msb) = shiftLeft src
     in dst[15 := dst ! 15 XOR (if msb = 1 then poly128 else 0)])"

record cmac =
  cm_key :: bytes
  cm_k1 :: bytes
  cm_k2 :: bytes
  cm_buf :: bytes
  cm_off :: nat

definition newCMAC :: "block_cipher \<Rightarrow> bytes \<Rightarrow> cmac" where
  "newCMAC aes key =
    (let l = Encrypt aes key zero_block; k1 = double_block l
     in \<lparr>cm_key = key, cm_k1 = k1, cm_k2 = double_block k1, cm_buf = zero_block, cm_off = 0\<rparr>)"

definition cmac_Reset :: "cmac \<Rightarrow> cmac" where
  "cmac_Reset m = m\<lparr>cm_buf := zero_block, cm_off := 0\<rparr>"

text \<open>The block loop of \<open>Write\<close>, for an empty buffer position; the rest is at most one block.\<close>

function write_blocks :: "block_cipher \<Rightarrow> cmac \<Rightarrow> bytes \<Rightarrow> cmac \<times> bytes" where
  "write_blocks aes m p =
    (if 16 < length p
     then write_blocks aes (m\<lparr>cm_buf := Encrypt aes (cm_key m) (xorBytes (cm_buf m) 0 (take 16 p))\<rparr>) (drop 16 p)
     else (m, p))"
  by pat_completeness auto
termination
  by (relation "measure (\<lambda>(aes, m, p). length p)") auto

declare write_blocks.simps [simp del]

definition write_tail :: "block_cipher \<Rightarrow> cmac \<Rightarrow> bytes \<Rightarrow> cmac" where
  "write_tail aes m p =
    (let (m', rest) = write_blocks aes m p
     in if rest = [] then m'
        else m'\<lparr>cm_buf := xorBytes (cm_buf m') (cm_off m') rest, cm_off := cm_off m' + length rest\<rparr>)"

definition cmac_Write :: "block_cipher \<Rightarrow> cmac \<Rightarrow> bytes \<Rightarrow> cmac" where
  "cmac_Write aes m p =
    (if 0 < cm_off m
     then
       let needed = 16 - cm_off m
       in if needed < length p
          then write_tail aes
                 (m\<lparr>cm_buf := Encrypt aes (cm_key m) (xorBytes (cm_buf m) (cm_off m) (take needed p)), cm_off := 0\<rparr>)
                 (drop needed p)
          else m\<lparr>cm_buf := xorBytes (cm_buf m) (cm_off m) p, cm_off := cm_off m + length p\<rparr>
     else write_tail aes m p)"

definition cmac_Sum :: "block_cipher \<Rightarrow> cmac \<Rightarrow> bytes" where
  "cmac_Sum aes m =
    (let block =
       (if cm_off m < 16
        then (let b = xorBytes (cm_k2 m) 0 (cm_buf m) in b[cm_off m := b ! cm_off m XOR 0x80])
        else xorBytes (cm_k1 m) 0 (cm_buf m))
     in Encrypt aes (cm_key m) block)"

subsection \<open>AES-SIV-CMAC\<close>

definition s2v :: "block_cipher \<Rightarrow> bytes \<Rightarrow> bytes \<Rightarrow> bytes \<Rightarrow> cmac \<Rightarrow> bytes" where
  "s2v aes additionalData nonce plaintext mac =
    (let b1 = cmac_Sum aes (cmac_Write aes mac zero_block);
         mac = cmac_Reset mac;
         b1 = (if additionalData \<noteq> [] \<or> nonce \<noteq> []
               then
                 let b0 = cmac_Sum aes (cmac_Write aes mac additionalData);
                     b1 = xor_bytes (double_block b1) b0
                 in if nonce \<noteq> []
                    then xor_bytes (double_block b1) (cmac_Sum aes (cmac_Write aes mac nonce))
                    else b1
               else b1)
     in if 16 \<le> length plaintext
        then
          let n = length plaintext - 16;
              b0 = xor_bytes (drop n plaintext) b1
          in cmac_Sum aes (cmac_Write aes (cmac_Write aes mac (take n plaintext)) b0)
        else
          let b0 = plaintext @ [0x80] @ replicate (15 - length plaintext) 0;
              b0 = xor_bytes b0 (double_block b1)
          in cmac_Sum aes (cmac_Write aes mac b0))"

definition newIV :: "bytes \<Rightarrow> bytes" where
  "newIV v = v[8 := v ! 8 AND 0x7f, 12 := v ! 12 AND 0x7f]"

text \<open>The standard library's CTR mode: the big-endian 128-bit counter, one block per 16 bytes.\<close>

definition ctr_keystream :: "block_cipher \<Rightarrow> bytes \<Rightarrow> bytes \<Rightarrow> nat \<Rightarrow> bytes" where
  "ctr_keystream aes key iv n =
    take n (concat (map (\<lambda>i. PutUint128 (aes key (Uint128 iv + of_nat i))) [0..<(n + 15) div 16]))"

definition XORKeyStream :: "block_cipher \<Rightarrow> bytes \<Rightarrow> bytes \<Rightarrow> bytes \<Rightarrow> bytes" where
  "XORKeyStream aes key iv src = xor_bytes src (ctr_keystream aes key iv (length src))"

record aesSivCMAC =
  sc_macKey :: bytes
  sc_cryptKey :: bytes

definition NewCMAC :: "bytes \<Rightarrow> go_error + aesSivCMAC" where
  "NewCMAC key =
    (let k = length key
     in if k \<noteq> 32 \<and> k \<noteq> 48 \<and> k \<noteq> 64 then Inl ErrInvalidKeySize
        else Inr \<lparr>sc_macKey = take (k div 2) key, sc_cryptKey = drop (k div 2) key\<rparr>)"

definition cmac_seal :: "block_cipher \<Rightarrow> aesSivCMAC \<Rightarrow> bytes \<Rightarrow> bytes \<Rightarrow> bytes \<Rightarrow> bytes" where
  "cmac_seal aes s nonce plaintext additionalData =
    (let v = s2v aes additionalData nonce plaintext (newCMAC aes (sc_macKey s))
     in v @ XORKeyStream aes (sc_cryptKey s) (newIV v) plaintext)"

definition cmac_open :: "block_cipher \<Rightarrow> aesSivCMAC \<Rightarrow> bytes \<Rightarrow> bytes \<Rightarrow> bytes \<Rightarrow> go_error + bytes" where
  "cmac_open aes s nonce ciphertext additionalData =
    (if length ciphertext < 16 then Inl (Err ''siv: message authentication failed'')
     else
       let tag = take 16 ciphertext;
           plaintext = XORKeyStream aes (sc_cryptKey s) (newIV tag) (drop 16 ciphertext);
           v = s2v aes additionalData nonce plaintext (newCMAC aes (sc_macKey s))
       in if v \<noteq> tag then Inl (Err ''siv: message authentication failed'') else Inr plaintext)"

text \<open>\<open>Seal\<close> and \<open>Open\<close> panic on a nonce of another length.\<close>

definition SivCMAC_Seal :: "block_cipher \<Rightarrow> aesSivCMAC \<Rightarrow> bytes \<Rightarrow> bytes \<Rightarrow> bytes \<Rightarrow> bytes outcome" where
  "SivCMAC_Seal aes s nonce plaintext additionalData =
    (if length nonce \<noteq> 0 \<and> length nonce \<noteq> 16 then Panic else Ret (cmac_seal aes s nonce plaintext additionalData))"

definition SivCMAC_Open :: "block_cipher \<Rightarrow> aesSivCMAC \<Rightarrow> bytes \<Rightarrow> bytes \<Rightarrow> bytes \<Rightarrow> (go_error + bytes) outcome" where
  "SivCMAC_Open aes s nonce ciphertext additionalData =
    (if length nonce \<noteq> 0 \<and> length nonce \<noteq> 16 then Panic else Ret (cmac_open aes s nonce ciphertext additionalData))"

subsection \<open>Deterministic authenticated encryption\<close>

text \<open>
  The contract of an AEAD whose tag is computed from the plaintext: sealing adds a tag, and a
  ciphertext opens to a plaintext exactly when it is the sealing of that plaintext. So what is
  sealed opens, and any change of ciphertext, nonce or associated data that opens at all
  has to be the sealing of what it opens to.
\<close>

locale siv_aead =
  fixes seal :: "bytes \<Rightarrow> bytes \<Rightarrow> bytes \<Rightarrow> bytes" and "open" :: "bytes \<Rightarrow> bytes \<Rightarrow> bytes \<Rightarrow> go_error + bytes"
  assumes length_seal: "length (seal n p a) = length p + 16"
    and open_iff: "open n c a = Inr p \<longleftrightarrow> c = seal n p a"
begin

lemma open_seal [simp]: "open n (seal n p a) a = Inr p"
  by (simp add: open_iff)

lemma seal_inj: "seal n p a = seal n p' a \<longleftrightarrow> p = p'"
  by (metis open_seal sum.inject(2))

lemma open_rejects: "(\<nexists>p. c = seal n p a) \<Longrightarrow> \<exists>e. open n c a = Inl e"
  by (cases "open n c a") (auto simp: open_iff)

lemma open_short: "length c < 16 \<Longrightarrow> \<exists>e. open n c a = Inl e"
  by (rule open_rejects) (auto simp: length_seal)

end

lemma length_xor_bytes [simp]: "length (xor_bytes a b) = min (length a) (length b)"
  by (simp add: xor_bytes_def)

lemma xor_bytes_cancel: "length a \<le> length k \<Longrightarrow> xor_bytes (xor_bytes a k) k = a"
  by (rule nth_equalityI) (auto simp: xor_bytes_def xor.assoc)

lemma length_ctr_keystream [simp]: "length (ctr_keystream aes key iv n) = n"
proof -
  have "n \<le> 16 * ((n + 15) div 16)" by presburger
  then show ?thesis by (simp add: ctr_keystream_def length_concat_const [where n = 16])
qed

lemma XORKeyStream_twice [simp]: "XORKeyStream aes key iv (XORKeyStream aes key iv p) = p"
  by (simp add: XORKeyStream_def xor_bytes_cancel)

lemma length_XORKeyStream [simp]: "length (XORKeyStream aes key iv p) = length p"
  by (simp add: XORKeyStream_def)

lemma length_cmac_Sum [simp]: "length (cmac_Sum aes m) = 16"
  by (simp add: cmac_Sum_def Let_def)

lemma length_s2v [simp]: "length (s2v aes a n p m) = 16"
  by (simp add: s2v_def Let_def)

interpretation cmac_siv: siv_aead "cmac_seal aes s" "cmac_open aes s"
proof
  show "length (cmac_seal aes s n p a) = length p + 16" for n p a
    by (simp add: cmac_seal_def Let_def)
  show "cmac_open aes s n c a = Inr p \<longleftrightarrow> c = cmac_seal aes s n p a" for n c a p
  proof
    assume "cmac_open aes s n c a = Inr p"
    then have o: "p = XORKeyStream aes (sc_cryptKey s) (newIV (take 16 c)) (drop 16 c)"
      "s2v aes a n p (newCMAC aes (sc_macKey s)) = take 16 c"
      by (auto simp: cmac_open_def Let_def split: if_splits)
    have "XORKeyStream aes (sc_cryptKey s) (newIV (take 16 c)) p = drop 16 c" by (simp add: o(1))
    then show "c = cmac_seal aes s n p a" by (simp add: cmac_seal_def o(2))
  next
    assume "c = cmac_seal aes s n p a"
    then show "cmac_open aes s n c a = Inr p" by (simp add: cmac_open_def cmac_seal_def Let_def)
  qed
qed

subsection \<open>The streaming CMAC\<close>

text \<open>Reference: one byte at a time, a full buffer encrypted when the next byte comes.\<close>

definition absorb :: "block_cipher \<Rightarrow> cmac \<Rightarrow> u8 \<Rightarrow> cmac" where
  "absorb aes m b =
    (if cm_off m = 16
     then m\<lparr>cm_buf := (Encrypt aes (cm_key m) (cm_buf m))[0 := Encrypt aes (cm_key m) (cm_buf m) ! 0 XOR b], cm_off := 1\<rparr>
     else m\<lparr>cm_buf := (cm_buf m)[cm_off m := cm_buf m ! cm_off m XOR b], cm_off := cm_off m + 1\<rparr>)"

definition cmac_ok :: "cmac \<Rightarrow> bool" where
  "cmac_ok m \<longleftrightarrow> length (cm_buf m) = 16 \<and> cm_off m \<le> 16"

lemma length_xorBytes [simp]: "off + length src \<le> length dst \<Longrightarrow> length (xorBytes dst off src) = length dst"
  by (simp add: xorBytes_def)

lemma xorBytes_nth:
  "off + length src \<le> length dst \<Longrightarrow> i < length dst \<Longrightarrow>
   xorBytes dst off src ! i = (if off \<le> i \<and> i < off + length src then dst ! i XOR src ! (i - off) else dst ! i)"
  by (auto simp: xorBytes_def nth_append min_def not_less intro!: arg_cong2 [where f = "(!)"])

lemma xorBytes_Nil [simp]: "xorBytes dst off [] = dst"
  by (simp add: xorBytes_def)

lemma xorBytes_Cons:
  "off + length (b # p) \<le> length dst \<Longrightarrow> xorBytes (dst[off := dst ! off XOR b]) (off + 1) p = xorBytes dst off (b # p)"
  by (rule nth_equalityI) (auto simp: xorBytes_nth nth_list_update nth_Cons')

lemma absorb_fill:
  "length (cm_buf m) = 16 \<Longrightarrow> cm_off m + length p \<le> 16 \<Longrightarrow>
   foldl (absorb aes) m p = m\<lparr>cm_buf := xorBytes (cm_buf m) (cm_off m) p, cm_off := cm_off m + length p\<rparr>"
proof (induction p arbitrary: m)
  case (Cons b p)
  have a: "absorb aes m b = m\<lparr>cm_buf := (cm_buf m)[cm_off m := cm_buf m ! cm_off m XOR b], cm_off := cm_off m + 1\<rparr>"
    using Cons.prems by (simp add: absorb_def)
  show ?case
    using Cons.IH [of "absorb aes m b"] Cons.prems xorBytes_Cons [of "cm_off m" b p "cm_buf m"] by (simp add: a)
qed simp

lemma absorb_flush:
  assumes "cm_off m = 16" "q \<noteq> []"
  shows "foldl (absorb aes) m q = foldl (absorb aes) (m\<lparr>cm_buf := Encrypt aes (cm_key m) (cm_buf m), cm_off := 0\<rparr>) q"
  using assms by (cases q) (simp_all add: absorb_def)

lemma write_tail_absorbs:
  assumes "length (cm_buf m) = 16" "cm_off m = 0"
  shows "write_tail aes m p = foldl (absorb aes) m p"
  using assms
proof (induction aes m p rule: write_blocks.induct)
  case (1 aes m p)
  show ?case
  proof (cases "16 < length p")
    case True
    define m' where "m' = m\<lparr>cm_buf := Encrypt aes (cm_key m) (xorBytes (cm_buf m) 0 (take 16 p))\<rparr>"
    have "write_tail aes m p = write_tail aes m' (drop 16 p)"
      unfolding write_tail_def by (subst write_blocks.simps) (simp add: True m'_def)
    also have "\<dots> = foldl (absorb aes) m' (drop 16 p)"
      using "1.IH" [OF True] "1.prems" by (simp add: m'_def)
    also have "m' = m'\<lparr>cm_off := 0\<rparr>" using "1.prems" by (cases m) (simp add: m'_def)
    also have "foldl (absorb aes) (m'\<lparr>cm_off := 0\<rparr>) (drop 16 p) = foldl (absorb aes) (foldl (absorb aes) m (take 16 p)) (drop 16 p)"
      using absorb_fill [of m "take 16 p" aes] True "1.prems"
        absorb_flush [of "m\<lparr>cm_buf := xorBytes (cm_buf m) 0 (take 16 p), cm_off := 16\<rparr>" "drop 16 p" aes]
      by (simp add: m'_def)
    finally show ?thesis by (simp add: foldl_append [symmetric])
  next
    case False
    then have "write_blocks aes m p = (m, p)" by (subst write_blocks.simps) simp
    then show ?thesis using False "1.prems" absorb_fill [of m p aes] by (simp add: write_tail_def)
  qed
qed

lemma cmac_Write_absorbs:
  assumes "cmac_ok m"
  shows "cmac_Write aes m p = foldl (absorb aes) m p"
proof -
  have ok: "length (cm_buf m) = 16" "cm_off m \<le> 16" using assms by (simp_all add: cmac_ok_def)
  define needed where "needed = 16 - cm_off m"
  consider (zero) "cm_off m = 0" | (fits) "0 < cm_off m" "length p \<le> needed" | (more) "0 < cm_off m" "needed < length p"
    by linarith
  then show ?thesis
  proof cases
    case zero
    then show ?thesis using write_tail_absorbs [of m aes p] ok by (simp add: cmac_Write_def)
  next
    case fits
    then show ?thesis using absorb_fill [of m p aes] ok by (simp add: cmac_Write_def needed_def Let_def)
  next
    case more
    define m' where "m' = m\<lparr>cm_buf := xorBytes (cm_buf m) (cm_off m) (take needed p), cm_off := 16\<rparr>"
    have "foldl (absorb aes) m (take needed p) = m'"
      using absorb_fill [of m "take needed p" aes] ok more by (simp add: m'_def needed_def)
    then have "foldl (absorb aes) m p = foldl (absorb aes) m' (drop needed p)"
      by (metis append_take_drop_id foldl_append)
    also have "\<dots> = write_tail aes (m'\<lparr>cm_buf := Encrypt aes (cm_key m) (cm_buf m'), cm_off := 0\<rparr>) (drop needed p)"
      using absorb_flush [of m' "drop needed p" aes] more by (subst write_tail_absorbs) (simp_all add: m'_def)
    also have "\<dots> = cmac_Write aes m p" using more by (simp add: cmac_Write_def needed_def Let_def m'_def)
    finally show ?thesis ..
  qed
qed

lemma absorb_ok: "cmac_ok m \<Longrightarrow> cmac_ok (absorb aes m b)"
  by (auto simp: cmac_ok_def absorb_def)

lemma absorbs_ok: "cmac_ok m \<Longrightarrow> cmac_ok (foldl (absorb aes) m p)"
  by (induction p arbitrary: m) (auto simp: absorb_ok)

lemma cmac_ok_new: "cmac_ok (newCMAC aes key)" "cmac_ok (cmac_Reset m)"
  by (simp_all add: cmac_ok_def newCMAC_def cmac_Reset_def zero_block_def Let_def)

lemma cmac_Write_ok: "cmac_ok m \<Longrightarrow> cmac_ok (cmac_Write aes m p)"
  by (simp add: cmac_Write_absorbs absorbs_ok)

lemma cmac_Write_append:
  "cmac_ok m \<Longrightarrow> cmac_Write aes (cmac_Write aes m p) q = cmac_Write aes m (p @ q)"
  by (simp add: cmac_Write_absorbs absorbs_ok)

subsection \<open>Bytes as bits\<close>

lemma be_dec_append: "be_dec (xs @ ys) = be_dec xs * 256 ^ length ys + be_dec ys"
  using be_dec_acc [of "be_dec xs" ys] by (simp add: be_dec_def)

lemma bit_be_dec:
  "bit (be_dec bs) k \<longleftrightarrow> k < 8 * length bs \<and> bit (bs ! (length bs - 1 - k div 8)) (k mod 8)"
proof (induction bs arbitrary: k)
  case (Cons b bs)
  define n where "n = 8 * length bs"
  have p: "256 ^ length bs = (2 :: int) ^ n" by (simp add: n_def power_mult)
  have lt: "be_dec bs < 2 ^ n" "0 \<le> be_dec bs" using be_dec_less [of bs] be_dec_nonneg [of bs] by (simp_all add: p)
  have t: "take_bit n (be_dec (b # bs)) = be_dec bs" "drop_bit n (be_dec (b # bs)) = uint b"
    using lt by (simp_all add: p take_bit_eq_mod drop_bit_eq_div)
  have "bit (be_dec (b # bs)) k \<longleftrightarrow> (if k < n then bit (be_dec bs) k else bit (uint b) (k - n))"
    unfolding t [symmetric] by (simp add: bit_take_bit_iff bit_drop_bit_eq del: be_dec_simps)
  also have "\<dots> \<longleftrightarrow> k < 8 * length (b # bs) \<and> bit ((b # bs) ! (length (b # bs) - 1 - k div 8)) (k mod 8)"
  proof (cases "k < n")
    case True
    then have "k div 8 < length bs" by (simp add: n_def div_less_iff_less_mult)
    then have "length (b # bs) - 1 - k div 8 = Suc (length bs - 1 - k div 8)" by simp
    then show ?thesis using True Cons.IH [of k] by (simp add: n_def)
  next
    case False
    then obtain j where j: "k = 8 * length bs + j" by (auto simp: n_def not_less le_iff_add)
    show ?thesis
    proof (cases "j < 8")
      case True
      then show ?thesis by (simp add: j n_def bit_uint_iff)
    next
      case False
      then show ?thesis by (simp add: j n_def bit_uint_iff)
    qed
  qed
  finally show ?case .
qed simp

lemma bit_Uint128:
  "length bs = 16 \<Longrightarrow> bit (Uint128 bs) k \<longleftrightarrow> k < 128 \<and> bit (bs ! (15 - k div 8)) (k mod 8)"
  by (simp add: Uint128_def bit_word_of_int_iff bit_be_dec)

lemma Uint128_xor:
  "length a = 16 \<Longrightarrow> length b = 16 \<Longrightarrow> Uint128 (xor_bytes a b) = Uint128 a XOR Uint128 b"
  by (rule bit_word_eqI) (simp add: bit_Uint128 bit_xor_iff xor_bytes_def)

lemma Uint128_zero: "Uint128 zero_block = 0"
  by (rule bit_word_eqI) (simp add: bit_Uint128 zero_block_def)

lemma xorBytes_full: "length a = 16 \<Longrightarrow> length b = 16 \<Longrightarrow> xorBytes a 0 b = xor_bytes a b"
  by (simp add: xorBytes_def xor_bytes_def)

text \<open>Shifting a byte string is doubling its value, the carry going out at the top.\<close>

lemma shift_step:
  fixes b c :: u8
  assumes "uint c \<le> 1"
  shows "uint (push_bit 1 b OR c) + 256 * uint (drop_bit 7 b) = 2 * uint b + uint c" "uint (drop_bit 7 b) \<le> 1"
proof -
  have b: "uint b < 256" "0 \<le> uint b" using unsigned_less [of b, where ?'a = int] by simp_all
  have d: "uint (drop_bit 7 b) = uint b div 128" by (simp add: drop_bit_eq_div uint_div_distrib)
  then show "uint (drop_bit 7 b) \<le> 1" using b by simp
  have c: "c = 0 \<or> c = 1" using assms by (auto simp: word_eq_iff_unsigned [where ?'a = int])
      (metis uint_nonnegative int_one_le_iff_zero_less order_antisym_conv zero_le_imp_eq_int not_less)
  have "push_bit 1 b OR c = push_bit 1 b + c"
    by (rule disjunctive_add [symmetric]) (use c in \<open>auto simp: bit_push_bit_iff bit_1_iff simp del: push_bit_Suc push_bit_numeral\<close>)
  moreover have "push_bit 1 b = b * 2" by (simp add: push_bit_eq_mult)
  moreover have "uint (b * 2 + c) = (2 * uint b + uint c) mod 256"
    by (simp add: uint_word_ariths mod_simps mult.commute)
  ultimately have "uint (push_bit 1 b OR c) = (2 * uint b + uint c) mod 256" by simp
  moreover have "(2 * uint b + uint c) div 256 = uint b div 128" using c b by auto
  ultimately show "uint (push_bit 1 b OR c) + 256 * uint (drop_bit 7 b) = 2 * uint b + uint c"
    using div_mult_mod_eq [of "2 * uint b + uint c" 256] d by simp
qed

lemma shift_loop_value:
  assumes "uint c \<le> 1"
  shows "\<exists>ds c'. shift_loop bs c out = (ds @ out, c') \<and> length ds = length bs \<and> uint c' \<le> 1 \<and>
    be_dec ds + uint c' * 256 ^ length bs = 2 * be_dec (rev bs) + uint c"
  using assms
proof (induction bs arbitrary: c out)
  case (Cons b bs)
  define d where "d = push_bit 1 b OR c"
  note st = shift_step [OF Cons.prems, of b, folded d_def]
  obtain ds c' where ih: "shift_loop bs (drop_bit 7 b) (d # out) = (ds @ d # out, c')" "length ds = length bs" "uint c' \<le> 1"
    "be_dec ds + uint c' * 256 ^ length bs = 2 * be_dec (rev bs) + uint (drop_bit 7 b)"
    using Cons.IH [OF st(2), of "d # out"] by blast
  have "be_dec (ds @ [d]) + uint c' * 256 ^ length (b # bs) = 256 * (be_dec ds + uint c' * 256 ^ length bs) + uint d"
    by (simp add: be_dec_append algebra_simps)
  also have "\<dots> = 2 * (be_dec (rev bs) * 256 + uint b) + uint c" unfolding ih(4) using st(1) by (simp add: algebra_simps)
  finally have "be_dec (ds @ [d]) + uint c' * 256 ^ length (b # bs) = 2 * be_dec (rev (b # bs)) + uint c"
    by (simp add: be_dec_append)
  then show ?case using ih by (intro exI [of _ "ds @ [d]"] exI [of _ c']) (simp add: d_def)
qed simp

definition double_word :: "u128 \<Rightarrow> u128" where
  "double_word w = push_bit 1 w XOR (if bit w 127 then 0x87 else 0)"

lemma double_block_word:
  assumes "length src = 16"
  shows "length (double_block src) = 16" "Uint128 (double_block src) = double_word (Uint128 src)"
proof -
  obtain ds c where s: "shiftLeft src = (ds, c)" "length ds = 16" "uint c \<le> 1"
    "be_dec ds + uint c * 2 ^ 128 = 2 * be_dec src"
    using shift_loop_value [of 0 "rev src" "[]"] assms by (auto simp: shiftLeft_def)
  define x where "x = (if c = 1 then poly128 else 0)"
  have db: "double_block src = xor_bytes ds (replicate 15 0 @ [x])"
    unfolding double_block_def s(1) prod.case x_def [symmetric]
    by (rule nth_equalityI) (use s(2) in \<open>auto simp: xor_bytes_def nth_list_update nth_append x_def\<close>)
  then show "length (double_block src) = 16" using s(2) by simp
  have src: "be_dec src < 2 ^ 128" using be_dec_less [of src] assms by simp
  have ds: "be_dec ds < 2 ^ 128" "0 \<le> be_dec ds" using be_dec_less [of ds] be_dec_nonneg [of ds] s(2) by simp_all
  have v: "be_dec ds = 2 * be_dec src + (- uint c) * 2 ^ 128" using s(4) by simp
  have "Uint128 ds = word_of_int (2 * be_dec src)"
    unfolding Uint128_def word_of_int_eq_iff take_bit_eq_mod v
    using mod_mult_self1 [of "2 * be_dec src" "- uint c" "2 ^ 128"] by simp
  also have "\<dots> = push_bit 1 (Uint128 src)" by (simp add: Uint128_def push_bit_eq_mult)
  finally have d: "Uint128 ds = push_bit 1 (Uint128 src)" .
  have "bit (Uint128 src) 127 \<longleftrightarrow> bit (be_dec src) 127" by (simp add: Uint128_def bit_word_of_int_iff)
  also have "\<dots> \<longleftrightarrow> odd (be_dec src div 2 ^ 127)" by (simp add: bit_iff_odd)
  also have "\<dots> \<longleftrightarrow> 2 ^ 127 \<le> be_dec src"
  proof (cases "2 ^ 127 \<le> be_dec src")
    case True
    then have "be_dec src div 2 ^ 127 = 1" using src by (intro int_div_pos_eq [where r = "be_dec src - 2 ^ 127"]) simp_all
    then show ?thesis using True by simp
  next
    case False
    then have "be_dec src div 2 ^ 127 = 0" using be_dec_nonneg [of src] by (intro div_pos_pos_trivial) simp_all
    then show ?thesis using False by simp
  qed
  also have "\<dots> \<longleftrightarrow> c = 1"
  proof -
    have "uint c = 0 \<or> uint c = 1" using s(3) uint_nonnegative [of c] by linarith
    then show ?thesis using s(4) ds src by (auto simp: word_eq_iff_unsigned [where ?'a = int])
  qed
  finally have "Uint128 (replicate 15 0 @ [x]) = (if bit (Uint128 src) 127 then 0x87 else 0)"
    by (simp add: x_def poly128_def Uint128_def be_dec_append) (simp add: eval_nat_numeral)
  then show "Uint128 (double_block src) = double_word (Uint128 src)"
    using s(2) d by (simp add: db Uint128_xor double_word_def)
qed

subsection \<open>CMAC as RFC 4493 defines it\<close>

definition pad_block :: "bytes \<Rightarrow> bytes" where
  "pad_block p = p @ [0x80] @ replicate (15 - length p) 0"

definition rfc_last :: "block_cipher \<Rightarrow> bytes \<Rightarrow> bytes \<Rightarrow> u128" where
  "rfc_last aes key p =
    (let k1 = double_word (aes key 0)
     in if length p = 16 then Uint128 p XOR k1 else Uint128 (pad_block p) XOR double_word k1)"

function rfc_chain :: "block_cipher \<Rightarrow> bytes \<Rightarrow> u128 \<Rightarrow> bytes \<Rightarrow> u128" where
  "rfc_chain aes key x msg =
    (if 16 < length msg then rfc_chain aes key (aes key (x XOR Uint128 (take 16 msg))) (drop 16 msg)
     else aes key (x XOR rfc_last aes key msg))"
  by pat_completeness auto
termination
  by (relation "measure (\<lambda>(aes, key, x, msg). length msg)") auto

declare rfc_chain.simps [simp del]

definition rfc_cmac :: "block_cipher \<Rightarrow> bytes \<Rightarrow> bytes \<Rightarrow> bytes" where
  "rfc_cmac aes key msg = PutUint128 (rfc_chain aes key 0 msg)"

lemma Encrypt_block: "length b = 16 \<Longrightarrow> Encrypt aes key b = PutUint128 (aes key (Uint128 b))"
  by (simp add: Encrypt_def)

text \<open>The state \<open>newCMAC\<close> sets up and \<open>Write\<close> keeps: the keys are the doubled subkeys.\<close>

definition cmac_keyed :: "block_cipher \<Rightarrow> bytes \<Rightarrow> cmac \<Rightarrow> bool" where
  "cmac_keyed aes key m \<longleftrightarrow> cm_key m = key \<and> length (cm_k1 m) = 16 \<and> length (cm_k2 m) = 16 \<and>
     Uint128 (cm_k1 m) = double_word (aes key 0) \<and> Uint128 (cm_k2 m) = double_word (double_word (aes key 0))"

lemma cmac_keyed_new: "cmac_keyed aes key (newCMAC aes key)"
  by (simp add: cmac_keyed_def newCMAC_def Let_def double_block_word Encrypt_block Uint128_zero zero_block_def [symmetric])
     (simp add: zero_block_def Encrypt_block Uint128_zero [unfolded zero_block_def])

lemma cmac_keyed_upd: "cmac_keyed aes key (m\<lparr>cm_buf := b, cm_off := k\<rparr>) \<longleftrightarrow> cmac_keyed aes key m"
  "cmac_keyed aes key (m\<lparr>cm_buf := b\<rparr>) \<longleftrightarrow> cmac_keyed aes key m"
  by (simp_all add: cmac_keyed_def)

lemma cmac_Sum_rfc:
  assumes "cmac_keyed aes key m" "length buf = 16" "length p \<le> 16" "cm_buf m = xorBytes buf 0 p" "cm_off m = length p"
  shows "cmac_Sum aes m = PutUint128 (aes key (Uint128 buf XOR rfc_last aes key p))"
proof (cases "length p = 16")
  case True
  then have "xorBytes (cm_k1 m) 0 (cm_buf m) = xor_bytes (cm_k1 m) (xor_bytes buf p)"
    using assms by (simp add: cmac_keyed_def xorBytes_full)
  then show ?thesis
    using assms True by (simp add: cmac_Sum_def Let_def Encrypt_block Uint128_xor rfc_last_def cmac_keyed_def ac_simps)
next
  case False
  define b where "b = xorBytes (cm_k2 m) 0 (cm_buf m)"
  have k2: "length (cm_k2 m) = 16" and lb: "length (cm_buf m) = 16" using assms by (simp_all add: cmac_keyed_def)
  have upd: "b[length p := b ! length p XOR 0x80] = xor_bytes (cm_k2 m) (xor_bytes buf (pad_block p))"
  proof (rule nth_equalityI)
    show "length (b[length p := b ! length p XOR 0x80]) = length (xor_bytes (cm_k2 m) (xor_bytes buf (pad_block p)))"
      using assms False k2 lb by (simp add: b_def pad_block_def)
  next
    fix i assume "i < length (b[length p := b ! length p XOR 0x80])"
    then have i: "i < 16" using k2 lb by (simp add: b_def)
    have "b ! i = cm_k2 m ! i XOR (if i < length p then buf ! i XOR p ! i else buf ! i)"
      using i k2 lb assms(2-4) by (simp add: b_def xorBytes_nth)
    moreover have "pad_block p ! i = (if i < length p then p ! i else if i = length p then 0x80 else 0)"
      using i False assms(3) by (auto simp: pad_block_def nth_append nth_Cons')
    ultimately show "b[length p := b ! length p XOR 0x80] ! i = xor_bytes (cm_k2 m) (xor_bytes buf (pad_block p)) ! i"
      using i k2 lb assms(2,3) False
      by (auto simp: nth_list_update xor_bytes_def b_def pad_block_def xor.assoc)
  qed
  have "cmac_Sum aes m = Encrypt aes key (b[length p := b ! length p XOR 0x80])"
    using assms False unfolding cmac_Sum_def Let_def b_def cmac_keyed_def by simp
  moreover have "length (pad_block p) = 16" using assms(3) False by (simp add: pad_block_def)
  ultimately show ?thesis
    using assms(1,2) k2 False by (simp add: upd Encrypt_block Uint128_xor rfc_last_def cmac_keyed_def ac_simps)
qed

lemma write_tail_rfc:
  assumes "cmac_keyed aes key m" "length (cm_buf m) = 16" "cm_off m = 0"
  shows "cmac_Sum aes (write_tail aes m p) = PutUint128 (rfc_chain aes key (Uint128 (cm_buf m)) p)"
  using assms
proof (induction aes m p rule: write_blocks.induct)
  case (1 aes m p)
  show ?case
  proof (cases "16 < length p")
    case True
    define m' where "m' = m\<lparr>cm_buf := Encrypt aes (cm_key m) (xorBytes (cm_buf m) 0 (take 16 p))\<rparr>"
    have k: "cm_key m = key" using "1.prems"(1) by (simp add: cmac_keyed_def)
    have "write_tail aes m p = write_tail aes m' (drop 16 p)"
      unfolding write_tail_def by (subst write_blocks.simps) (simp add: True m'_def)
    moreover have "cmac_Sum aes (write_tail aes m' (drop 16 p)) = PutUint128 (rfc_chain aes key (Uint128 (cm_buf m')) (drop 16 p))"
      using "1.IH" [OF True] "1.prems" by (simp add: m'_def cmac_keyed_upd)
    moreover have "Uint128 (cm_buf m') = aes key (Uint128 (cm_buf m) XOR Uint128 (take 16 p))"
      using True "1.prems"(2) by (simp add: m'_def k xorBytes_full Encrypt_block Uint128_xor)
    ultimately show ?thesis by (subst rfc_chain.simps) (simp add: True)
  next
    case False
    then have "write_blocks aes m p = (m, p)" by (subst write_blocks.simps) simp
    then have w: "cmac_keyed aes key (write_tail aes m p)" "cm_buf (write_tail aes m p) = xorBytes (cm_buf m) 0 p"
      "cm_off (write_tail aes m p) = length p"
      using "1.prems" by (simp_all add: write_tail_def cmac_keyed_upd)
    show ?thesis using cmac_Sum_rfc [OF w(1) "1.prems"(2) _ w(2,3)] False by (subst rfc_chain.simps) simp
  qed
qed

lemma cmac_Write_chunks:
  "cmac_ok m \<Longrightarrow> foldl (cmac_Write aes) m chunks = cmac_Write aes m (concat chunks)"
proof (induction chunks arbitrary: m)
  case Nil
  then show ?case by (simp add: cmac_Write_absorbs)
next
  case (Cons c chunks)
  then show ?case by (simp add: cmac_Write_ok cmac_Write_append)
qed

text \<open>C27: (\<open>newCMAC\<close>, \<open>Write\<close>, \<open>Sum\<close>) The streaming CMAC is the CMAC of RFC 4493: for every block cipher, key
  and message, however the message is cut into writes, the sum is the chained encryption of the
  16-byte blocks with the last one masked by the first or, padded, by the second subkey.\<close>
theorem cmac_is_rfc_4493:
  "cmac_Sum aes (foldl (cmac_Write aes) (newCMAC aes key) chunks) = rfc_cmac aes key (concat chunks)"
proof -
  have new: "cm_off (newCMAC aes key) = 0" "cm_buf (newCMAC aes key) = zero_block"
    by (simp_all add: newCMAC_def Let_def)
  have "foldl (cmac_Write aes) (newCMAC aes key) chunks = write_tail aes (newCMAC aes key) (concat chunks)"
    by (simp add: cmac_Write_chunks cmac_ok_new(1)) (simp add: cmac_Write_def new)
  then show ?thesis
    using write_tail_rfc [OF cmac_keyed_new, of aes key "concat chunks"] new
    by (simp add: rfc_cmac_def Uint128_zero) (simp add: zero_block_def)
qed

subsection \<open>Round trip and authenticity of AES-SIV-CMAC\<close>

text \<open>(\<open>Seal\<close>, \<open>Open\<close> of \<open>aes_siv.go\<close>) With a nonce of 16 bytes or none, for every AES, key and data,
  \<open>Open\<close> gives a plaintext exactly for the ciphertext that \<open>Seal\<close> makes of it under that nonce and associated
  data, and an error for every other string; neither panics. With any other nonce both panic.\<close>
theorem siv_cmac_open_exact:
  "(SivCMAC_Open aes s nonce c ad = Ret (Inr p) \<longleftrightarrow> SivCMAC_Seal aes s nonce p ad = Ret c) \<and>
   (SivCMAC_Open aes s nonce c ad = Panic \<longleftrightarrow> length nonce \<notin> {0, 16}) \<and>
   (SivCMAC_Seal aes s nonce p ad = Panic \<longleftrightarrow> length nonce \<notin> {0, 16})"
  by (auto simp: SivCMAC_Open_def SivCMAC_Seal_def cmac_siv.open_iff)

subsection \<open>Carry-less multiplication and POLYVAL\<close>

definition le_enc :: "nat \<Rightarrow> int \<Rightarrow> bytes" where "le_enc n v = rev (be_enc n v)"
definition le_dec :: "bytes \<Rightarrow> int" where "le_dec bs = be_dec (rev bs)"

definition PutUint32LE :: "u32 \<Rightarrow> bytes" where "PutUint32LE w = le_enc 4 (uint w)"
definition PutUint64LE :: "u64 \<Rightarrow> bytes" where "PutUint64LE w = le_enc 8 (uint w)"
definition Uint32LE :: "bytes \<Rightarrow> u32" where "Uint32LE bs = word_of_int (le_dec bs)"
definition Uint64LE :: "bytes \<Rightarrow> u64" where "Uint64LE bs = word_of_int (le_dec bs)"

interpretation le32: field_codec PutUint32LE Uint32LE 4
  by unfold_locales (simp_all add: PutUint32LE_def Uint32LE_def le_enc_def le_dec_def word_be_round)

interpretation le64: field_codec PutUint64LE Uint64LE 8
  by unfold_locales (simp_all add: PutUint64LE_def Uint64LE_def le_enc_def le_dec_def word_be_round)

text \<open>One turn of the loop of \<open>umul64\<close>.\<close>

definition umul64_step :: "u64 \<Rightarrow> u64 \<Rightarrow> nat \<Rightarrow> u64 \<times> u64 \<Rightarrow> u64 \<times> u64" where
  "umul64_step src1 src2 i d =
    (let (d0, d1) = d;
         d1 = d1 XOR (NOT (drop_bit i (src2 AND push_bit i 1) - 1) AND src1);
         d0 = drop_bit 1 d0 XOR (NOT ((d1 AND 1) - 1) AND push_bit 63 1)
     in (d0, drop_bit 1 d1))"

definition umul64 :: "u64 \<Rightarrow> u64 \<Rightarrow> u64 \<times> u64" where
  "umul64 src1 src2 = fold (umul64_step src1 src2) [0..<64] (0, 0)"

definition polyvalMask :: u64 where "polyvalMask = 0xc200000000000000"

definition multiply :: "u64 \<times> u64 \<Rightarrow> u64 \<times> u64 \<Rightarrow> u64 \<times> u64" where
  "multiply r h =
    (let lowMask = 0x00000000ffffffff; highMask = 0xffffffff00000000;
         (t00, t01) = umul64 (fst r) (fst h);
         (t10, t11) = umul64 (snd r) (fst h);
         (t20, t21) = umul64 (fst r) (snd h);
         (t30, t31) = umul64 (snd r) (snd h);
         t10 = t10 XOR t20;
         t11 = t11 XOR t21;
         t21 = t10;
         t10 = t11;
         t01 = t01 XOR t21;
         t30 = t30 XOR t10;
         (t10, t11) = umul64 polyvalMask t00;
         t20 = (t01 AND lowMask) OR (t01 AND highMask);
         t21 = (t00 AND lowMask) OR (t00 AND highMask);
         t00 = t10 XOR t20;
         t01 = t11 XOR t21;
         (t10, t11) = umul64 polyvalMask t00;
         t20 = (t01 AND lowMask) OR (t01 AND highMask);
         t21 = (t00 AND lowMask) OR (t00 AND highMask);
         t00 = t10 XOR t20;
         t01 = t11 XOR t21
     in (t30 XOR t00, t31 XOR t01))"

text \<open>Absorbing one input: whole blocks, then the rest filled with zeros.\<close>

definition polyval_block :: "u64 \<times> u64 \<Rightarrow> u64 \<times> u64 \<Rightarrow> bytes \<Rightarrow> u64 \<times> u64" where
  "polyval_block h r b = multiply (fst r XOR Uint64LE (slice b 0 8), snd r XOR Uint64LE (slice b 8 16)) h"

function polyval_absorb :: "u64 \<times> u64 \<Rightarrow> u64 \<times> u64 \<Rightarrow> bytes \<Rightarrow> u64 \<times> u64" where
  "polyval_absorb h r data =
    (if 16 \<le> length data then polyval_absorb h (polyval_block h r (take 16 data)) (drop 16 data)
     else if data \<noteq> [] then polyval_block h r (data @ replicate (16 - length data) 0)
     else r)"
  by pat_completeness auto
termination
  by (relation "measure (\<lambda>(h, r, data). length data)") auto

declare polyval_absorb.simps [simp del]

definition polyval :: "bytes \<Rightarrow> bytes \<Rightarrow> bytes \<Rightarrow> bytes" where
  "polyval additionalData plaintext key =
    (let h = (Uint64LE (slice key 0 8), Uint64LE (slice key 8 16));
         addLen = 8 * of_nat (length additionalData);
         ptLen = 8 * of_nat (length plaintext);
         r = polyval_absorb h (polyval_absorb h (0, 0) additionalData) plaintext;
         r = multiply (fst r XOR addLen, snd r XOR ptLen) h
     in PutUint64LE (fst r) @ PutUint64LE (snd r))"

subsection \<open>AES-GCM-SIV\<close>

record aesGcmSiv =
  gs_key :: bytes
  gs_keyLen :: nat

definition NewGCM :: "bytes \<Rightarrow> go_error + aesGcmSiv" where
  "NewGCM key =
    (if length key \<noteq> 16 \<and> length key \<noteq> 32 then Inl ErrInvalidKeySize
     else Inr \<lparr>gs_key = key, gs_keyLen = length key\<rparr>)"

definition derive_half :: "block_cipher \<Rightarrow> bytes \<Rightarrow> bytes \<Rightarrow> u32 \<Rightarrow> bytes" where
  "derive_half aes key nonce i = take 8 (Encrypt aes key (PutUint32LE i @ nonce))"

definition deriveKeys :: "block_cipher \<Rightarrow> bytes \<Rightarrow> bytes \<Rightarrow> nat \<Rightarrow> bytes \<times> bytes" where
  "deriveKeys aes nonce key keyLen =
    (derive_half aes key nonce 2 @ derive_half aes key nonce 3
       @ (if keyLen = 32 then derive_half aes key nonce 4 @ derive_half aes key nonce 5 else []),
     derive_half aes key nonce 0 @ derive_half aes key nonce 1)"

function xor_loop :: "block_cipher \<Rightarrow> bytes \<Rightarrow> bytes \<Rightarrow> u32 \<Rightarrow> bytes \<Rightarrow> bytes" where
  "xor_loop aes key ctrRest counter src =
    (if 16 \<le> length src
     then xor_bytes (take 16 src) (Encrypt aes key (PutUint32LE counter @ ctrRest))
          @ xor_loop aes key ctrRest (counter + 1) (drop 16 src)
     else if src \<noteq> [] then xor_bytes src (Encrypt aes key (PutUint32LE counter @ ctrRest))
     else [])"
  by pat_completeness auto
termination
  by (relation "measure (\<lambda>(aes, key, ctrRest, counter, src). length src)") auto

declare xor_loop.simps [simp del]

definition xorKeystream :: "block_cipher \<Rightarrow> bytes \<Rightarrow> bytes \<Rightarrow> bytes \<Rightarrow> bytes" where
  "xorKeystream aes key iv src = xor_loop aes key (drop 4 iv) (Uint32LE (take 4 iv)) src"

text \<open>The tag that \<open>Seal\<close> and \<open>Open\<close> compute, and the counter block made from a tag.\<close>

definition gcm_tag :: "block_cipher \<Rightarrow> bytes \<Rightarrow> bytes \<Rightarrow> bytes \<Rightarrow> bytes \<Rightarrow> bytes \<Rightarrow> bytes" where
  "gcm_tag aes encKey authKey nonce plaintext additionalData =
    (let tag = xorBytes (polyval additionalData plaintext authKey) 0 nonce;
         tag = tag[15 := tag ! 15 AND 0x7f]
     in Encrypt aes encKey tag)"

definition gcm_ctr :: "bytes \<Rightarrow> bytes" where
  "gcm_ctr tag = tag[15 := tag ! 15 OR 0x80]"

definition gcm_seal :: "block_cipher \<Rightarrow> aesGcmSiv \<Rightarrow> bytes \<Rightarrow> bytes \<Rightarrow> bytes \<Rightarrow> bytes" where
  "gcm_seal aes c nonce plaintext additionalData =
    (let (encKey, authKey) = deriveKeys aes nonce (gs_key c) (gs_keyLen c);
         tag = gcm_tag aes encKey authKey nonce plaintext additionalData
     in xorKeystream aes encKey (gcm_ctr tag) plaintext @ tag)"

definition gcm_open :: "block_cipher \<Rightarrow> aesGcmSiv \<Rightarrow> bytes \<Rightarrow> bytes \<Rightarrow> bytes \<Rightarrow> go_error + bytes" where
  "gcm_open aes c nonce ciphertext additionalData =
    (if length ciphertext < 16 then Inl (Err ''siv: message authentication failed'')
     else
       let tag = drop (length ciphertext - 16) ciphertext;
           ct = take (length ciphertext - 16) ciphertext;
           (encKey, authKey) = deriveKeys aes nonce (gs_key c) (gs_keyLen c);
           plaintext = xorKeystream aes encKey (gcm_ctr tag) ct;
           sum = gcm_tag aes encKey authKey nonce plaintext additionalData
       in if sum \<noteq> tag then Inl (Err ''siv: message authentication failed'') else Inr plaintext)"

definition SivGCM_Seal :: "block_cipher \<Rightarrow> aesGcmSiv \<Rightarrow> bytes \<Rightarrow> bytes \<Rightarrow> bytes \<Rightarrow> bytes outcome" where
  "SivGCM_Seal aes c nonce plaintext additionalData =
    (if length nonce \<noteq> 12 then Panic else Ret (gcm_seal aes c nonce plaintext additionalData))"

definition SivGCM_Open :: "block_cipher \<Rightarrow> aesGcmSiv \<Rightarrow> bytes \<Rightarrow> bytes \<Rightarrow> bytes \<Rightarrow> (go_error + bytes) outcome" where
  "SivGCM_Open aes c nonce ciphertext additionalData =
    (if length nonce \<noteq> 12 then Panic else Ret (gcm_open aes c nonce ciphertext additionalData))"

lemma xor_loop_twice [simp]:
  "length (xor_loop aes key rest counter src) = length src"
  "xor_loop aes key rest counter (xor_loop aes key rest counter src) = src"
proof (induction aes key rest counter src rule: xor_loop.induct)
  case (1 aes key rest counter src)
  define ks where "ks = Encrypt aes key (PutUint32LE counter @ rest)"
  have ks: "length ks = 16" by (simp add: ks_def)
  {
    case 1
    show ?case
      by (subst xor_loop.simps) (use "1.IH"(1) in \<open>simp add: ks_def [symmetric] ks\<close>)
  next
    case 2
    show ?case
    proof (cases "16 \<le> length src")
      case True
      have "xor_loop aes key rest counter src = xor_bytes (take 16 src) ks @ xor_loop aes key rest (counter + 1) (drop 16 src)"
        by (subst xor_loop.simps) (simp add: True ks_def)
      then show ?thesis
        by (subst xor_loop.simps) (use True "1.IH" in \<open>simp add: ks_def [symmetric] ks xor_bytes_cancel\<close>)
    next
      case False
      then have "xor_loop aes key rest counter src = (if src \<noteq> [] then xor_bytes src ks else [])"
        by (subst xor_loop.simps) (simp add: ks_def)
      moreover have "xor_bytes src ks = [] \<longleftrightarrow> src = []" using ks by (auto simp: xor_bytes_def)
      ultimately show ?thesis
        by (subst xor_loop.simps) (use False in \<open>simp add: ks_def [symmetric] ks xor_bytes_cancel\<close>)
    qed
  }
qed

lemma length_gcm_tag [simp]: "length (gcm_tag aes ek ak n p a) = 16"
  by (simp add: gcm_tag_def Let_def)

interpretation gcm_siv: siv_aead "gcm_seal aes s" "gcm_open aes s"
proof
  show "length (gcm_seal aes s n p a) = length p + 16" for n p a
    by (simp add: gcm_seal_def xorKeystream_def Let_def split_beta)
  show "gcm_open aes s n c a = Inr p \<longleftrightarrow> c = gcm_seal aes s n p a" for n c a p
  proof -
    obtain ek ak where k: "deriveKeys aes n (gs_key s) (gs_keyLen s) = (ek, ak)" by (metis surj_pair)
    show ?thesis
    proof
      assume "gcm_open aes s n c a = Inr p"
      then have o: "p = xorKeystream aes ek (gcm_ctr (drop (length c - 16) c)) (take (length c - 16) c)"
        "gcm_tag aes ek ak n p a = drop (length c - 16) c"
        by (auto simp: gcm_open_def k Let_def split: if_splits)
      have "xorKeystream aes ek (gcm_ctr (drop (length c - 16) c)) p = take (length c - 16) c"
        by (simp add: o(1) xorKeystream_def)
      then show "c = gcm_seal aes s n p a" by (simp add: gcm_seal_def k o(2))
    next
      assume "c = gcm_seal aes s n p a"
      then show "gcm_open aes s n c a = Inr p" by (simp add: gcm_open_def gcm_seal_def k xorKeystream_def Let_def)
    qed
  qed
qed

lemma siv_gcm_open_exact:
  "(SivGCM_Open aes s nonce c ad = Ret (Inr p) \<longleftrightarrow> SivGCM_Seal aes s nonce p ad = Ret c) \<and>
   (SivGCM_Open aes s nonce c ad = Panic \<longleftrightarrow> length nonce \<noteq> 12) \<and>
   (SivGCM_Seal aes s nonce p ad = Panic \<longleftrightarrow> length nonce \<noteq> 12)"
  by (auto simp: SivGCM_Open_def SivGCM_Seal_def gcm_siv.open_iff)

subsection \<open>The constant-time multiplication is carry-less multiplication\<close>

text \<open>Reference: the XOR of the multiples of the first factor for the set bits of the second.\<close>

fun clmul :: "u64 \<Rightarrow> u64 \<Rightarrow> nat \<Rightarrow> u128" where
  "clmul a b 0 = 0"
| "clmul a b (Suc i) = clmul a b i XOR (if bit b i then push_bit i (ucast a) else 0)"

lemma clmul_degree: "bit (clmul a b i) k \<Longrightarrow> k < 63 + i"
proof (induction i)
  case (Suc i)
  then show ?case using bit_imp_le_length [of a "k - i"]
    by (cases "bit b i") (auto simp: bit_simps)
qed simp

lemma select_bit: "drop_bit i ((b :: u64) AND push_bit i 1) = (if i < 64 \<and> bit b i then 1 else 0)"
  by (rule bit_word_eqI) (auto simp: bit_simps intro!: gr0I)

lemma select_one: "(d :: u64) AND 1 = (if bit d 0 then 1 else 0)"
  by (simp add: and_one_eq mod_2_eq_odd bit_0)

lemma select_mask: "NOT ((if P then 1 else 0) - 1) AND (x :: u64) = (if P then x else 0)"
  by simp

lemma bit_top: "bit (9223372036854775808 :: u64) n \<longleftrightarrow> n = 63" "bit (9223372036854775808 :: int) n \<longleftrightarrow> n = 63"
  using bit_exp_iff [of 63 n, where ?'a = u64] bit_exp_iff [of 63 n, where ?'a = int] by auto

definition pair_bit :: "u64 \<times> u64 \<Rightarrow> nat \<Rightarrow> bool" where
  "pair_bit d n \<longleftrightarrow> (if n < 64 then bit (fst d) n else bit (snd d) (n - 64))"

lemma pair_bit_step:
  assumes "i < 64" "n < 128"
  shows "pair_bit (umul64_step a b i d) n
    \<longleftrightarrow> n < 127 \<and> (pair_bit d (n + 1) \<noteq> (63 \<le> n \<and> bit b i \<and> bit a (n - 63)))"
proof -
  obtain d0 d1 where d: "d = (d0, d1)" by (cases d)
  define e where "e = d1 XOR (if bit b i then a else 0)"
  have s: "umul64_step a b i (d0, d1) = (drop_bit 1 d0 XOR (if bit e 0 then push_bit 63 1 else 0), drop_bit 1 e)"
    unfolding umul64_step_def Let_def prod.case select_bit select_one select_mask e_def using assms(1) by simp
  consider "n < 63" | "n = 63" | "63 < n" by linarith
  then show ?thesis
  proof cases
    case 1
    then show ?thesis by (auto simp: s pair_bit_def d bit_simps bit_top)
  next
    case 2
    then show ?thesis by (auto simp: s pair_bit_def d bit_simps bit_top e_def bit_imp_le_length dest: bit_imp_le_length)
  next
    case 3
    then have "n - 64 + 1 = n - 63" by simp
    then show ?thesis using 3 assms bit_imp_le_length [of e "n - 63"]
      by (auto simp: s pair_bit_def d bit_simps bit_top e_def)
  qed
qed

lemma umul64_invariant:
  "i \<le> 64 \<Longrightarrow> n < 128 \<Longrightarrow>
   pair_bit (fold (umul64_step a b) [0..<i] (0, 0)) n \<longleftrightarrow> 64 - i \<le> n \<and> bit (clmul a b i) (n - (64 - i))"
proof (induction i arbitrary: n)
  case 0
  then show ?case by (simp add: pair_bit_def)
next
  case (Suc i)
  then have i: "i < 64" by simp
  let ?d = "fold (umul64_step a b) [0..<i] (0, 0)"
  have f: "fold (umul64_step a b) [0..<Suc i] (0, 0) = umul64_step a b i ?d" by simp
  show ?case
  proof (cases "n < 127")
    case True
    have IH: "pair_bit ?d (n + 1) \<longleftrightarrow> 64 - i \<le> n + 1 \<and> bit (clmul a b i) (n + 1 - (64 - i))"
      using Suc.IH [of "n + 1"] True i by simp
    show ?thesis
      unfolding f pair_bit_step [OF i Suc.prems(2)] IH using True i
      by (cases "63 \<le> n"; cases "64 - Suc i \<le> n") (auto simp: bit_simps Suc_diff_le algebra_simps)
  next
    case False
    then have "n = 127" using Suc.prems(2) by simp
    moreover have "\<not> bit (clmul a b (Suc i)) (127 - (64 - Suc i))"
      using clmul_degree [of a b "Suc i" "127 - (64 - Suc i)"] i by auto
    ultimately show ?thesis unfolding f pair_bit_step [OF i Suc.prems(2)] by simp
  qed
qed

text \<open>C28: (\<open>umul64\<close>) The branch-free shift-and-mask loop computes the 128-bit carry-less product of its
  factors, low word first.\<close>
theorem umul64_is_carryless_product:
  "ucast (fst (umul64 a b)) OR push_bit 64 (ucast (snd (umul64 a b))) = clmul a b 64"
proof (rule bit_word_eqI)
  fix n assume n: "n < LENGTH(128)"
  have "pair_bit (umul64 a b) n \<longleftrightarrow> bit (clmul a b 64) n"
    using umul64_invariant [of 64 n a b] n by (simp add: umul64_def)
  then show "bit (ucast (fst (umul64 a b)) OR push_bit 64 (ucast (snd (umul64 a b))) :: u128) n \<longleftrightarrow> bit (clmul a b 64) n"
    using n bit_imp_le_length [of "fst (umul64 a b)" n]
    by (cases "n < 64") (auto simp: pair_bit_def bit_simps)
qed

end
