(* ===== verification/NtsPacket.thy ===== *)
theory NtsPacket
  imports NtsKe Siv Ntp
begin

text \<open>
  NTS-protected NTP (package \<open>nts\<close>): the algorithms and keys (\<open>aead.go\<close>, \<open>exporter.go\<close>), the packet budget
  (\<open>budget.go\<close>) and the protected request and response (\<open>packet.go\<close>). The random bytes of \<open>crypto/rand\<close>
  are arguments: functions from the number of bytes asked for; the TLS exporter is the argument \<open>exporter\<close>.
\<close>

subsection \<open>The algorithms behind \<open>cipher.AEAD\<close>\<close>

datatype AEAD = AeadSivCMAC aesSivCMAC | AeadGcmSiv aesGcmSiv

fun aead_NonceSize :: "AEAD \<Rightarrow> nat" where
  "aead_NonceSize (AeadSivCMAC _) = 16"
| "aead_NonceSize (AeadGcmSiv _) = 12"

fun aead_Overhead :: "AEAD \<Rightarrow> nat" where
  "aead_Overhead (AeadSivCMAC _) = 16"
| "aead_Overhead (AeadGcmSiv _) = 16"

fun aead_Seal :: "block_cipher \<Rightarrow> AEAD \<Rightarrow> bytes \<Rightarrow> bytes \<Rightarrow> bytes \<Rightarrow> bytes outcome" where
  "aead_Seal aes (AeadSivCMAC s) nonce plaintext ad = SivCMAC_Seal aes s nonce plaintext ad"
| "aead_Seal aes (AeadGcmSiv c) nonce plaintext ad = SivGCM_Seal aes c nonce plaintext ad"

fun aead_Open :: "block_cipher \<Rightarrow> AEAD \<Rightarrow> bytes \<Rightarrow> bytes \<Rightarrow> bytes \<Rightarrow> (go_error + bytes) outcome" where
  "aead_Open aes (AeadSivCMAC s) nonce ciphertext ad = SivCMAC_Open aes s nonce ciphertext ad"
| "aead_Open aes (AeadGcmSiv c) nonce ciphertext ad = SivGCM_Open aes c nonce ciphertext ad"

definition NewAEAD :: "u16 \<Rightarrow> bytes \<Rightarrow> go_error + AEAD" where
  "NewAEAD aeadID key =
    (case Registry aeadID of
       None \<Rightarrow> Inl (Wrap ''aead'' ErrUnsupportedAead)
     | Some params \<Rightarrow>
       if length key \<noteq> ap_KeyLength params then Inl (Err ''invalid key length for AEAD'')
       else if aeadID = 15 then map_sum id AeadSivCMAC (NewCMAC key)
       else if aeadID = 30 then map_sum id AeadGcmSiv (NewGCM key)
       else Inl (Wrap ''aead'' ErrUnsupportedAead))"

definition ExporterLabel :: string where "ExporterLabel = ''EXPORTER-network-time-security''"

definition BuildExporterContext :: "u16 \<Rightarrow> u16 \<Rightarrow> u8 \<Rightarrow> bytes" where
  "BuildExporterContext nextProto aeadID direction = PutUint16 nextProto @ PutUint16 aeadID @ [direction]"

definition ExportDirectionalKeys ::
  "(string \<Rightarrow> bytes \<Rightarrow> nat \<Rightarrow> go_error + bytes) \<Rightarrow> u16 \<Rightarrow> u16 \<Rightarrow> go_error + bytes \<times> bytes" where
  "ExportDirectionalKeys exporter nextProto aeadID =
    (case Registry aeadID of
       None \<Rightarrow> Inl (Wrap ''aead'' ErrUnsupportedAead)
     | Some params \<Rightarrow>
       (case exporter ExporterLabel (BuildExporterContext nextProto aeadID 0) (ap_KeyLength params) of
          Inl e \<Rightarrow> Inl (Wrap ''tls export c2s key failed'' e)
        | Inr c2s \<Rightarrow>
          (case exporter ExporterLabel (BuildExporterContext nextProto aeadID 1) (ap_KeyLength params) of
             Inl e \<Rightarrow> Inl (Wrap ''tls export s2c key failed'' e)
           | Inr s2c \<Rightarrow> Inr (c2s, s2c))))"

subsection \<open>The packet budget\<close>

definition paddedLength :: "int \<Rightarrow> int" where
  "paddedLength n = (n + 3) div 4 * 4"

definition requestPlaceholderCount :: "int \<Rightarrow> int \<Rightarrow> AEAD option \<Rightarrow> go_error + int" where
  "requestPlaceholderCount cookieSize requested aead =
    (if \<not> validCookieSize cookieSize then Inl ErrInvalidCookie
     else if requested < 0 then Inl (Err ''negative NTS cookie placeholder count'')
     else case aead of
       None \<Rightarrow> Inl (Err ''missing NTS AEAD'')
     | Some a \<Rightarrow>
       let nonceSize = int (aead_NonceSize a); tagSize = int (aead_Overhead a)
       in if nonceSize \<le> 0 \<or> 65535 < nonceSize \<or> tagSize \<le> 0 \<or> 65535 < tagSize
          then Inl (Err ''invalid NTS AEAD nonce or tag size'')
          else
            let baseSize = 48 + 36 + 8 + paddedLength nonceSize + paddedLength tagSize;
                cookieFieldSize = 4 + paddedLength cookieSize
            in if MaxPacketSize < baseSize + cookieFieldSize then Inl ErrPacketTooLarge
               else
                 let available = max 0 ((PreferredPacketSize - baseSize) sdiv cookieFieldSize - 1)
                 in Inr (min requested (min MaxPlaceholderCount available)))"

fun packet_size_loop :: "int \<Rightarrow> ExtensionField list \<Rightarrow> go_error option" where
  "packet_size_loop tot [] = None"
| "packet_size_loop tot (f # fs) =
     (if MaxPacketSize < int (length (ef_Value f)) \<or> MaxPacketSize < int (length (ef_Wire f)) then Some ErrPacketTooLarge
      else
        let sz = max (4 + paddedLength (int (length (ef_Value f)))) (int (length (ef_Wire f)))
        in if MaxPacketSize - tot < sz then Some (Wrap ''extension fields'' ErrPacketTooLarge)
           else packet_size_loop (tot + sz) fs)"

definition checkResponsePacketSize :: "bytes \<Rightarrow> ExtensionField list \<Rightarrow> go_error option" where
  "checkResponsePacketSize header fs =
    (if length header \<noteq> 48 then Some (Err ''NTS requires a 48-byte NTP header'')
     else packet_size_loop (int (length header)) fs)"

subsection \<open>The protected request\<close>

abbreviation ExtTypeUniqueID :: u16 where "ExtTypeUniqueID \<equiv> 0x0104"
abbreviation ExtTypeCookie :: u16 where "ExtTypeCookie \<equiv> 0x0204"
abbreviation ExtTypeCookiePlaceholder :: u16 where "ExtTypeCookiePlaceholder \<equiv> 0x0304"
abbreviation ExtTypeAuthenticator :: u16 where "ExtTypeAuthenticator \<equiv> 0x0404"

text \<open>A field the code makes: the wire bytes are left nil.\<close>

definition new_field :: "u16 \<Rightarrow> bytes \<Rightarrow> ExtensionField" where
  "new_field t v = \<lparr>ef_Type = t, ef_Value = v, ef_Wire = []\<rparr>"

text \<open>Copying into a zeroed slice of a given length.\<close>

definition filled :: "nat \<Rightarrow> bytes \<Rightarrow> bytes" where
  "filled n bs = take n bs @ replicate (n - length bs) 0"

definition auth_body :: "AEAD \<Rightarrow> bytes \<Rightarrow> bytes \<Rightarrow> bytes" where
  "auth_body aead nonce ciphertext =
    (let cipherLen = aead_Overhead aead; rawBodyLen = 2 + 2 + length nonce + cipherLen
     in filled (rawBodyLen + pad4 rawBodyLen)
          (PutUint16 (of_nat (length nonce)) @ PutUint16 (of_nat (length ciphertext)) @ nonce @ ciphertext))"

definition BuildProtectedRequest ::
  "block_cipher \<Rightarrow> (nat \<Rightarrow> go_error + bytes) \<Rightarrow> (nat \<Rightarrow> go_error + bytes) \<Rightarrow> bytes \<Rightarrow> bytes \<Rightarrow> int \<Rightarrow> AEAD option
    \<Rightarrow> (go_error + bytes \<times> bytes) outcome" where
  "BuildProtectedRequest aes rand1 rand2 ntpHeader cookie placeholderCount aead =
    (if length ntpHeader \<noteq> 48 then Ret (Inl (Err ''NTS requires a 48-byte NTP header''))
     else case requestPlaceholderCount (int (length cookie)) placeholderCount aead of
       Inl e \<Rightarrow> Ret (Inl e)
     | Inr cnt \<Rightarrow>
       (case (aead, rand1 32) of
          (None, _) \<Rightarrow> Panic
        | (Some a, Inl e) \<Rightarrow> Ret (Inl (Wrap ''failed to generate random unique id'' e))
        | (Some a, Inr uniqueID) \<Rightarrow>
          let fs = [new_field ExtTypeUniqueID uniqueID, new_field ExtTypeCookie cookie]
                 @ replicate (nat cnt) (new_field ExtTypeCookiePlaceholder (replicate (length cookie) 0));
              encodedPreAuth = EncodeExtensionFields fs
          in (case rand2 (aead_NonceSize a) of
                Inl e \<Rightarrow> Ret (Inl (Wrap ''failed to generate random nonce'' e))
              | Inr nonce \<Rightarrow>
                (case aead_Seal aes a nonce [] (ntpHeader @ encodedPreAuth) of
                   Panic \<Rightarrow> Panic
                 | Ret ciphertext \<Rightarrow>
                   Ret (Inr (EncodeExtensionFields (fs @ [new_field ExtTypeAuthenticator (auth_body a nonce ciphertext)]),
                             uniqueID))))))"

subsection \<open>The protected response\<close>

text \<open>The cookies of the decrypted fields; a field of an unusable size rejects the response.\<close>

fun inner_cookies :: "ExtensionField list \<Rightarrow> go_error + bytes list" where
  "inner_cookies [] = Inr []"
| "inner_cookies (f # fs) =
     (if ef_Type f = ExtTypeCookie
      then if \<not> validCookieSize (int (length (ef_Value f))) then Inl ErrInvalidCookie
           else map_sum id ((#) (ef_Value f)) (inner_cookies fs)
      else inner_cookies fs)"

definition VerifyAndDecryptResponse ::
  "block_cipher \<Rightarrow> bytes \<Rightarrow> ExtensionField list \<Rightarrow> bytes \<Rightarrow> AEAD \<Rightarrow> (go_error + bytes list) outcome" where
  "VerifyAndDecryptResponse aes ntpHeader extFields expectedUniqueID aead =
    (case checkResponsePacketSize ntpHeader extFields of
       Some e \<Rightarrow> Ret (Inl e)
     | None \<Rightarrow>
       if extFields = [] then Ret (Inl ErrMissingAuthenticator)
       else if ef_Type (last extFields) \<noteq> ExtTypeAuthenticator then Ret (Inl ErrAuthNotLast)
       else (case filter (\<lambda>f. ef_Type f = ExtTypeUniqueID) (butlast extFields) of
               [] \<Rightarrow> Ret (Inl ErrMissingUniqueID)
             | uid # _ \<Rightarrow>
               if ef_Value uid \<noteq> expectedUniqueID then Ret (Inl ErrUniqueIDMismatch)
               else
                 let authWire = ef_Wire (last extFields)
                 in if length authWire < 12 then Ret (Inl (Err ''authenticator wire too short''))
                    else
                      let nonceLen = unat (Uint16 (slice authWire 4 6)); cipherLen = unat (Uint16 (slice authWire 6 8))
                      in if length authWire < 8 + nonceLen + cipherLen
                         then Ret (Inl (Err ''authenticator wire shorter than declared nonce and ciphertext''))
                         else
                           let nonce = slice authWire 8 (8 + nonceLen);
                               ciphertext = slice authWire (8 + nonceLen) (8 + nonceLen + cipherLen);
                               ad = ntpHeader @ EncodeExtensionFields (butlast extFields)
                           in (case aead_Open aes aead nonce ciphertext ad of
                                 Panic \<Rightarrow> Panic
                               | Ret (Inl e) \<Rightarrow> Ret (Inl (Wrap ''open'' ErrAuthFailed))
                               | Ret (Inr plaintext) \<Rightarrow>
                                   if plaintext = [] then Ret (Inr [])
                                   else (case ParseExtensionFields plaintext of
                                           Inl e \<Rightarrow> Ret (Inl (Wrap ''malformed encrypted NTS extension fields'' e))
                                         | Inr (innerFields, trailing) \<Rightarrow>
                                           if trailing \<noteq> [] then Ret (Inl (Err ''trailing bytes in encrypted NTS extension fields''))
                                           else Ret (inner_cookies innerFields)))))"

subsection \<open>The algorithms keep the AEAD contract\<close>

lemma aead_open_iff: "aead_Open aes a n c ad = Ret (Inr p) \<longleftrightarrow> aead_Seal aes a n p ad = Ret c"
  by (cases a) (simp_all add: siv_cmac_open_exact siv_gcm_open_exact)

lemma aead_no_panic: "length n = aead_NonceSize a \<Longrightarrow> aead_Seal aes a n p ad \<noteq> Panic \<and> aead_Open aes a n c ad \<noteq> Panic"
  by (cases a) (simp_all add: siv_cmac_open_exact siv_gcm_open_exact)

lemma aead_length: "aead_Seal aes a n p ad = Ret c \<Longrightarrow> length c = length p + aead_Overhead a"
  by (cases a) (auto simp: SivCMAC_Seal_def SivGCM_Seal_def cmac_siv.length_seal gcm_siv.length_seal split: if_splits)

text \<open>C24: (\<open>aead.go\<close>, \<open>aes_siv.go\<close>, \<open>aes_gcm_siv.go\<close>) Both registered algorithms, for every AES, key, nonce and data:
  \<open>Open\<close> returns a plaintext exactly for the string that \<open>Seal\<close> makes of it under the same nonce and associated
  data, so sealing round-trips and no other string opens to it; with a nonce of the registered size
  neither panics, and the sealed text is longer by the overhead.\<close>
theorem aead_roundtrip:
  assumes "length nonce = aead_NonceSize a"
  shows "\<exists>c. aead_Seal aes a nonce p ad = Ret c \<and> length c = length p + aead_Overhead a \<and>
    aead_Open aes a nonce c ad = Ret (Inr p) \<and>
    (\<forall>d q. aead_Open aes a nonce d ad = Ret (Inr q) \<longleftrightarrow> aead_Seal aes a nonce q ad = Ret d)"
proof -
  obtain c where "aead_Seal aes a nonce p ad = Ret c"
    using aead_no_panic [OF assms] by (cases "aead_Seal aes a nonce p ad") auto
  then show ?thesis using aead_length by (auto simp: aead_open_iff)
qed

definition sample_aead :: AEAD where
  "sample_aead = AeadGcmSiv \<lparr>gs_key = replicate 16 1, gs_keyLen = 16\<rparr>"

lemma aead_roundtrip_witness: "\<exists>c. aead_Open (\<lambda>k b. b) sample_aead (replicate 12 0) c [] = Ret (Inr [1, 2, 3])"
  using aead_roundtrip [of "replicate 12 0" sample_aead "\<lambda>k b. b" "[1, 2, 3]" "[]"] by (auto simp: sample_aead_def)

subsection \<open>Fields as they are sent\<close>

definition on_wire :: "ExtensionField \<Rightarrow> ExtensionField" where
  "on_wire f = \<lparr>ef_Type = ef_Type f, ef_Value = ef_Value f @ replicate (pad4 (length (ef_Value f))) 0, ef_Wire = encode_field f\<rparr>"

lemma on_wire_facts:
  "ef_Type (on_wire f) = ef_Type f" "encode_field (on_wire f) = encode_field f"
  "length (ef_Value f) + pad4 (length (ef_Value f)) + 4 < 65536 \<Longrightarrow> wire_field (on_wire f)"
  "length (encode_field f) = 4 + length (ef_Value f) + pad4 (length (ef_Value f))"
proof -
  define n where "n = length (ef_Value f)"
  have m: "(n + pad4 n) mod 4 = 0" by (rule pad4_sum)
  show "ef_Type (on_wire f) = ef_Type f" by (simp add: on_wire_def)
  show e: "encode_field (on_wire f) = encode_field f"
    using pad4_sum(3) [OF m] by (simp add: encode_field_def on_wire_def Let_def n_def [symmetric] add.assoc)
  show "length (encode_field f) = 4 + length (ef_Value f) + pad4 (length (ef_Value f))"
    by (simp add: encode_field_def Let_def)
  assume "length (ef_Value f) + pad4 (length (ef_Value f)) + 4 < 65536"
  then show "wire_field (on_wire f)" unfolding wire_field_def e using m by (simp add: on_wire_def n_def)
qed

lemma parse_sent_fields:
  assumes "list_all (\<lambda>f. length (ef_Value f) + pad4 (length (ef_Value f)) + 4 < 65536) fs"
  shows "ParseExtensionFields (EncodeExtensionFields fs) = Inr (map on_wire fs, [])"
proof -
  have "EncodeExtensionFields (map on_wire fs) = EncodeExtensionFields fs"
    by (simp add: EncodeExtensionFields_def comp_def on_wire_facts)
  moreover have "list_all wire_field (map on_wire fs)"
    using assms by (auto simp: list_all_iff on_wire_facts)
  ultimately show ?thesis by (simp add: extension_codec)
qed

lemma length_EncodeExtensionFields:
  "length (EncodeExtensionFields fs) = (\<Sum>f\<leftarrow>fs. 4 + length (ef_Value f) + pad4 (length (ef_Value f)))"
  by (induction fs) (simp_all add: EncodeExtensionFields_def on_wire_facts)

lemma paddedLength_pad4: "paddedLength (int n) = int (n + pad4 n)"
proof -
  have "n mod 4 = 0 \<or> n mod 4 = 1 \<or> n mod 4 = 2 \<or> n mod 4 = 3" by linarith
  moreover have "n = n div 4 * 4 + n mod 4" by simp
  ultimately have "(n + 3) div 4 * 4 = n + pad4 n" unfolding pad4_def by (elim disjE) (simp_all, presburger+)
  then show ?thesis unfolding paddedLength_def by (metis of_nat_add of_nat_mult of_nat_numeral zdiv_int)
qed


subsection \<open>What a verified response says\<close>

lemma encode_wire_fields: "list_all wire_field fs \<Longrightarrow> EncodeExtensionFields fs = concat (map ef_Wire fs)"
  by (induction fs) (simp_all add: EncodeExtensionFields_def wire_field_def)

lemma map_sum_Inr: "map_sum id g x = Inr y \<longleftrightarrow> (\<exists>z. x = Inr z \<and> y = g z)"
  by (cases x) auto

lemma inner_cookies_Inr:
  "inner_cookies fs = Inr cs \<longleftrightarrow> cs = map ef_Value (filter (\<lambda>f. ef_Type f = ExtTypeCookie) fs)
     \<and> list_all (\<lambda>c. validCookieSize (int (length c))) cs"
proof (induction fs arbitrary: cs)
  case (Cons f fs)
  show ?case
  proof (cases "ef_Type f = ExtTypeCookie \<and> validCookieSize (int (length (ef_Value f)))")
    case True
    then have "inner_cookies (f # fs) = Inr cs \<longleftrightarrow> (\<exists>z. inner_cookies fs = Inr z \<and> cs = ef_Value f # z)"
      by (simp add: map_sum_Inr)
    also have "\<dots> \<longleftrightarrow> cs = map ef_Value (filter (\<lambda>f. ef_Type f = ExtTypeCookie) (f # fs))
        \<and> list_all (\<lambda>c. validCookieSize (int (length c))) cs"
      unfolding Cons.IH using True by (cases cs) auto
    finally show ?thesis .
  next
    case False
    then show ?thesis using Cons.IH by (cases "ef_Type f = ExtTypeCookie") auto
  qed
qed auto


text \<open>
  The plaintext of a response: nothing, or whole extension fields of which the cookie fields are
  the cookies returned.
\<close>

definition cookies_in :: "bytes \<Rightarrow> bytes list \<Rightarrow> bool" where
  "cookies_in plaintext cookies \<longleftrightarrow>
     (if plaintext = [] then cookies = []
      else \<exists>inner. ParseExtensionFields plaintext = Inr (inner, []) \<and>
             cookies = map ef_Value (filter (\<lambda>f. ef_Type f = ExtTypeCookie) inner) \<and>
             list_all (\<lambda>c. validCookieSize (int (length c))) cookies)"

lemma verify_Inr:
  "VerifyAndDecryptResponse aes header fs uid a = Ret (Inr cookies) \<longleftrightarrow>
     checkResponsePacketSize header fs = None \<and> fs \<noteq> [] \<and> ef_Type (last fs) = ExtTypeAuthenticator \<and>
     (\<exists>u us. filter (\<lambda>f. ef_Type f = ExtTypeUniqueID) (butlast fs) = u # us \<and> ef_Value u = uid) \<and>
     (let w = ef_Wire (last fs); n = unat (Uint16 (slice w 4 6)); c = unat (Uint16 (slice w 6 8))
      in 12 \<le> length w \<and> 8 + n + c \<le> length w \<and>
         (\<exists>plaintext. aead_Open aes a (slice w 8 (8 + n)) (slice w (8 + n) (8 + n + c))
                         (header @ EncodeExtensionFields (butlast fs)) = Ret (Inr plaintext)
                       \<and> cookies_in plaintext cookies))"
  (is "?l \<longleftrightarrow> ?r")
proof
  assume ?l
  then show ?r
    by (auto simp: VerifyAndDecryptResponse_def Let_def cookies_in_def inner_cookies_Inr not_less
        split: option.splits if_splits list.splits outcome.splits sum.splits prod.splits)
next
  assume ?r
  then show ?l
    by (auto simp: VerifyAndDecryptResponse_def Let_def cookies_in_def inner_cookies_Inr not_less split: if_splits)
qed

lemma verified_sealed:
  assumes "ParseExtensionFields data = Inr (fs, trailing)"
    and "VerifyAndDecryptResponse aes header fs uid a = Ret (Inr cookies)"
  shows "\<exists>signed auth nonce ciphertext padding plaintext. data = signed @ ef_Wire auth @ trailing \<and> fs = butlast fs @ [auth] \<and>
    ef_Type auth = ExtTypeAuthenticator \<and> uid \<in> ef_Value ` {f \<in> set (butlast fs). ef_Type f = ExtTypeUniqueID} \<and>
    drop 8 (ef_Wire auth) = nonce @ ciphertext @ padding \<and>
    aead_Seal aes a nonce plaintext (header @ signed) = Ret ciphertext \<and> cookies_in plaintext cookies"
proof -
  note v = assms(2) [unfolded verify_Inr Let_def]
  have p: "data = EncodeExtensionFields fs @ trailing" "list_all wire_field fs"
    using assms(1) by (simp_all add: extension_codec)
  define auth w n c where "auth = last fs" and "w = ef_Wire auth" and "n = unat (Uint16 (slice w 4 6))"
    and "c = unat (Uint16 (slice w 6 8))"
  define signed where "signed = EncodeExtensionFields (butlast fs)"
  have fs: "fs = butlast fs @ [auth]" using v by (simp add: auth_def)
  have "list_all wire_field (butlast fs)" "wire_field auth" using p(2) fs by (metis list_all_append list.pred_inject(2))+
  moreover have "EncodeExtensionFields fs = signed @ encode_field auth"
    by (subst fs) (simp add: EncodeExtensionFields_def signed_def)
  ultimately have data: "data = signed @ w @ trailing" using p(1) by (simp add: wire_field_def w_def)
  obtain plaintext where o: "aead_Open aes a (slice w 8 (8 + n)) (slice w (8 + n) (8 + n + c)) (header @ signed) = Ret (Inr plaintext)"
    "cookies_in plaintext cookies"
    using v by (auto simp: auth_def w_def n_def c_def signed_def)
  have "drop 8 w = slice w 8 (8 + n) @ slice w (8 + n) (8 + n + c) @ drop (8 + n + c) w"
    by (simp add: slice_def) (metis add.commute append.assoc append_take_drop_id drop_drop)
  moreover have "uid \<in> ef_Value ` {f \<in> set (butlast fs). ef_Type f = ExtTypeUniqueID}"
    using v by (auto simp: filter_eq_Cons_iff)
  moreover have "ef_Type auth = ExtTypeAuthenticator" using v by (simp add: auth_def)
  ultimately show ?thesis
    using data fs o by (intro exI conjI) (auto simp: w_def aead_open_iff [symmetric])
qed

text \<open>C10: (\<open>VerifyAndDecryptResponse\<close>) Only sealed responses are accepted. When the fields parsed from the bytes after a
  response's header verify, the last field is the authenticator, a field carries the expected unique
  identifier, and the ciphertext in the authenticator is the sealing, under the session's key, of a
  plaintext with the header and all the bytes before the authenticator as associated data; the
  cookies are those of the plaintext. So no byte before the authenticator can be altered unnoticed.\<close>
theorem verified_response_is_sealed:
  assumes "ParseExtensionFields data = Inr (fs, trailing)"
    and "VerifyAndDecryptResponse aes header fs uid a = Ret (Inr cookies)"
  shows "\<exists>signed auth nonce ciphertext padding plaintext. data = signed @ ef_Wire auth @ trailing \<and> fs = butlast fs @ [auth] \<and>
    ef_Type auth = ExtTypeAuthenticator \<and> uid \<in> ef_Value ` {f \<in> set (butlast fs). ef_Type f = ExtTypeUniqueID} \<and>
    drop 8 (ef_Wire auth) = nonce @ ciphertext @ padding \<and>
    aead_Seal aes a nonce plaintext (header @ signed) = Ret ciphertext \<and> cookies_in plaintext cookies"
  using assms by (rule verified_sealed)

lemma sealed_accepted:
  assumes "checkResponsePacketSize header (pre @ [auth]) = None" "ef_Type auth = ExtTypeAuthenticator"
    and "filter (\<lambda>f. ef_Type f = ExtTypeUniqueID) pre = u # us" "ef_Value u = uid"
    and "ef_Wire auth = h @ PutUint16 (of_nat (length nonce)) @ PutUint16 (of_nat (length c)) @ nonce @ c @ padding" "length h = 4"
    and "length nonce < 65536" "length c < 65536"
    and "aead_Seal aes a nonce plaintext (header @ EncodeExtensionFields pre) = Ret c" "cookies_in plaintext cookies"
  shows "VerifyAndDecryptResponse aes header (pre @ [auth]) uid a = Ret (Inr cookies)"
proof -
  have n: "unat (of_nat (length nonce) :: u16) = length nonce" "unat (of_nat (length c) :: u16) = length c"
    using assms(7,8) by (subst unat_of_nat, simp)+
  have w: "slice (ef_Wire auth) 4 6 = PutUint16 (of_nat (length nonce))" "slice (ef_Wire auth) 6 8 = PutUint16 (of_nat (length c))"
    "slice (ef_Wire auth) 8 (8 + length nonce) = nonce"
    "slice (ef_Wire auth) (8 + length nonce) (8 + length nonce + length c) = c"
    "12 \<le> length (ef_Wire auth)" "8 + length nonce + length c \<le> length (ef_Wire auth)"
    using assms(6) aead_length [OF assms(9)] by (cases a; simp add: assms(5) slice_def)+
  show ?thesis
    unfolding verify_Inr Let_def using assms(1-4,9,10) by (simp add: w n aead_open_iff) blast
qed

text \<open>(\<open>VerifyAndDecryptResponse\<close>) A response sealed by the holder of the key is accepted: with a header of
  48 bytes, fields within the packet limit, the expected unique identifier before the authenticator, and
  an authenticator that carries its nonce and the sealing of whole extension fields, the
  cookies inside are returned.\<close>
theorem sealed_response_accepted:
  assumes "checkResponsePacketSize header (pre @ [auth]) = None" "ef_Type auth = ExtTypeAuthenticator"
    and "filter (\<lambda>f. ef_Type f = ExtTypeUniqueID) pre = u # us" "ef_Value u = uid"
    and "ef_Wire auth = h @ PutUint16 (of_nat (length nonce)) @ PutUint16 (of_nat (length c)) @ nonce @ c @ padding" "length h = 4"
    and "length nonce < 65536" "length c < 65536"
    and "aead_Seal aes a nonce plaintext (header @ EncodeExtensionFields pre) = Ret c" "cookies_in plaintext cookies"
  shows "VerifyAndDecryptResponse aes header (pre @ [auth]) uid a = Ret (Inr cookies)"
  using assms by (rule sealed_accepted)

definition sample_uid :: bytes where "sample_uid = replicate 32 7"

definition sample_uid_field :: ExtensionField where "sample_uid_field = on_wire (new_field ExtTypeUniqueID sample_uid)"

definition sample_auth :: "bytes \<Rightarrow> ExtensionField" where
  "sample_auth c = on_wire (new_field ExtTypeAuthenticator (PutUint16 12 @ PutUint16 16 @ replicate 12 0 @ c))"

lemma sample_response:
  assumes "length c = 16"
  shows "length header = 48 \<Longrightarrow> checkResponsePacketSize header ([sample_uid_field] @ [sample_auth c]) = None"
    and "ef_Wire (sample_auth c) = (PutUint16 ExtTypeAuthenticator @ PutUint16 36)
        @ PutUint16 (of_nat (length (replicate 12 (0 :: u8)))) @ PutUint16 (of_nat (length c)) @ replicate 12 0 @ c @ []"
  using assms
  by (simp_all add: checkResponsePacketSize_def sample_uid_field_def sample_auth_def on_wire_def new_field_def sample_uid_def
      encode_field_def pad4_def paddedLength_def MaxPacketSize_def Let_def)

lemma sample_sealed:
  obtains c where "length c = 16"
    "aead_Seal (\<lambda>k b. b) sample_aead (replicate 12 0) [] (header @ EncodeExtensionFields [sample_uid_field]) = Ret c"
proof -
  obtain c where c: "aead_Seal (\<lambda>k b. b) sample_aead (replicate 12 0) [] (header @ EncodeExtensionFields [sample_uid_field]) = Ret c"
    using aead_no_panic [of "replicate 12 0" sample_aead] by (metis outcome.exhaust length_replicate aead_NonceSize.simps(2) sample_aead_def)
  then show ?thesis using that aead_length [OF c] by (simp add: sample_aead_def)
qed

lemma sample_fields:
  assumes "length c = 16"
  shows "ParseExtensionFields (EncodeExtensionFields [sample_uid_field, sample_auth c]) = Inr ([sample_uid_field, sample_auth c], [])"
  unfolding extension_codec
  using assms by (simp add: sample_uid_field_def sample_auth_def on_wire_facts new_field_def sample_uid_def pad4_def)

lemma sample_accepted:
  assumes "length header = 48"
  obtains c where "length c = 16"
    "VerifyAndDecryptResponse (\<lambda>k b. b) header [sample_uid_field, sample_auth c] sample_uid sample_aead = Ret (Inr [])"
proof -
  obtain c where len: "length c = 16"
    and c: "aead_Seal (\<lambda>k b. b) sample_aead (replicate 12 0) [] (header @ EncodeExtensionFields [sample_uid_field]) = Ret c"
    by (rule sample_sealed)
  have "VerifyAndDecryptResponse (\<lambda>k b. b) header ([sample_uid_field] @ [sample_auth c]) sample_uid sample_aead = Ret (Inr [])"
    by (rule sealed_accepted [OF sample_response(1) [OF len assms] _ _ _ sample_response(2) [OF len] _ _ _ c,
          where u = sample_uid_field and us = "[]"])
       (simp_all add: sample_auth_def sample_uid_field_def on_wire_def new_field_def sample_uid_def cookies_in_def len pad4_def)
  then show ?thesis using that len by simp
qed

lemma sealed_response_accepted_witness:
  "\<exists>c. VerifyAndDecryptResponse (\<lambda>k b. b) (replicate 48 0) ([sample_uid_field] @ [sample_auth c]) sample_uid sample_aead = Ret (Inr [])"
proof -
  obtain c where len: "length c = 16"
    and c: "aead_Seal (\<lambda>k b. b) sample_aead (replicate 12 0) [] (replicate 48 0 @ EncodeExtensionFields [sample_uid_field]) = Ret c"
    by (rule sample_sealed)
  have "VerifyAndDecryptResponse (\<lambda>k b. b) (replicate 48 0) ([sample_uid_field] @ [sample_auth c]) sample_uid sample_aead = Ret (Inr [])"
    by (rule sealed_response_accepted [OF sample_response(1) [OF len length_replicate] _ _ _ sample_response(2) [OF len] _ _ _ c,
          where u = sample_uid_field and us = "[]"])
       (simp_all add: sample_auth_def sample_uid_field_def on_wire_def new_field_def sample_uid_def cookies_in_def len pad4_def)
  then show ?thesis by blast
qed

lemma verified_response_is_sealed_witness:
  "\<exists>c signed auth nonce ciphertext padding plaintext. EncodeExtensionFields [sample_uid_field, sample_auth c] = signed @ ef_Wire auth @ [] \<and>
    [sample_uid_field, sample_auth c] = butlast [sample_uid_field, sample_auth c] @ [auth] \<and>
    ef_Type auth = ExtTypeAuthenticator \<and>
    sample_uid \<in> ef_Value ` {f \<in> set (butlast [sample_uid_field, sample_auth c]). ef_Type f = ExtTypeUniqueID} \<and>
    drop 8 (ef_Wire auth) = nonce @ ciphertext @ padding \<and>
    aead_Seal (\<lambda>k b. b) sample_aead nonce plaintext (replicate 48 0 @ signed) = Ret ciphertext \<and> cookies_in plaintext []"
proof -
  obtain c where "length c = 16"
    "VerifyAndDecryptResponse (\<lambda>k b. b) (replicate 48 0) [sample_uid_field, sample_auth c] sample_uid sample_aead = Ret (Inr [])"
    by (rule sample_accepted [of "replicate 48 0"]) simp
  from verified_response_is_sealed [OF sample_fields this(2), OF this(1)] show ?thesis by (rule exI [of _ c])
qed

text \<open>C25: (\<open>VerifyAndDecryptResponse\<close>) A response can crash the client. The nonce length is taken from the packet and
  \<open>Open\<close> panics on one it does not support before anything is authenticated: for every unique identifier of a request
  there is one well-formed sequence of extension fields on which verification panics whatever the session key and its algorithm,
  the block cipher and the header of the response; so whoever sees the request can make it.\<close>
theorem crafted_response_panics:
  assumes "length uid = 32"
  shows "\<exists>data fs. ParseExtensionFields data = Inr (fs, []) \<and>
    (\<forall>aes header a. length header = 48 \<longrightarrow> VerifyAndDecryptResponse aes header fs uid a = Panic)"
proof -
  define auth where "auth = on_wire (new_field ExtTypeAuthenticator ([0, 4, 0, 0] @ replicate 4 0))"
  define u where "u = on_wire (new_field ExtTypeUniqueID uid)"
  have wire: "list_all wire_field [u, auth]"
    using assms by (simp add: u_def auth_def on_wire_facts new_field_def pad4_def)
  have w: "ef_Wire auth = PutUint16 ExtTypeAuthenticator @ PutUint16 12 @ [0, 4, 0, 0] @ replicate 4 0"
    by (simp add: auth_def on_wire_def new_field_def encode_field_def pad4_def)
  have p: "pad4 32 = 0" by (simp add: pad4_def)
  have chk: "checkResponsePacketSize header [u, auth] = None" if "length header = 48" for header
    using assms that by (simp add: checkResponsePacketSize_def u_def auth_def on_wire_def new_field_def encode_field_def p
        paddedLength_def MaxPacketSize_def Let_def pad4_def)
  have n: "unat (Uint16 (slice (ef_Wire auth) 4 6)) = 4" "unat (Uint16 (slice (ef_Wire auth) 6 8)) = 0"
    by (simp_all add: w slice_def Uint16_def)
  have t: "ef_Type auth = ExtTypeAuthenticator" "ef_Type u = ExtTypeUniqueID" "ef_Value u = uid" "length (ef_Wire auth) = 12"
    "length (slice (ef_Wire auth) 8 12) = 4"
    using assms by (simp_all add: w slice_def) (simp_all add: auth_def u_def on_wire_def new_field_def p)
  have panic: "aead_Open aes a nonce c ad = Panic" if "length nonce = 4" for aes a nonce c ad
    using that by (cases a) (simp_all add: SivCMAC_Open_def SivGCM_Open_def)
  have "VerifyAndDecryptResponse aes header [u, auth] uid a = Panic" if "length header = 48" for aes header a
    by (simp add: VerifyAndDecryptResponse_def chk [OF that] t n panic Let_def)
  moreover have "ParseExtensionFields (EncodeExtensionFields [u, auth]) = Inr ([u, auth], [])"
    using wire by (simp add: extension_codec)
  ultimately show ?thesis by blast
qed

lemma crafted_response_panics_witness:
  "\<exists>data fs. ParseExtensionFields data = Inr (fs, []) \<and>
    VerifyAndDecryptResponse (\<lambda>k b. b) (replicate 48 0) fs (replicate 32 7) sample_aead = Panic \<and>
    VerifyAndDecryptResponse (\<lambda>k b. b + 1) (replicate 48 36) fs (replicate 32 7) sample_aead = Panic"
proof -
  obtain data fs where d: "ParseExtensionFields data = Inr (fs, [])"
    "\<And>aes header a. length header = 48 \<Longrightarrow> VerifyAndDecryptResponse aes header fs (replicate 32 7) a = Panic"
    using crafted_response_panics [of "replicate 32 7"] by auto
  then show ?thesis by (intro exI [of _ data] exI [of _ fs]) simp
qed

subsection \<open>The protected request\<close>

lemma length_filled: "length (filled n bs) = n"
  by (simp add: filled_def)

lemma length_auth_body:
  assumes "length nonce = aead_NonceSize a"
  shows "length (auth_body a nonce c) = 4 + aead_NonceSize a + aead_Overhead a" "pad4 (length (auth_body a nonce c)) = 0"
proof -
  have "length (auth_body a nonce c) = 4 + aead_NonceSize a + aead_Overhead a + pad4 (4 + aead_NonceSize a + aead_Overhead a)"
    unfolding auth_body_def Let_def length_filled using assms by simp
  moreover have "pad4 (4 + aead_NonceSize a + aead_Overhead a) = 0" by (cases a) (simp_all add: pad4_def)
  ultimately show "length (auth_body a nonce c) = 4 + aead_NonceSize a + aead_Overhead a" "pad4 (length (auth_body a nonce c)) = 0"
    by simp_all
qed

definition request_fields :: "bytes \<Rightarrow> bytes \<Rightarrow> nat \<Rightarrow> bytes \<Rightarrow> ExtensionField list" where
  "request_fields uid cookie n auth =
     [new_field ExtTypeUniqueID uid, new_field ExtTypeCookie cookie]
     @ replicate n (new_field ExtTypeCookiePlaceholder (replicate (length cookie) 0)) @ [new_field ExtTypeAuthenticator auth]"

text \<open>What the authenticator carries: the two lengths, the nonce and the sealing.\<close>

definition auth_content :: "bytes \<Rightarrow> bytes \<Rightarrow> bytes" where
  "auth_content nonce ct = PutUint16 (of_nat (length nonce)) @ PutUint16 (of_nat (length ct)) @ nonce @ ct"

lemma auth_body_content:
  assumes "length nonce = aead_NonceSize a" "length ct = aead_Overhead a"
  shows "auth_body a nonce ct = auth_content nonce ct"
proof -
  have "pad4 (4 + aead_NonceSize a + aead_Overhead a) = 0" by (cases a) (simp_all add: pad4_def)
  then show ?thesis using assms by (simp add: auth_body_def auth_content_def filled_def Let_def)
qed

text \<open>What the count of placeholders leaves room for: \<open>base\<close> bytes beside the cookies, \<open>field\<close> for each of them.\<close>

lemma placeholder_budget:
  fixes c :: nat and al :: AEAD
  assumes "requestPlaceholderCount (int c) k (Some al) = Inr cnt"
  defines "base \<equiv> 92 + int (aead_NonceSize al) + int (aead_Overhead al)" and "field \<equiv> int (4 + c + pad4 c)"
  shows "0 \<le> cnt" "cnt \<le> min k 7" "base + field \<le> MaxPacketSize"
    "0 < cnt \<Longrightarrow> base + (1 + cnt) * field \<le> PreferredPacketSize"
proof -
  have pl: "paddedLength 16 = 16" "paddedLength 12 = 12" by (simp_all add: paddedLength_def)
  have base: "base = 92 + paddedLength (int (aead_NonceSize al)) + paddedLength (int (aead_Overhead al))" "base \<le> 124"
    unfolding base_def by (cases al; simp add: pl)+
  have "validCookieSize (int c)" using assms(1) by (auto simp: requestPlaceholderCount_def split: if_splits)
  then have "1 \<le> (int c + 3) div 4" by (subst le_zdiv_iff) (simp_all add: validCookieSize_def Suc_le_eq)
  moreover have f: "field = 4 + paddedLength (int c)" by (simp add: field_def paddedLength_pad4)
  ultimately have field: "8 \<le> field" by (simp add: paddedLength_def)
  have c: "cnt = min k (min MaxPlaceholderCount (max 0 ((PreferredPacketSize - base) sdiv field - 1)))"
    and b: "base + field \<le> MaxPacketSize" and k: "0 \<le> k"
    using assms(1) by (auto simp: requestPlaceholderCount_def Let_def base(1) f not_less split: if_splits)
  show "0 \<le> cnt" "cnt \<le> min k 7" using k by (simp_all add: c MaxPlaceholderCount_def)
  show "base + field \<le> MaxPacketSize" by (rule b)
  assume "0 < cnt"
  moreover have "(PreferredPacketSize - base) sdiv field = (PreferredPacketSize - base) div field"
    using base(2) field by (simp add: signed_divide_int_def PreferredPacketSize_def)
  ultimately have "1 + cnt \<le> (PreferredPacketSize - base) div field" unfolding c by linarith
  then have "(1 + cnt) * field \<le> PreferredPacketSize - base" using field by (subst (asm) le_zdiv_iff) simp_all
  then show "base + (1 + cnt) * field \<le> PreferredPacketSize" by simp
qed

text \<open>C26: (\<open>BuildProtectedRequest\<close>) Every protected request is well formed, sealed and within its budget. With random sources
  that return the number of bytes asked for, it never panics, and fails only for a header of another size, a refused budget or
  a failing random source. When it succeeds the bytes parse, with nothing left over, to the fresh unique identifier that
  is returned, the cookie, at most as many placeholders as asked for and at most seven, each as long as the cookie, and the
  authenticator last. The authenticator carries the fresh nonce and the sealing, under the key of the session, of an empty
  plaintext with the header and every byte before the authenticator as associated data. The whole packet fits
  a UDP payload, and a packet with placeholders fits the preferred size.\<close>
theorem protected_request_wellformed:
  assumes "\<And>n b. rand1 n = Inr b \<Longrightarrow> length b = n" "\<And>n b. rand2 n = Inr b \<Longrightarrow> length b = n"
  shows "case BuildProtectedRequest aes rand1 rand2 header cookie k a of
      Panic \<Rightarrow> False
    | Ret (Inl e) \<Rightarrow> length header \<noteq> 48 \<or> (\<exists>e'. requestPlaceholderCount (int (length cookie)) k a = Inl e') \<or>
        (\<exists>e'. rand1 32 = Inl e') \<or> (\<exists>al e'. a = Some al \<and> rand2 (aead_NonceSize al) = Inl e')
    | Ret (Inr (ext, uid)) \<Rightarrow> \<exists>n al nonce ct signed.
        a = Some al \<and> rand1 32 = Inr uid \<and> rand2 (aead_NonceSize al) = Inr nonce \<and> length ct = aead_Overhead al \<and>
        ParseExtensionFields ext = Inr (map on_wire (request_fields uid cookie n (auth_content nonce ct)), []) \<and>
        ext = signed @ encode_field (new_field ExtTypeAuthenticator (auth_content nonce ct)) \<and>
        aead_Seal aes al nonce [] (header @ signed) = Ret ct \<and>
        length uid = 32 \<and> int n \<le> min k 7 \<and> 48 + int (length ext) \<le> MaxPacketSize \<and>
        (n = 0 \<or> 48 + int (length ext) \<le> PreferredPacketSize)"
proof (cases "length header = 48 \<and> (\<exists>cnt. requestPlaceholderCount (int (length cookie)) k a = Inr cnt)")
  case False
  then show ?thesis by (auto simp: BuildProtectedRequest_def split: sum.splits)
next
  case True
  then obtain cnt where hd: "length header = 48" and cnt: "requestPlaceholderCount (int (length cookie)) k a = Inr cnt" by blast
  then obtain al where al: "a = Some al" by (auto simp: requestPlaceholderCount_def Let_def split: if_splits option.splits)
  define base field n where "base = 92 + int (aead_NonceSize al) + int (aead_Overhead al)"
    and "field = int (4 + length cookie + pad4 (length cookie))" and "n = nat cnt"
  note bud = placeholder_budget [OF cnt [unfolded al], folded base_def field_def]
  have n: "int n = cnt" using bud(1) by (simp add: n_def)
  show ?thesis
  proof (cases "rand1 32")
    case (Inl e)
    then show ?thesis using hd cnt by (simp add: BuildProtectedRequest_def al)
  next
    case (Inr uid)
    show ?thesis
    proof (cases "rand2 (aead_NonceSize al)")
      case (Inl e)
      then show ?thesis using hd cnt Inr by (simp add: BuildProtectedRequest_def al Let_def)
    next
      case r2: (Inr nonce)
      have len: "length uid = 32" "length nonce = aead_NonceSize al" using assms Inr r2 by auto
      define pre where "pre = [new_field ExtTypeUniqueID uid, new_field ExtTypeCookie cookie]
        @ replicate n (new_field ExtTypeCookiePlaceholder (replicate (length cookie) 0))"
      obtain ct where ct: "aead_Seal aes al nonce [] (header @ EncodeExtensionFields pre) = Ret ct"
        using aead_no_panic [OF len(2)] by (metis outcome.exhaust)
      define auth where "auth = auth_body al nonce ct"
      note la = length_auth_body [OF len(2), of ct, folded auth_def]
      define ext where "ext = EncodeExtensionFields (request_fields uid cookie n auth)"
      have r: "BuildProtectedRequest aes rand1 rand2 header cookie k a = Ret (Inr (ext, uid))"
        using hd cnt Inr r2 ct
        by (simp add: BuildProtectedRequest_def al Let_def pre_def n_def ext_def auth_def request_fields_def)
      have p32: "pad4 32 = 0" by (simp add: pad4_def)
      have lext: "48 + int (length ext) = base + (1 + int n) * field"
        unfolding ext_def length_EncodeExtensionFields request_fields_def
        using la len(1)
        by (simp add: new_field_def sum_list_replicate p32 base_def field_def algebra_simps)
      have small: "length cookie + pad4 (length cookie) + 4 < 65536"
        using bud(3) by (simp add: base_def field_def MaxPacketSize_def)
      have "list_all (\<lambda>f. length (ef_Value f) + pad4 (length (ef_Value f)) + 4 < 65536) (request_fields uid cookie n auth)"
        using small la len(1) by (cases al) (auto simp: request_fields_def new_field_def p32 list_all_iff)
      then have "ParseExtensionFields ext = Inr (map on_wire (request_fields uid cookie n auth), [])"
        unfolding ext_def by (rule parse_sent_fields)
      moreover have "48 + int (length ext) \<le> MaxPacketSize"
        using bud(3,4) unfolding lext n by (cases "cnt = 0") (use bud(1) in \<open>auto simp: MaxPacketSize_def PreferredPacketSize_def\<close>)
      moreover have "n = 0 \<or> 48 + int (length ext) \<le> PreferredPacketSize" using bud(4) unfolding lext n [symmetric] by auto
      moreover have "int n \<le> min k 7" unfolding n by (rule bud(2))
      moreover have "length ct = aead_Overhead al" using aead_length [OF ct] by simp
      moreover from this have "auth = auth_content nonce ct" unfolding auth_def using len(2) by (intro auth_body_content)
      moreover have "ext = EncodeExtensionFields pre @ encode_field (new_field ExtTypeAuthenticator auth)"
        by (simp add: ext_def request_fields_def pre_def EncodeExtensionFields_def)
      ultimately show ?thesis unfolding r using len(1) al Inr r2 ct
        unfolding outcome.case sum.case prod.case
        by (intro exI [of _ n] exI [of _ al] exI [of _ nonce] exI [of _ ct] exI [of _ "EncodeExtensionFields pre"]) simp
    qed
  qed
qed

lemma protected_request_wellformed_witness:
  "\<exists>ext n nonce ct signed.
    BuildProtectedRequest (\<lambda>k b. b) (\<lambda>n. Inr (replicate n 5)) (\<lambda>n. Inr (replicate n 6)) (replicate 48 0) [1, 2, 3] 2 (Some sample_aead) =
      Ret (Inr (ext, replicate 32 5)) \<and>
    ParseExtensionFields ext = Inr (map on_wire (request_fields (replicate 32 5) [1, 2, 3] n (auth_content nonce ct)), []) \<and>
    aead_Seal (\<lambda>k b. b) sample_aead (replicate (aead_NonceSize sample_aead) 6) [] (replicate 48 0 @ signed) = Ret ct"
    (is "\<exists>ext n nonce ct signed. ?B = _ \<and> _")
proof -
  have c: "requestPlaceholderCount 3 2 (Some sample_aead) = Inr 2" by code_simp
  have shape: "case ?B of Panic \<Rightarrow> False
    | Ret (Inl e) \<Rightarrow> length (replicate 48 (0 :: 8 word)) \<noteq> 48 \<or>
        (\<exists>e'. requestPlaceholderCount (int (length [1, 2, 3 :: 8 word])) 2 (Some sample_aead) = Inl e') \<or>
        (\<exists>e'. (Inr (replicate 32 5) :: go_error + bytes) = Inl e') \<or>
        (\<exists>al e'. Some sample_aead = Some al \<and> (Inr (replicate (aead_NonceSize al) 6) :: go_error + bytes) = Inl e')
    | Ret (Inr (ext, uid)) \<Rightarrow> \<exists>n al nonce ct signed.
        Some sample_aead = Some al \<and> Inr (replicate 32 5) = (Inr uid :: go_error + bytes) \<and>
        Inr (replicate (aead_NonceSize al) 6) = (Inr nonce :: go_error + bytes) \<and> length ct = aead_Overhead al \<and>
        ParseExtensionFields ext = Inr (map on_wire (request_fields uid [1, 2, 3] n (auth_content nonce ct)), []) \<and>
        ext = signed @ encode_field (new_field ExtTypeAuthenticator (auth_content nonce ct)) \<and>
        aead_Seal (\<lambda>k b. b) al nonce [] (replicate 48 0 @ signed) = Ret ct \<and>
        length uid = 32 \<and> int n \<le> min 2 7 \<and> 48 + int (length ext) \<le> MaxPacketSize \<and>
        (n = 0 \<or> 48 + int (length ext) \<le> PreferredPacketSize)"
    by (rule protected_request_wellformed) auto
  obtain ext uid where B: "?B = Ret (Inr (ext, uid))"
    using shape c by (auto split: outcome.splits sum.splits)
  from shape [unfolded B outcome.case sum.case prod.case] show ?thesis unfolding B by blast
qed

end
