(* ===== verification/Config.thy ===== *)
theory Config
  imports CoreTypes Float64 "HOL-Library.List_Lexorder" "HOL-Library.Char_ord" "HOL-Library.Multiset"
begin

text \<open>
  The configuration (\<open>config/config.go\<close>): its limits and the canonical JSON of which the configuration
  identifier is the digest. The ppm bounds are finite float64 values, hence rational numbers. The JSON text
  of a scalar and of a key is the standard library's: the arguments \<open>marshal\<close> and \<open>marshalKey\<close>; so is
  the digest \<open>sha256\<close>. The source list is not nil (a nil one is marshalled to null).
\<close>

subsection \<open>Limits\<close>

record AssuranceConfig =
  ac_FaultBudget :: i64
  ac_MinVotingDomains :: i64
  ac_MinHonestCoverage :: i64
  ac_MaxWidthNs :: i64
  ac_MaxAgeNs :: i64
  ac_MaxHoldoverAgeNs :: i64

record RawConfig =
  rw_BackendProfile :: string
  rw_ScaleLowerPpm :: rat
  rw_ScaleUpperPpm :: rat
  rw_ReadBoundNs :: u64

record SourceConfig =
  src_FaultDomainID :: string
  src_Endpoint :: string
  src_NTS :: bool

record Config =
  cfg_Assurance :: AssuranceConfig
  cfg_Raw :: RawConfig
  cfg_Sources :: "SourceConfig list"

definition IsNTS :: "SourceConfig \<Rightarrow> bool" where
  "IsNTS s = src_NTS s"

definition DefaultConfig :: Config where
  "DefaultConfig =
    \<lparr>cfg_Assurance = \<lparr>ac_FaultBudget = 1, ac_MinVotingDomains = 3, ac_MinHonestCoverage = 2,
       ac_MaxWidthNs = 32 * 1000000000, ac_MaxAgeNs = 3 * 1024 * 1000000000, ac_MaxHoldoverAgeNs = 86400 * 1000000000\<rparr>,
     cfg_Raw = \<lparr>rw_BackendProfile = ''standard_monotonic'', rw_ScaleLowerPpm = - 200, rw_ScaleUpperPpm = 200,
       rw_ReadBoundNs = 1000\<rparr>,
     cfg_Sources = []\<rparr>"

definition Validate :: "Config \<Rightarrow> go_error option" where
  "Validate c =
    (let a = cfg_Assurance c; r = cfg_Raw c
     in if ac_FaultBudget a <s 0 then Some (Wrap ''faultBudget cannot be negative'' ErrInvalidConfig)
        else
          let minVoting = 2 * ac_FaultBudget a + 1
          in if ac_MinVotingDomains a <s minVoting then Some (Wrap ''minVotingDomains must be >= 2F+1'' ErrInvalidConfig)
             else if ac_MinHonestCoverage a <s 1 then Some (Wrap ''minHonestCoverage must be >= 1'' ErrInvalidConfig)
             else if ac_MaxAgeNs a <s 0 \<or> ac_MaxHoldoverAgeNs a <s 0
             then Some (Wrap ''age limits cannot be negative'' ErrInvalidConfig)
             else if ac_MaxWidthNs a \<le>s 0 then Some (Wrap ''maxWidthNs must be positive'' ErrInvalidConfig)
             else if rw_ScaleUpperPpm r < rw_ScaleLowerPpm r
             then Some (Wrap ''raw scale lower ppm cannot exceed upper ppm'' ErrInvalidConfig)
             else None)"

lemma DefaultConfig_valid: "Validate DefaultConfig = None"
  by (simp add: Validate_def DefaultConfig_def go_signed)

text \<open>What a valid configuration guarantees, for fault budgets whose double fits an int.\<close>

definition limits_hold :: "Config \<Rightarrow> bool" where
  "limits_hold c \<longleftrightarrow>
     (let a = cfg_Assurance c
      in 0 \<le> sint (ac_FaultBudget a) \<and> 2 * sint (ac_FaultBudget a) + 1 \<le> sint (ac_MinVotingDomains a)
         \<and> 1 \<le> sint (ac_MinHonestCoverage a) \<and> 0 \<le> sint (ac_MaxAgeNs a) \<and> 0 \<le> sint (ac_MaxHoldoverAgeNs a)
         \<and> 0 < sint (ac_MaxWidthNs a) \<and> rw_ScaleLowerPpm (cfg_Raw c) \<le> rw_ScaleUpperPpm (cfg_Raw c))"

lemma minVoting_exact: "0 \<le> sint f \<Longrightarrow> sint f < 2 ^ 62 \<Longrightarrow> sint (2 * f + 1 :: i64) = 2 * sint f + 1"
proof -
  assume f: "0 \<le> sint f" "sint f < 2 ^ 62"
  have "2 * f + 1 = word_of_int (2 * sint f + 1)" by simp
  then show ?thesis using f sint_of_int64 [of "2 * sint f + 1"] by (simp add: in_i64_def)
qed

text \<open>(\<open>Validate\<close>) A configuration with a fault budget below 2^62 is accepted exactly when all limits hold, the
  2F+1 rule among them, and every refusal is an invalid-configuration error. Above, the rule is not
  enforced: 2F+1 wraps, and a budget of 2^62 is accepted with a single voting domain.\<close>
theorem Validate_exact:
  assumes f: "sint (ac_FaultBudget (cfg_Assurance c)) < 2 ^ 62"
  shows "(Validate c = None \<longleftrightarrow> limits_hold c) \<and>
    (case Validate c of None \<Rightarrow> True | Some e \<Rightarrow> errors_Is e ErrInvalidConfig) \<and>
    Validate (DefaultConfig\<lparr>cfg_Assurance := (cfg_Assurance DefaultConfig)\<lparr>ac_FaultBudget := 2 ^ 62, ac_MinVotingDomains := 1\<rparr>\<rparr>) = None"
proof (intro conjI)
  show "Validate c = None \<longleftrightarrow> limits_hold c"
  proof (cases "0 \<le> sint (ac_FaultBudget (cfg_Assurance c))")
    case True
    then show ?thesis using minVoting_exact [OF True f]
      by (auto simp: Validate_def limits_hold_def Let_def go_signed split: if_splits)
  qed (simp add: Validate_def limits_hold_def Let_def go_signed)
  show "case Validate c of None \<Rightarrow> True | Some e \<Rightarrow> errors_Is e ErrInvalidConfig"
    by (simp add: Validate_def Let_def)
  show "Validate (DefaultConfig\<lparr>cfg_Assurance := (cfg_Assurance DefaultConfig)\<lparr>ac_FaultBudget := 2 ^ 62, ac_MinVotingDomains := 1\<rparr>\<rparr>) = None"
    by (simp add: Validate_def DefaultConfig_def go_signed)
qed

lemma Validate_exact_witness: "Validate DefaultConfig = None \<longleftrightarrow> limits_hold DefaultConfig"
  using Validate_exact [of DefaultConfig] by (simp add: DefaultConfig_def)

subsection \<open>Canonical JSON\<close>

text \<open>What \<open>json.Unmarshal\<close> makes of a document; the entries of an object stand in the order of a map iteration.\<close>

datatype 's json = JScalar 's | JArray "'s json list" | JObject "(string \<times> 's json) list"

fun join_items :: "(go_error + bytes) list \<Rightarrow> go_error + bytes" where
  "join_items [] = Inr []"
| "join_items (Inl e # xs) = Inl e"
| "join_items (Inr b # xs) = map_sum id ((@) (b @ (if xs = [] then [] else [44]))) (join_items xs)"

definition sort_entries :: "(string \<times> 'a) list \<Rightarrow> (string \<times> 'a) list" where
  "sort_entries kvs = sort_key fst kvs"

fun canonicalize :: "(string \<Rightarrow> bytes) \<Rightarrow> ('s \<Rightarrow> go_error + bytes) \<Rightarrow> 's json \<Rightarrow> go_error + bytes" where
  "canonicalize marshalKey marshal (JScalar s) = marshal s"
| "canonicalize marshalKey marshal (JArray items) =
     map_sum id (\<lambda>b. [91] @ b @ [93]) (join_items (map (canonicalize marshalKey marshal) items))"
| "canonicalize marshalKey marshal (JObject kvs) =
     map_sum id (\<lambda>b. [123] @ b @ [125])
       (join_items (map (\<lambda>(k, r). map_sum id (\<lambda>b. marshalKey k @ [58] @ b) r)
          (sort_entries (map (\<lambda>(k, v). (k, canonicalize marshalKey marshal v)) kvs))))"

text \<open>The same document, up to the order of the entries of its objects.\<close>

inductive same_document :: "'s json \<Rightarrow> 's json \<Rightarrow> bool" where
  scalar: "same_document (JScalar s) (JScalar s)"
| array: "list_all2 same_document xs ys \<Longrightarrow> same_document (JArray xs) (JArray ys)"
| object: "list_all2 (\<lambda>e e'. fst e = fst e' \<and> same_document (snd e) (snd e')) kvs kvs' \<Longrightarrow> mset kvs' = mset kvs'' \<Longrightarrow>
    distinct (map fst kvs) \<Longrightarrow> same_document (JObject kvs) (JObject kvs'')"

lemma sort_entries_mset:
  assumes "mset xs = mset ys" "distinct (map fst xs)"
  shows "sort_entries xs = sort_entries ys"
  unfolding sort_entries_def
  by (rule sort_key_inj_key_eq) (use assms in \<open>auto simp: distinct_map dest: mset_eq_setD\<close>)

text \<open>(\<open>canonicalize\<close>) The canonical bytes, and with them the configuration identifier, depend on the document
  only: whatever order the maps are iterated in, two readings of the same document give the same bytes
  or the same error.\<close>
theorem canonical_json_unique:
  assumes "same_document v w"
  shows "canonicalize marshalKey marshal v = canonicalize marshalKey marshal w"
  using assms
proof (induction rule: same_document.induct)
  case (array xs ys)
  then have "map (canonicalize marshalKey marshal) xs = map (canonicalize marshalKey marshal) ys"
    by (induction rule: list_all2_induct) auto
  then show ?case by (simp only: canonicalize.simps)
next
  case (object kvs kvs' kvs'')
  let ?c = "\<lambda>(k, v). (k, canonicalize marshalKey marshal v)"
  have e: "map ?c kvs = map ?c kvs'"
    using object.IH by (induction rule: list_all2_induct) auto
  have k: "map fst kvs = map fst kvs'"
    using object.IH by (induction rule: list_all2_induct) auto
  have "sort_entries (map ?c kvs') = sort_entries (map ?c kvs'')"
  proof (rule sort_entries_mset)
    show "mset (map ?c kvs') = mset (map ?c kvs'')" using object.hyps by simp
    show "distinct (map fst (map ?c kvs'))" using object.hyps k by (simp add: comp_def split_beta)
  qed
  then show ?case unfolding canonicalize.simps e by simp
qed simp

lemma canonical_json_unique_witness:
  "canonicalize (map of_char) Inr (JObject [(''b'', JScalar [49]), (''a'', JScalar [50])])
   = canonicalize (map of_char) Inr (JObject [(''a'', JScalar [50]), (''b'', JScalar [49])])"
  by (rule canonical_json_unique, rule same_document.object [of _ "[(''b'', JScalar [49]), (''a'', JScalar [50])]"])
    (auto intro: same_document.scalar)

subsection \<open>The configuration identifier\<close>

text \<open>
  The document that \<open>json.Marshal\<close> followed by \<open>json.Unmarshal\<close> into an \<open>any\<close> makes of a configuration: objects by the
  struct tags, and every number a float64.
\<close>

datatype json_scalar = JNumber rat | JString string | JBool bool

definition json_int :: "int \<Rightarrow> json_scalar json" where
  "json_int n = JScalar (JNumber (of_int (f64_of_int n)))"

definition source_document :: "SourceConfig \<Rightarrow> json_scalar json" where
  "source_document s =
    JObject [(''faultDomainId'', JScalar (JString (src_FaultDomainID s))),
             (''endpoint'', JScalar (JString (src_Endpoint s))), (''nts'', JScalar (JBool (src_NTS s)))]"

definition config_document :: "Config \<Rightarrow> json_scalar json" where
  "config_document c =
    (let a = cfg_Assurance c; r = cfg_Raw c
     in JObject
       [(''assurance'', JObject
          [(''faultBudget'', json_int (sint (ac_FaultBudget a))),
           (''minVotingDomains'', json_int (sint (ac_MinVotingDomains a))),
           (''minHonestCoverage'', json_int (sint (ac_MinHonestCoverage a))),
           (''maxWidthNs'', json_int (sint (ac_MaxWidthNs a))),
           (''maxAgeNs'', json_int (sint (ac_MaxAgeNs a))),
           (''maxHoldoverAgeNs'', json_int (sint (ac_MaxHoldoverAgeNs a)))]),
        (''raw'', JObject
          [(''backendProfile'', JScalar (JString (rw_BackendProfile r))),
           (''scaleLowerPpm'', JScalar (JNumber (rw_ScaleLowerPpm r))),
           (''scaleUpperPpm'', JScalar (JNumber (rw_ScaleUpperPpm r))),
           (''readBoundNs'', json_int (uint (rw_ReadBoundNs r)))]),
        (''sources'', JArray (map source_document (cfg_Sources c)))])"

definition CanonicalBytes :: "(string \<Rightarrow> bytes) \<Rightarrow> (json_scalar \<Rightarrow> go_error + bytes) \<Rightarrow> Config \<Rightarrow> go_error + bytes" where
  "CanonicalBytes marshalKey marshal c =
    (case Validate c of Some e \<Rightarrow> Inl e | None \<Rightarrow> canonicalize marshalKey marshal (config_document c))"

definition ConfigID ::
  "(bytes \<Rightarrow> bytes) \<Rightarrow> (string \<Rightarrow> bytes) \<Rightarrow> (json_scalar \<Rightarrow> go_error + bytes) \<Rightarrow> Config \<Rightarrow> go_error + bytes" where
  "ConfigID sha256 marshalKey marshal c = map_sum id sha256 (CanonicalBytes marshalKey marshal c)"

text \<open>Configurations whose integers all are exact float64 values, as those of the documentation are.\<close>

definition float_exact :: "Config \<Rightarrow> bool" where
  "float_exact c \<longleftrightarrow>
     (let a = cfg_Assurance c
      in \<bar>sint (ac_FaultBudget a)\<bar> < 2 ^ 53 \<and> \<bar>sint (ac_MinVotingDomains a)\<bar> < 2 ^ 53 \<and>
         \<bar>sint (ac_MinHonestCoverage a)\<bar> < 2 ^ 53 \<and> \<bar>sint (ac_MaxWidthNs a)\<bar> < 2 ^ 53 \<and>
         \<bar>sint (ac_MaxAgeNs a)\<bar> < 2 ^ 53 \<and> \<bar>sint (ac_MaxHoldoverAgeNs a)\<bar> < 2 ^ 53 \<and>
         uint (rw_ReadBoundNs (cfg_Raw c)) < 2 ^ 53)"

lemma source_document_inj: "source_document s = source_document t \<Longrightarrow> s = t"
  by (cases s; cases t) (simp add: source_document_def)

lemma json_int_eq: "\<bar>m\<bar> < 2 ^ 53 \<Longrightarrow> \<bar>n\<bar> < 2 ^ 53 \<Longrightarrow> json_int m = json_int n \<longleftrightarrow> m = n"
  by (simp add: json_int_def f64_of_int_exact)

text \<open>(\<open>config_document\<close>) The document of which the configuration identifier is the digest determines the configuration, as
  long as its integers are below 2^53.\<close>
theorem config_document_determines:
  assumes "float_exact c" "float_exact d" "config_document c = config_document d"
  shows "c = d"
proof -
  have "map source_document (cfg_Sources c) = map source_document (cfg_Sources d)"
    using assms(3) by (simp add: config_document_def Let_def)
  then have "cfg_Sources c = cfg_Sources d"
    by (rule map_injective) (simp add: inj_on_def source_document_inj)
  moreover have "cfg_Assurance c = cfg_Assurance d"
    using assms by (simp add: config_document_def Let_def float_exact_def json_int_eq sint_eq_iff64 [symmetric])
  moreover have "cfg_Raw c = cfg_Raw d"
    by (rule RawConfig.equality) (use assms in \<open>simp_all add: config_document_def Let_def float_exact_def json_int_eq word_uint_eq_iff\<close>)
  ultimately show ?thesis by simp
qed

lemma config_document_determines_witness: "DefaultConfig\<lparr>cfg_Sources := []\<rparr> = DefaultConfig"
  by (rule config_document_determines) (simp_all add: float_exact_def DefaultConfig_def)

text \<open>Beyond 2^53 it does not: these two valid configurations have the same identifier.\<close>

definition long_holdover :: "i64 \<Rightarrow> Config" where
  "long_holdover n = DefaultConfig\<lparr>cfg_Assurance := (cfg_Assurance DefaultConfig)\<lparr>ac_MaxHoldoverAgeNs := n\<rparr>\<rparr>"

theorem config_id_collision:
  "long_holdover (2 ^ 53) \<noteq> long_holdover (2 ^ 53 + 1) \<and>
   Validate (long_holdover (2 ^ 53)) = None \<and> Validate (long_holdover (2 ^ 53 + 1)) = None \<and>
   ConfigID sha256 marshalKey marshal (long_holdover (2 ^ 53)) = ConfigID sha256 marshalKey marshal (long_holdover (2 ^ 53 + 1))"
proof -
  have v: "Validate (long_holdover (2 ^ 53)) = None" "Validate (long_holdover (2 ^ 53 + 1)) = None"
    by (simp_all add: Validate_def long_holdover_def DefaultConfig_def go_signed)
  have "f64_of_int (2 ^ 53) = f64_of_int (2 ^ 53 + 1)" by code_simp
  then have "config_document (long_holdover (2 ^ 53)) = config_document (long_holdover (2 ^ 53 + 1))"
    by (simp add: config_document_def long_holdover_def json_int_def)
  then show ?thesis using v by (simp add: ConfigID_def CanonicalBytes_def long_holdover_def DefaultConfig_def)
qed

end
