(* ===== verification/Query.thy ===== *)
theory Query
  imports Service Measurement NtsPacket Config
begin

text \<open>
  The default querier of the sync engine (\<open>defaultSourceQuerier\<close> in \<open>sync.go\<close>): its NTP and NTS
  transports, the NTS key exchange over TLS, and the path from a response to a measurement in continuous
  time. Network, TLS, the wall clock and random bytes are the environment: what their calls return are
  arguments of the operations that make them, in the order of the calls.
\<close>

subsection \<open>Sessions\<close>

record ntsSession =
  ns_udpEndpoint :: bytes
  ns_c2sKey :: bytes
  ns_s2cKey :: bytes
  ns_c2sAead :: AEAD
  ns_s2cAead :: AEAD
  ns_jar :: CookieJar

text \<open>
  The default querier's raw clock, estimate clock and leap history are those of the service, and arguments of
  its operations.
\<close>

record defaultSourceQuerier =
  dq_timeout :: i64
  dq_ntsState :: "string \<Rightarrow> ntsSession option"

definition newDefaultSourceQuerier :: "i64 \<Rightarrow> defaultSourceQuerier" where
  "newDefaultSourceQuerier timeout = \<lparr>dq_timeout = timeout, dq_ntsState = (\<lambda>_. None)\<rparr>"

subsection \<open>The default querier: from the response to the measurement\<close>

text \<open>\<open>cmp.Or\<close>: the first argument that is not zero.\<close>

definition cmp_Or :: "i64 \<Rightarrow> i64 \<Rightarrow> i64" where
  "cmp_Or a b = (if a \<noteq> 0 then a else b)"

definition localUnixEstimate :: "EstimateMapping \<Rightarrow> LeapHistory \<Rightarrow> i64 \<Rightarrow> RawNanos \<Rightarrow> go_error + i64" where
  "localUnixEstimate snap lh wallNanos raw =
    (case Evaluate snap raw of
       Inr est \<Rightarrow>
         if 0 <s est then
           (let projection = GstInstantToUnixProjection lh est
            in if up_IsLeapSecond projection then Inl (Err ''local estimate is in a leap second'')
               else Inr (cmp_Or (up_Nanos projection) wallNanos))
         else Inr (cmp_Or 0 wallNanos)
     | Inl _ \<Rightarrow> Inr (cmp_Or 0 wallNanos))"

definition crosses_leap :: "i64 \<Rightarrow> i64 \<Rightarrow> LeapEntry \<Rightarrow> bool" where
  "crosses_leap firstSec lastSec e \<longleftrightarrow>
     le_TransitionUnixSecond e \<noteq> MinInt64 \<and> firstSec \<le>s le_TransitionUnixSecond e \<and> le_TransitionUnixSecond e - 1 \<le>s lastSec"

definition checkUnixInterval :: "LeapHistory \<Rightarrow> i64 \<Rightarrow> i64 \<Rightarrow> go_error option" where
  "checkUnixInterval lh lo hi =
    (if hi <s lo then Some ErrInvalidRange
     else if list_ex (crosses_leap (FloorDiv_nz lo 1000000000) (FloorDiv_nz hi 1000000000)) (lh_Entries lh)
     then Some (Err ''NTP interval crosses an ambiguous leap boundary'')
     else None)"

definition response_input :: "Packet \<Rightarrow> RawReading \<Rightarrow> RawReading \<Rightarrow> i64 \<Rightarrow> i64 \<Rightarrow> i64 \<Rightarrow> i64 \<Rightarrow> MeasurementInput" where
  "response_input resp r1 r4 t1Unix t2Unix t3Unix t4Unix =
    \<lparr>mi_T1LocalSendEstimate = t1Unix, mi_T2ServerRecv = t2Unix, mi_T3ServerTx = t3Unix, mi_T4LocalRecvEstimate = t4Unix,
     mi_LocalSendRaw = rr_Raw r1, mi_LocalRecvRaw = rr_Raw r4,
     mi_LocalEstimateAtMid = t1Unix + go_quot (t4Unix - t1Unix) 2,
     mi_ServerRootDispersionNs = RootDispersionNanoseconds resp, mi_ServerRootDelayNs = RootDelayNanoseconds resp,
     mi_LocalSendReadError = rr_ReadBound r1, mi_LocalRecvReadError = rr_ReadBound r4,
     mi_RemoteTimestampQuantization = 1000, mi_LocalMappingIntegrationErr = 1000,
     mi_StaticAsymmetryCorrection = 0, mi_StaticAsymmetryUncertainty = 0, mi_ProtocolConversionError = 0,
     mi_PrecisionFloorNs = 1000, mi_MaxServerTurnaroundNs = 2000000000, mi_MaxRootDistanceNs = 16000000000\<rparr>"

definition measureResponse ::
  "LeapHistory \<Rightarrow> i64 \<Rightarrow> Packet \<Rightarrow> RawReading \<Rightarrow> RawReading \<Rightarrow> i64 \<Rightarrow> i64 \<Rightarrow> go_error + MeasurementResult" where
  "measureResponse lh coarseSec resp r1 r4 t1Unix t4Unix =
    (if pk_Version resp \<noteq> 4 \<or> pk_Mode resp \<noteq> 4 \<or> pk_Stratum resp < 1 \<or> 15 < pk_Stratum resp \<or> pk_LeapIndicator resp \<noteq> 0
     then Inl (Err ''unsupported, unsynchronized, or leap-announcing NTP response'')
     else case UnfoldTimestamp (pk_RecvTimestamp resp) coarseSec of
       Inl e \<Rightarrow> Inl (Wrap ''failed to unfold T2'' e)
     | Inr t2Unix \<Rightarrow>
       (case UnfoldTimestamp (pk_TxTimestamp resp) coarseSec of
          Inl e \<Rightarrow> Inl (Wrap ''failed to unfold T3'' e)
        | Inr t3Unix \<Rightarrow>
          (case checkUnixInterval lh t2Unix t3Unix of
             Some e \<Rightarrow> Inl e
           | None \<Rightarrow>
             (case ComputeMeasurement (response_input resp r1 r4 t1Unix t2Unix t3Unix t4Unix) of
                Inl e \<Rightarrow> Inl e
              | Inr m \<Rightarrow>
                (case checkUnixInterval lh (Earliest (mr_HardInterval m)) (Latest (mr_HardInterval m)) of
                   Some e \<Rightarrow> Inl e
                 | None \<Rightarrow>
                   (case UnixNanosToGstInstant lh (Earliest (mr_HardInterval m)) of
                      Inl e \<Rightarrow> Inl e
                    | Inr lo \<Rightarrow>
                      (case UnixNanosToGstInstant lh (Latest (mr_HardInterval m)) of
                         Inl e \<Rightarrow> Inl e
                       | Inr hi \<Rightarrow>
                         (case UnixNanosToGstInstant lh (mr_Center m) of
                            Inl e \<Rightarrow> Inl e
                          | Inr center \<Rightarrow> Inr (m\<lparr>mr_HardInterval := interval lo hi, mr_Center := center\<rparr>)))))))))"

subsection \<open>The transports\<close>

text \<open>
  What a query gets from its environment: the results of dialling, writing (given the bytes) and reading (given
  the bytes written), the guarded readings and estimate snapshots at sending and receiving, the wall clock.
\<close>

record query_env =
  qe_dial :: "go_error option"
  qe_write :: "bytes \<Rightarrow> go_error option"
  qe_read :: "bytes \<Rightarrow> go_error + bytes"
  qe_r1 :: RawReading
  qe_est1 :: EstimateMapping
  qe_wall1 :: i64
  qe_r4 :: RawReading
  qe_est4 :: EstimateMapping
  qe_wall4 :: i64
  qe_coarse :: i64

definition client_header :: bytes where
  "client_header = Packet_Encode
     \<lparr>pk_LeapIndicator = 0, pk_Version = 4, pk_Mode = 3, pk_Stratum = 0, pk_Poll = 6, pk_Precision = 0, pk_RootDelay = 0,
      pk_RootDisp = 0, pk_RefID = replicate 4 0, pk_RefTimestamp = replicate 8 0, pk_OrigTimestamp = replicate 8 0,
      pk_RecvTimestamp = replicate 8 0, pk_TxTimestamp = replicate 8 0, pk_Extension = [], pk_Raw = []\<rparr>"

definition queryNTP :: "LeapHistory \<Rightarrow> query_env \<Rightarrow> go_error + MeasurementResult" where
  "queryNTP lh q =
    (case qe_dial q of Some e \<Rightarrow> Inl e | None \<Rightarrow>
     case localUnixEstimate (qe_est1 q) lh (qe_wall1 q) (rr_Raw (qe_r1 q)) of Inl e \<Rightarrow> Inl e | Inr t1Unix \<Rightarrow>
     case qe_write q client_header of Some e \<Rightarrow> Inl e | None \<Rightarrow>
     case qe_read q client_header of Inl e \<Rightarrow> Inl e | Inr datagram \<Rightarrow>
     case localUnixEstimate (qe_est4 q) lh (qe_wall4 q) (rr_Raw (qe_r4 q)) of Inl e \<Rightarrow> Inl e | Inr t4Unix \<Rightarrow>
     case ParsePacket (take 1024 datagram) of Inl e \<Rightarrow> Inl e | Inr resp \<Rightarrow>
       if fst (IsKissOfDeath resp) then Inl (Err ''kiss-of-death received'')
       else measureResponse lh (qe_coarse q) resp (qe_r1 q) (qe_r4 q) t1Unix t4Unix)"

text \<open>
  The TLS side of a key exchange: the negotiated protocol, the stream of the server's bytes, the exporter, the peer's
  address; \<open>parseIP\<close> as in \<open>ReadServerResponse\<close>.
\<close>

record tls_env =
  te_dial :: "go_error option"
  te_protocol :: string
  te_write :: "bytes \<Rightarrow> go_error option"
  te_stream :: bytes
  te_exporter :: "string \<Rightarrow> bytes \<Rightarrow> nat \<Rightarrow> go_error + bytes"
  te_remoteHost :: "go_error + bytes"

definition JoinHostPort :: "bytes \<Rightarrow> bytes \<Rightarrow> bytes" where
  "JoinHostPort host port = (if 58 \<in> set host then [91] @ host @ [93, 58] @ port else host @ [58] @ port)"

definition Itoa :: "nat \<Rightarrow> bytes" where
  "Itoa n = map of_char (decimal 20 n)"

definition negotiateNTSKE :: "(bytes \<Rightarrow> bytes option) \<Rightarrow> (bytes \<Rightarrow> bytes) \<Rightarrow> tls_env \<Rightarrow> go_error + ntsSession" where
  "negotiateNTSKE parseIP sha256 t =
    (case te_dial t of Some e \<Rightarrow> Inl e | None \<Rightarrow>
     if te_protocol t \<noteq> ''ntske/1'' then Inl (Err ''NTS-KE ALPN was not negotiated'')
     else case te_write t (BuildClientRequest [15, 30] True) of Some e \<Rightarrow> Inl e | None \<Rightarrow>
     case ReadServerResponse parseIP (te_stream t) [15, 30] of Inl e \<Rightarrow> Inl e | Inr response \<Rightarrow>
     case ExportDirectionalKeys (te_exporter t) 0 (ke_AEAD response) of
       Inl e \<Rightarrow> Inl (Wrap ''failed to export NTS directional keys'' e) | Inr (c2sKey, s2cKey) \<Rightarrow>
     case NewAEAD (ke_AEAD response) c2sKey of Inl e \<Rightarrow> Inl e | Inr c2sAead \<Rightarrow>
     case NewAEAD (ke_AEAD response) s2cKey of Inl e \<Rightarrow> Inl e | Inr s2cAead \<Rightarrow>
     case (if ke_ServerName response = [] then te_remoteHost t else Inr (ke_ServerName response)) of Inl e \<Rightarrow> Inl e | Inr udpHost \<Rightarrow>
     let (added, jar) = AddCookies sha256 NewCookieJar (ke_Cookies response)
     in if added = 0 then Inl (Err ''NTS-KE supplied no usable cookies'')
        else Inr \<lparr>ns_udpEndpoint = JoinHostPort udpHost (Itoa (unat (ke_Port response))), ns_c2sKey = c2sKey, ns_s2cKey = s2cKey,
                  ns_c2sAead = c2sAead, ns_s2cAead = s2cAead, ns_jar = jar\<rparr>)"

text \<open>\<open>crypto\<close>: what the authenticated transport takes from libraries, and from the source of randomness.\<close>

record crypto_env =
  cy_aes :: block_cipher
  cy_sha256 :: "bytes \<Rightarrow> bytes"
  cy_parseIP :: "bytes \<Rightarrow> bytes option"
  cy_rand1 :: "nat \<Rightarrow> go_error + bytes"
  cy_rand2 :: "nat \<Rightarrow> go_error + bytes"

text \<open>The session to use: the stored one, or a fresh one when there is none or its cookies run low.\<close>

definition ensure_session ::
  "crypto_env \<Rightarrow> tls_env \<Rightarrow> string \<Rightarrow> defaultSourceQuerier \<Rightarrow> go_error + ntsSession \<times> defaultSourceQuerier" where
  "ensure_session cy t endpoint d =
    (case dq_ntsState d endpoint of
       Some sess \<Rightarrow>
         if NeedsReplenishment (ns_jar sess)
         then (case negotiateNTSKE (cy_parseIP cy) (cy_sha256 cy) t of
                 Inl e \<Rightarrow> Inl (Wrap ''NTS-KE negotiation failed'' e)
               | Inr new \<Rightarrow> Inr (new, d\<lparr>dq_ntsState := (dq_ntsState d)(endpoint \<mapsto> new)\<rparr>))
         else Inr (sess, d)
     | None \<Rightarrow>
         (case negotiateNTSKE (cy_parseIP cy) (cy_sha256 cy) t of
            Inl e \<Rightarrow> Inl (Wrap ''NTS-KE negotiation failed'' e)
          | Inr new \<Rightarrow> Inr (new, d\<lparr>dq_ntsState := (dq_ntsState d)(endpoint \<mapsto> new)\<rparr>)))"

text \<open>
  One exchange within a session. The result is that of the query; the jar is that of the session afterwards, whatever the
  result. A verification that panics ends the program.
\<close>

definition nts_receive ::
  "crypto_env \<Rightarrow> LeapHistory \<Rightarrow> query_env \<Rightarrow> ntsSession \<Rightarrow> CookieJar \<Rightarrow> ManagedCookie \<Rightarrow> bytes \<Rightarrow> i64 \<Rightarrow> bytes \<Rightarrow>
    ((go_error + MeasurementResult) \<times> CookieJar) outcome" where
  "nts_receive cy lh q sess jar cookie uniqueID t1Unix datagram =
    (let buf = take (nat MaxPacketSize + 1) datagram
     in if nat MaxPacketSize < length buf then Ret (Inl ErrPacketTooLarge, jar)
        else if length buf < 48 then Ret (Inl (Err ''response packet too short for NTP header''), jar)
        else case localUnixEstimate (qe_est4 q) lh (qe_wall4 q) (rr_Raw (qe_r4 q)) of Inl e \<Rightarrow> Ret (Inl e, jar) | Inr t4Unix \<Rightarrow>
        case ParsePacket buf of Inl e \<Rightarrow> Ret (Inl e, jar) | Inr resp \<Rightarrow>
        case ParseExtensionFields (drop 48 buf) of
          Inl e \<Rightarrow> Ret (Inl (Wrap ''failed to parse extension fields'' e), jar) | Inr (extFields, _) \<Rightarrow>
        case VerifyAndDecryptResponse (cy_aes cy) (take 48 buf) extFields uniqueID (ns_s2cAead sess) of
          Panic \<Rightarrow> Panic
        | Ret (Inl e) \<Rightarrow> Ret (Inl (Wrap ''NTS response verification failed'' e), jar)
        | Ret (Inr newCookies) \<Rightarrow>
          let jar1 = MarkSpent jar (mc_ID cookie);
              jar2 = (if newCookies \<noteq> [] then snd (AddCookies (cy_sha256 cy) jar1 newCookies) else jar1)
          in Ret (measureResponse lh (qe_coarse q) resp (qe_r1 q) (qe_r4 q) t1Unix t4Unix, jar2))"

definition nts_exchange ::
  "crypto_env \<Rightarrow> LeapHistory \<Rightarrow> query_env \<Rightarrow> ntsSession \<Rightarrow> ((go_error + MeasurementResult) \<times> CookieJar) outcome" where
  "nts_exchange cy lh q sess =
    (case AcquireForRequest (ns_jar sess) False of
       (Inl e, jar) \<Rightarrow> Ret (Inl (Wrap ''failed to acquire NTS cookie'' e), jar)
     | (Inr cookie, jar) \<Rightarrow>
       (case qe_dial q of Some e \<Rightarrow> Ret (Inl e, jar) | None \<Rightarrow>
        case BuildProtectedRequest (cy_aes cy) (cy_rand1 cy) (cy_rand2 cy) client_header (mc_Bytes cookie)
               (CalculatePlaceholderCount jar) (Some (ns_c2sAead sess)) of
          Panic \<Rightarrow> Panic
        | Ret (Inl e) \<Rightarrow> Ret (Inl (Wrap ''failed to build NTS protected request'' e), jar)
        | Ret (Inr (extBytes, uniqueID)) \<Rightarrow>
          (case localUnixEstimate (qe_est1 q) lh (qe_wall1 q) (rr_Raw (qe_r1 q)) of Inl e \<Rightarrow> Ret (Inl e, jar) | Inr t1Unix \<Rightarrow>
           case qe_write q (client_header @ extBytes) of Some e \<Rightarrow> Ret (Inl e, jar) | None \<Rightarrow>
           case qe_read q (client_header @ extBytes) of Inl e \<Rightarrow> Ret (Inl e, jar) | Inr datagram \<Rightarrow>
             nts_receive cy lh q sess jar cookie uniqueID t1Unix datagram)))"

definition queryNTS ::
  "crypto_env \<Rightarrow> tls_env \<Rightarrow> LeapHistory \<Rightarrow> query_env \<Rightarrow> string \<Rightarrow> defaultSourceQuerier \<Rightarrow>
    ((go_error + MeasurementResult) \<times> defaultSourceQuerier) outcome" where
  "queryNTS cy t lh q endpoint d =
    (case ensure_session cy t endpoint d of
       Inl e \<Rightarrow> Ret (Inl e, d)
     | Inr (sess, d1) \<Rightarrow>
       (case nts_exchange cy lh q sess of
          Panic \<Rightarrow> Panic
        | Ret (res, jar) \<Rightarrow> Ret (res, d1\<lparr>dq_ntsState := (dq_ntsState d1)(endpoint \<mapsto> sess\<lparr>ns_jar := jar\<rparr>)\<rparr>)))"

definition QuerySource ::
  "crypto_env \<Rightarrow> tls_env \<Rightarrow> LeapHistory \<Rightarrow> query_env \<Rightarrow> SourceConfig \<Rightarrow> defaultSourceQuerier \<Rightarrow>
    ((go_error + MeasurementResult) \<times> defaultSourceQuerier) outcome" where
  "QuerySource cy t lh q src d =
    (if src_NTS src then queryNTS cy t lh q (src_Endpoint src) d else Ret (queryNTP lh q, d))"


subsection \<open>Measured responses contain true time\<close>

text \<open>Away from the transitions the conversion of POSIX times is a translation.\<close>

lemma unix_loop_const:
  assumes "\<not> list_ex (crosses_leap f l) es" "sint f \<le> sint s" "sint s \<le> sint l"
  shows "unix_loop s es c = unix_loop f es c"
  using assms(1)
proof (induction es arbitrary: c)
  case (Cons e es)
  define T where "T = le_TransitionUnixSecond e"
  have nc: "\<not> crosses_leap f l e" and ih: "unix_loop s es c = unix_loop f es c" for c
    using Cons by simp_all
  show ?case
  proof (cases "T = MinInt64")
    case True
    then have "T \<le>s s" "T \<le>s f" using sint64_ge [of s] sint64_ge [of f] by (simp_all add: go_signed)
    then show ?thesis using True ih by (simp add: T_def)
  next
    case False
    then have "sint T \<noteq> - (2 ^ 63)" by (metis sint_MinInt64 sint_eqI)
    then have "- (2 ^ 63) \<le> sint T - 1" using sint64_ge [of T] by linarith
    then have T1: "sint (T - 1) = sint T - 1"
      using sint64_lt [of T] by (subst sint_sub_exact) (simp_all add: in_i64_def)
    have "\<not> (sint f \<le> sint T \<and> sint T - 1 \<le> sint l)"
      using nc False T1 by (simp add: crosses_leap_def T_def [symmetric] go_signed)
    then have "s \<noteq> T - 1" "f \<noteq> T - 1" "T \<le>s s \<longleftrightarrow> T \<le>s f"
      using assms(2,3) T1 by (auto simp: go_signed)
    then show ?thesis using ih by (simp add: T_def)
  qed
qed simp

lemma unix_window_translates:
  assumes "checkUnixInterval lh lo hi = None" "UnixNanosToGstInstant lh lo = Inr a" "UnixNanosToGstInstant lh hi = Inr b"
    and u: "sint lo \<le> sint u" "sint u \<le> sint hi"
  shows "\<exists>g. UnixNanosToGstInstant lh u = Inr g \<and> sint g = sint u + (sint a - sint lo)"
proof -
  define sec where "sec = (\<lambda>x :: i64. FloorDiv_nz x 1000000000)"
  have ok: "\<not> list_ex (crosses_leap (sec lo) (sec hi)) (lh_Entries lh)"
    using assms(1) by (auto simp: checkUnixInterval_def sec_def split: if_splits)
  have mono: "sint (sec x) \<le> sint (sec y)" if "sint x \<le> sint y" for x y
    using that by (simp add: sec_def FloorDiv_nz_1e9 zdiv_mono1)
  have loop: "unix_loop (sec v) (lh_Entries lh) 0 = unix_loop (sec lo) (lh_Entries lh) 0"
    if "sint lo \<le> sint v" "sint v \<le> sint hi" for v
    by (rule unix_loop_const [OF ok]) (use that in \<open>simp_all add: mono\<close>)
  from assms(2) obtain D where D: "unix_loop (sec lo) (lh_Entries lh) 0 = Inr D"
    "\<not> (go_quot MaxInt64 1000000000 <s D \<or> D <s go_quot MinInt64 1000000000)"
    "\<not> willOffsetOverflow lo (D * 1000000000)" "a = lo + D * 1000000000"
    by (auto simp: UnixNanosToGstInstant_def Let_def sec_def split: sum.splits if_splits)
  have hi: "\<not> willOffsetOverflow hi (D * 1000000000)"
    using assms(3) loop [of hi] D(1) u by (auto simp: UnixNanosToGstInstant_def Let_def sec_def split: sum.splits if_splits)
  define off where "off = D * 1000000000"
  have b: "in_i64 (sint lo + sint off)" "in_i64 (sint hi + sint off)"
    using D(3) hi by (simp_all add: willOffsetOverflow_exact off_def)
  have bu: "in_i64 (sint u + sint off)" by (rule in_i64_between [OF b]) (use u in simp_all)
  have "UnixNanosToGstInstant lh u = Inr (u + off)"
    using D(1,2) loop [OF u] bu
    unfolding sec_def off_def UnixNanosToGstInstant_def by (simp add: Let_def willOffsetOverflow_exact)
  moreover have "sint (u + off) = sint u + sint off" "sint a - sint lo = sint off"
    using bu b(1) D(4) by (simp_all add: sint_add_exact off_def)
  ultimately show ?thesis by simp
qed

text \<open>The middle of the exchange is read within the bound the measurement gives it.\<close>

lemma midpoint_bound:
  fixes x y a b h e r :: real
  assumes "\<bar>x - a\<bar> \<le> e" "\<bar>y - b\<bar> \<le> e" "2 * h + r = b - a" "0 \<le> r"
  shows "\<bar>(x + y) / 2 - (a + h)\<bar> \<le> e + r"
proof -
  have "x - a \<le> e" "a - x \<le> e" "y - b \<le> e" "b - y \<le> e" using assms(1,2) by linarith+
  then show ?thesis using assms(3,4) by (simp add: abs_le_iff field_simps)
qed

lemma raw_mid_reads:
  assumes "ComputeMeasurement inp = Inr m"
    and "reads \<rho>1 (mi_LocalSendRaw inp) (mi_LocalSendReadError inp)" "reads \<rho>4 (mi_LocalRecvRaw inp) (mi_LocalRecvReadError inp)"
  shows "reads ((\<rho>1 + \<rho>4) / 2) (mr_RawMid m) (mr_RawMidReadBound m)"
proof -
  define r1 r4 where "r1 = mi_LocalSendRaw inp" and "r4 = mi_LocalRecvRaw inp"
  define bm rounding where "bm = max (mi_LocalSendReadError inp) (mi_LocalRecvReadError inp)" and "rounding = (r4 - r1) AND 1"
  from assms(1) have ok: "r1 \<le> r4" "bm \<le> MaxInt64 - rounding" "mr_RawMid m = r1 + (r4 - r1) div 2" "mr_RawMidReadBound m = bm + rounding"
    by (auto simp: ComputeMeasurement_def Let_def r1_def r4_def bm_def rounding_def not_less split: if_splits)
  have d: "uint (r4 - r1) = uint r4 - uint r1" using ok(1) by (rule uint_sub_exact)
  have rnd: "uint rounding = (uint r4 - uint r1) mod 2"
    by (simp add: rounding_def d [symmetric] uint_and and_one_eq uint_mod)
  have "uint ((r4 - r1) div 2) = (uint r4 - uint r1) div 2" by (simp add: d [symmetric] uint_div)
  moreover have "(uint r4 - uint r1) div 2 + uint r1 \<le> uint r4" "0 \<le> (uint r4 - uint r1) div 2"
    using ok(1) by (simp_all add: word_le_def)
  ultimately have mid: "uint (mr_RawMid m) = uint r1 + (uint r4 - uint r1) div 2"
    unfolding ok(3) using uint64_lt [of r4] by (subst uint_add_exact) simp_all
  have "rounding \<le> MaxInt64" using rnd by (simp add: word_le_def)
  then have "uint (MaxInt64 - rounding) = uint MaxInt64 - uint rounding" by (rule uint_sub_exact)
  then have "uint bm + uint rounding \<le> 2 ^ 63 - 1" using ok(2) by (simp add: word_le_def)
  then have bound: "uint (mr_RawMidReadBound m) = uint bm + uint rounding"
    unfolding ok(4) by (subst uint_add_exact) simp_all
  have "uint (mi_LocalSendReadError inp) \<le> uint bm" "uint (mi_LocalRecvReadError inp) \<le> uint bm"
    by (auto simp: bm_def max_def word_le_def)
  then have "\<bar>\<rho>1 - real_of_int (uint r1)\<bar> \<le> real_of_int (uint bm)" "\<bar>\<rho>4 - real_of_int (uint r4)\<bar> \<le> real_of_int (uint bm)"
    using assms(2,3) unfolding reads_def r1_def r4_def by (meson of_int_le_iff order_trans)+
  moreover have "2 * ((uint r4 - uint r1) div 2) + uint rounding = uint r4 - uint r1" "0 \<le> uint rounding"
    unfolding rnd by simp_all
  then have "2 * real_of_int ((uint r4 - uint r1) div 2) + real_of_int (uint rounding) = real_of_int (uint r4) - real_of_int (uint r1)"
    "0 \<le> real_of_int (uint rounding)"
    by linarith+
  ultimately show ?thesis unfolding reads_def mid bound of_int_add by (intro midpoint_bound)
qed

lemma measureResponse_Inr:
  assumes "measureResponse lh coarse resp r1 r4 t1 t4 = Inr m"
    and "UnfoldTimestamp (pk_RecvTimestamp resp) coarse = Inr t2" "UnfoldTimestamp (pk_TxTimestamp resp) coarse = Inr t3"
  obtains m0 lo hi where "ComputeMeasurement (response_input resp r1 r4 t1 t2 t3 t4) = Inr m0"
    "checkUnixInterval lh (Earliest (mr_HardInterval m0)) (Latest (mr_HardInterval m0)) = None"
    "UnixNanosToGstInstant lh (Earliest (mr_HardInterval m0)) = Inr lo" "UnixNanosToGstInstant lh (Latest (mr_HardInterval m0)) = Inr hi"
    "mr_HardInterval m = interval lo hi" "mr_RawMid m = mr_RawMid m0" "mr_RawMidReadBound m = mr_RawMidReadBound m0"
  using assms by (auto simp: measureResponse_def split: if_splits sum.splits option.splits)

lemma response_input_simps [simp]:
  "mi_T1LocalSendEstimate (response_input resp r1 r4 t1 t2 t3 t4) = t1" "mi_T2ServerRecv (response_input resp r1 r4 t1 t2 t3 t4) = t2"
  "mi_T3ServerTx (response_input resp r1 r4 t1 t2 t3 t4) = t3" "mi_T4LocalRecvEstimate (response_input resp r1 r4 t1 t2 t3 t4) = t4"
  "mi_LocalSendRaw (response_input resp r1 r4 t1 t2 t3 t4) = rr_Raw r1" "mi_LocalRecvRaw (response_input resp r1 r4 t1 t2 t3 t4) = rr_Raw r4"
  "mi_LocalSendReadError (response_input resp r1 r4 t1 t2 t3 t4) = rr_ReadBound r1"
  "mi_LocalRecvReadError (response_input resp r1 r4 t1 t2 t3 t4) = rr_ReadBound r4"
  "mi_ServerRootDispersionNs (response_input resp r1 r4 t1 t2 t3 t4) = RootDispersionNanoseconds resp"
  "mi_ServerRootDelayNs (response_input resp r1 r4 t1 t2 t3 t4) = RootDelayNanoseconds resp"
  "mi_RemoteTimestampQuantization (response_input resp r1 r4 t1 t2 t3 t4) = 1000"
  "mi_LocalMappingIntegrationErr (response_input resp r1 r4 t1 t2 t3 t4) = 1000"
  "symmetric_exchange (response_input resp r1 r4 t1 t2 t3 t4)"
  by (simp_all add: response_input_def symmetric_exchange_def)

text \<open>C6: (\<open>measureResponse\<close>) The interval taken from a response contains true time. Let the server's clock follow POSIX
  time to within its root dispersion, half its root delay and the quantization, and our clock measure the round
  trip to within its errors. Then the POSIX interval measured contains the middle of the exchange, it lies where POSIX time
  and continuous instants differ by a constant, the hard interval is that interval so translated, and the
  raw middle is read within its bound.\<close>
theorem measured_response_contains_true_time:
  fixes send recv a2 a3 :: real
  assumes "measureResponse lh coarse resp r1 r4 t1 t4 = Inr m"
    and "UnfoldTimestamp (pk_RecvTimestamp resp) coarse = Inr t2" "UnfoldTimestamp (pk_TxTimestamp resp) coarse = Inr t3"
    and "measurement_bounded (response_input resp r1 r4 t1 t2 t3 t4)"
    and "send \<le> a2" "a2 \<le> a3" "a3 \<le> recv" "\<bar>of_int (sint t2) - a2\<bar> \<le> E" "\<bar>of_int (sint t3) - a3\<bar> \<le> E"
    and "E + 2 \<le> of_int (sint (RootDispersionNanoseconds resp) + sint (RootDelayNanoseconds resp) sdiv 2 + 1000)"
    and "\<bar>of_int (sint t4 - sint t1) - (recv - send)\<bar> \<le> of_int (uint (rr_ReadBound r1) + uint (rr_ReadBound r4) + 1000)"
    and "reads \<rho>1 (rr_Raw r1) (rr_ReadBound r1)" "reads \<rho>4 (rr_Raw r4) (rr_ReadBound r4)"
  shows "\<exists>lo hi offset. of_int lo \<le> (send + recv) / 2 \<and> (send + recv) / 2 \<le> of_int hi \<and>
    (\<forall>u. lo \<le> sint u \<and> sint u \<le> hi \<longrightarrow> (\<exists>g. UnixNanosToGstInstant lh u = Inr g \<and> sint g = sint u + offset)) \<and>
    encloses (mr_HardInterval m) ((send + recv) / 2 + of_int offset) \<and>
    reads ((\<rho>1 + \<rho>4) / 2) (mr_RawMid m) (mr_RawMidReadBound m)"
proof -
  obtain m0 lo hi where m0: "ComputeMeasurement (response_input resp r1 r4 t1 t2 t3 t4) = Inr m0"
    and w: "checkUnixInterval lh (Earliest (mr_HardInterval m0)) (Latest (mr_HardInterval m0)) = None"
      "UnixNanosToGstInstant lh (Earliest (mr_HardInterval m0)) = Inr lo" "UnixNanosToGstInstant lh (Latest (mr_HardInterval m0)) = Inr hi"
    and m: "mr_HardInterval m = interval lo hi" "mr_RawMid m = mr_RawMid m0" "mr_RawMidReadBound m = mr_RawMidReadBound m0"
    by (rule measureResponse_Inr [OF assms(1-3)])
  have c: "of_int (sint (Earliest (mr_HardInterval m0))) \<le> (send + recv) / 2 \<and> (send + recv) / 2 \<le> of_int (sint (Latest (mr_HardInterval m0)))"
    by (rule measured_interval_encloses [OF m0 assms(4) _ assms(5-7)]) (use assms(8-11) in simp_all)
  then have le: "sint (Earliest (mr_HardInterval m0)) \<le> sint (Latest (mr_HardInterval m0))" by linarith
  define offset where "offset = sint lo - sint (Earliest (mr_HardInterval m0))"
  have tr: "\<exists>g. UnixNanosToGstInstant lh u = Inr g \<and> sint g = sint u + offset"
    if "sint (Earliest (mr_HardInterval m0)) \<le> sint u" "sint u \<le> sint (Latest (mr_HardInterval m0))" for u
    unfolding offset_def by (rule unix_window_translates [OF w that])
  have "sint hi = sint (Latest (mr_HardInterval m0)) + offset" using tr [of "Latest (mr_HardInterval m0)"] le w(3) by simp
  then have "encloses (mr_HardInterval m) ((send + recv) / 2 + of_int offset)"
    using c by (simp add: encloses_def m(1) offset_def)
  moreover have "reads ((\<rho>1 + \<rho>4) / 2) (mr_RawMid m) (mr_RawMidReadBound m)"
    unfolding m by (rule raw_mid_reads [OF m0]) (use assms(12,13) in simp_all)
  ultimately show ?thesis using c tr by blast
qed

definition sample_response_packet :: Packet where
  "sample_response_packet =
    \<lparr>pk_LeapIndicator = 0, pk_Version = 4, pk_Mode = 4, pk_Stratum = 1, pk_Poll = 6, pk_Precision = 0, pk_RootDelay = 0,
     pk_RootDisp = 1, pk_RefID = [71, 80, 83, 0], pk_RefTimestamp = replicate 8 0, pk_OrigTimestamp = replicate 8 0,
     pk_RecvTimestamp = EncodeTimestamp 3908988800 128849, pk_TxTimestamp = EncodeTimestamp 3908988800 171799,
     pk_Extension = [], pk_Raw = []\<rparr>"

definition sample_sent :: RawReading where
  "sample_sent = \<lparr>rr_Raw = 500, rr_ReadBound = 10, rr_ContinuityToken = 1, rr_BackendGeneration = 1\<rparr>"

definition sample_received :: RawReading where
  "sample_received = \<lparr>rr_Raw = 50501, rr_ReadBound = 20, rr_ContinuityToken = 1, rr_BackendGeneration = 1\<rparr>"

lemma sample_stamps:
  "UnfoldTimestamp (pk_RecvTimestamp sample_response_packet) 1700000007 = Inr 1700000000000030000"
  "UnfoldTimestamp (pk_TxTimestamp sample_response_packet) 1700000007 = Inr 1700000000000040000"
  by code_simp+

lemma sample_measured:
  "case measureResponse leap_sample 1700000007 sample_response_packet sample_sent sample_received 1700000000000000000 1700000000000050000 of
     Inl _ \<Rightarrow> False
   | Inr m \<Rightarrow> mr_HardInterval m = interval 1700000000999997712 1700000001000072288"
  by code_simp

lemma sample_measurement_bounded:
  "measurement_bounded (response_input sample_response_packet sample_sent sample_received
     1700000000000000000 1700000000000030000 1700000000000040000 1700000000000050000)"
  by code_simp

lemma measured_response_contains_true_time_witness:
  "\<exists>m. measureResponse leap_sample 1700000007 sample_response_packet sample_sent sample_received 1700000000000000000 1700000000000050000 = Inr m \<and>
     (\<exists>offset :: int. encloses (mr_HardInterval m) (1700000000000023000 + of_int offset))"
proof -
  obtain m where m: "measureResponse leap_sample 1700000007 sample_response_packet sample_sent sample_received
      1700000000000000000 1700000000000050000 = Inr m"
    using sample_measured by (auto split: sum.splits)
  have d: "sint (RootDispersionNanoseconds sample_response_packet) = 15258" "sint (RootDelayNanoseconds sample_response_packet) = 0"
    by code_simp+
  have "\<exists>lo hi offset. of_int lo \<le> (1699999999999998000 + 1700000000000048000) / (2 :: real) \<and> (1699999999999998000 + 1700000000000048000) / (2 :: real) \<le> of_int hi \<and>
    (\<forall>u. lo \<le> sint u \<and> sint u \<le> hi \<longrightarrow> (\<exists>g. UnixNanosToGstInstant leap_sample u = Inr g \<and> sint g = sint u + offset)) \<and>
    encloses (mr_HardInterval m) ((1699999999999998000 + 1700000000000048000) / 2 + of_int offset) \<and>
    reads ((500 + 50501) / 2) (mr_RawMid m) (mr_RawMidReadBound m)"
    by (rule measured_response_contains_true_time [OF m sample_stamps sample_measurement_bounded,
        where ?a2.0 = 1700000000000027000 and ?a3.0 = 1700000000000037000 and E = 3000])
      (simp_all add: d sample_sent_def sample_received_def reads_def)
  then show ?thesis using m by auto
qed

subsection \<open>Authenticated answers\<close>

text \<open>The header fields are those of the first 48 bytes, and the measurement depends on nothing else.\<close>

lemma slice_take: "hi \<le> n \<Longrightarrow> slice (take n bs) lo hi = slice bs lo hi"
  by (simp add: slice_def drop_take min_def)

lemma ParsePacket_header:
  assumes "ParsePacket buf = Inr resp"
  shows "\<exists>h. ParsePacket (take 48 buf) = Inr h \<and> resp = h\<lparr>pk_Extension := drop 48 buf, pk_Raw := buf\<rparr>"
  using assms by (auto simp: ParsePacket_def slice_take split: if_splits)

lemma measureResponse_header:
  "measureResponse lh coarse (h\<lparr>pk_Extension := ext, pk_Raw := raw\<rparr>) r1 r4 t1 t4 = measureResponse lh coarse h r1 r4 t1 t4"
  by (simp add: measureResponse_def response_input_def RootDelayNanoseconds_def RootDispersionNanoseconds_def
      cong del: sum.case_cong_weak option.case_cong_weak)

lemma nts_receive_Inr:
  assumes "nts_receive cy lh q sess jar cookie uid t1 datagram = Ret (Inr m, jar')"
  defines "buf \<equiv> take (nat MaxPacketSize + 1) datagram"
  obtains t4 resp efs trailing cookies where "48 \<le> length buf" "length buf \<le> nat MaxPacketSize" "ParsePacket buf = Inr resp"
    "ParseExtensionFields (drop 48 buf) = Inr (efs, trailing)"
    "VerifyAndDecryptResponse (cy_aes cy) (take 48 buf) efs uid (ns_s2cAead sess) = Ret (Inr cookies)"
    "measureResponse lh (qe_coarse q) resp (qe_r1 q) (qe_r4 q) t1 t4 = Inr m"
  using assms(1) unfolding nts_receive_def Let_def buf_def [symmetric]
  by (auto simp: not_less split: if_splits sum.splits outcome.splits prod.splits)

text \<open>
  What follows a header in an authentic answer: fields one of which is the expected unique identifier, an authenticator whose
  ciphertext is the sealing, with the header and those fields as associated data, and less than a field header.
\<close>

definition authentic_answer :: "block_cipher \<Rightarrow> AEAD \<Rightarrow> bytes \<Rightarrow> bytes \<Rightarrow> bytes \<Rightarrow> bool" where
  "authentic_answer aes a uid header rest \<longleftrightarrow>
     (\<exists>efs (auth :: ExtensionField) trailing nonce ciphertext padding plaintext.
        rest = EncodeExtensionFields efs @ ef_Wire auth @ trailing \<and> list_all wire_field efs \<and> length trailing < 4 \<and>
        uid \<in> ef_Value ` {f \<in> set efs. ef_Type f = ExtTypeUniqueID} \<and> drop 8 (ef_Wire auth) = nonce @ ciphertext @ padding \<and>
        aead_Seal aes a nonce plaintext (header @ EncodeExtensionFields efs) = Ret ciphertext)"

lemma verified_is_authentic:
  assumes "ParseExtensionFields rest = Inr (efs, trailing)" "VerifyAndDecryptResponse aes header efs uid a = Ret (Inr cookies)"
  shows "authentic_answer aes a uid header rest"
proof -
  obtain signed auth nonce ciphertext padding plaintext where v: "rest = signed @ ef_Wire auth @ trailing"
    "efs = butlast efs @ [auth]" "uid \<in> ef_Value ` {f \<in> set (butlast efs). ef_Type f = ExtTypeUniqueID}"
    "drop 8 (ef_Wire auth) = nonce @ ciphertext @ padding" "aead_Seal aes a nonce plaintext (header @ signed) = Ret ciphertext"
    using verified_sealed [OF assms] by (elim exE conjE) (rule that)
  have x: "rest = EncodeExtensionFields efs @ trailing" "length trailing < 4" "list_all wire_field efs"
    using assms(1) by (simp_all add: extension_codec)
  have wf: "list_all wire_field (butlast efs)" "wire_field auth"
    using x(3) v(2) by (metis list_all_append list.pred_inject(2))+
  have "EncodeExtensionFields efs = EncodeExtensionFields (butlast efs) @ ef_Wire auth"
    by (subst v(2)) (use wf(2) in \<open>simp add: EncodeExtensionFields_def wire_field_def\<close>)
  then have s: "signed = EncodeExtensionFields (butlast efs)" using v(1) x(1) by simp
  show ?thesis
    unfolding authentic_answer_def using v(1,3-5) [unfolded s] wf(1) x(2) by blast
qed

text \<open>C7: (\<open>queryNTS\<close>) Only authenticated times are measured. When an exchange in a session yields a measurement, the datagram is a
  48-byte header followed by an authentic answer to this request, sealed under the server's key of the session; and the
  measurement is that of the header.\<close>
theorem nts_answers_are_authenticated:
  assumes "nts_receive cy lh q sess jar cookie uid t1 datagram = Ret (Inr m, jar')"
  shows "\<exists>header rest h t4. take (nat MaxPacketSize + 1) datagram = header @ rest \<and> length header = 48 \<and>
    authentic_answer (cy_aes cy) (ns_s2cAead sess) uid header rest \<and>
    ParsePacket header = Inr h \<and> measureResponse lh (qe_coarse q) h (qe_r1 q) (qe_r4 q) t1 t4 = Inr m"
proof -
  define buf where "buf = take (nat MaxPacketSize + 1) datagram"
  obtain t4 resp efs trailing cookies where b: "48 \<le> length buf" "ParsePacket buf = Inr resp"
    "ParseExtensionFields (drop 48 buf) = Inr (efs, trailing)"
    "VerifyAndDecryptResponse (cy_aes cy) (take 48 buf) efs uid (ns_s2cAead sess) = Ret (Inr cookies)"
    "measureResponse lh (qe_coarse q) resp (qe_r1 q) (qe_r4 q) t1 t4 = Inr m"
    by (rule nts_receive_Inr [OF assms, folded buf_def])
  obtain h where h: "ParsePacket (take 48 buf) = Inr h" "resp = h\<lparr>pk_Extension := drop 48 buf, pk_Raw := buf\<rparr>"
    using ParsePacket_header [OF b(2)] by blast
  have "measureResponse lh (qe_coarse q) h (qe_r1 q) (qe_r4 q) t1 t4 = Inr m"
    using b(5) by (simp add: h(2) measureResponse_header)
  moreover have "buf = take 48 buf @ drop 48 buf" "length (take 48 buf) = 48" using b(1) by simp_all
  ultimately show ?thesis
    unfolding buf_def [symmetric] using verified_is_authentic [OF b(3,4)] h(1) by blast
qed

definition sample_header :: bytes where "sample_header = Packet_Encode sample_response_packet"

lemma sample_header_parsed:
  "length sample_header = 48"
  "case ParsePacket sample_header of Inl _ \<Rightarrow> False
   | Inr h \<Rightarrow> measureResponse leap_sample 1700000007 h sample_sent sample_received 1700000000000000000 1700000000000050000
              = measureResponse leap_sample 1700000007 sample_response_packet sample_sent sample_received 1700000000000000000 1700000000000050000"
  by code_simp+

definition sample_crypto :: crypto_env where
  "sample_crypto = \<lparr>cy_aes = (\<lambda>k b. b), cy_sha256 = (\<lambda>b. b), cy_parseIP = (\<lambda>_. None), cy_rand1 = (\<lambda>n. Inr (replicate n 7)),
     cy_rand2 = (\<lambda>n. Inr (replicate n 0))\<rparr>"

definition sample_query :: query_env where
  "sample_query = \<lparr>qe_dial = None, qe_write = (\<lambda>_. None), qe_read = (\<lambda>_. Inr []), qe_r1 = sample_sent, qe_est1 = NewEstimateClock,
     qe_wall1 = 1700000000000000000, qe_r4 = sample_received, qe_est4 = NewEstimateClock\<lparr>em_RawAnchor := 50502\<rparr>,
     qe_wall4 = 1700000000000050000, qe_coarse = 1700000007\<rparr>"

definition sample_session :: ntsSession where
  "sample_session = \<lparr>ns_udpEndpoint = [], ns_c2sKey = [], ns_s2cKey = [], ns_c2sAead = sample_aead, ns_s2cAead = sample_aead,
     ns_jar = NewCookieJar\<rparr>"

lemma sample_local_estimate:
  "localUnixEstimate (qe_est4 sample_query) leap_sample (qe_wall4 sample_query) (rr_Raw (qe_r4 sample_query)) = Inr 1700000000000050000"
  by code_simp

lemma nts_answers_are_authenticated_witness:
  "\<exists>c header rest. take (nat MaxPacketSize + 1) (sample_header @ EncodeExtensionFields [sample_uid_field, sample_auth c]) = header @ rest \<and>
     authentic_answer (\<lambda>k b. b) sample_aead sample_uid header rest"
proof -
  obtain c where c: "length c = 16"
    "VerifyAndDecryptResponse (\<lambda>k b. b) sample_header [sample_uid_field, sample_auth c] sample_uid sample_aead = Ret (Inr [])"
    by (rule sample_accepted [OF sample_header_parsed(1)])
  define rest where "rest = EncodeExtensionFields [sample_uid_field, sample_auth c]"
  define cookie where "cookie = \<lparr>mc_ID = [], mc_Bytes = [], mc_State = CookieInFlight\<rparr>"
  have len: "length rest \<le> 100"
    using c(1) by (simp add: rest_def EncodeExtensionFields_def encode_field_def sample_uid_field_def sample_auth_def on_wire_def
        new_field_def sample_uid_def pad4_def)
  have t: "take (nat MaxPacketSize + 1) (sample_header @ rest) = sample_header @ rest" "\<not> nat MaxPacketSize < length (sample_header @ rest)"
    "take 48 (sample_header @ rest) = sample_header" "drop 48 (sample_header @ rest) = rest" "\<not> length (sample_header @ rest) < 48"
    using len sample_header_parsed(1) by (simp_all add: MaxPacketSize_def)
  obtain h where h: "ParsePacket sample_header = Inr h"
    "measureResponse leap_sample 1700000007 h sample_sent sample_received 1700000000000000000 1700000000000050000
       = measureResponse leap_sample 1700000007 sample_response_packet sample_sent sample_received 1700000000000000000 1700000000000050000"
    using sample_header_parsed(2) by (auto split: sum.splits)
  obtain m where m: "measureResponse leap_sample 1700000007 h sample_sent sample_received 1700000000000000000 1700000000000050000 = Inr m"
    using sample_measured h(2) by (auto split: sum.splits)
  obtain resp where r: "ParsePacket (sample_header @ rest) = Inr resp" using t(5) by (simp add: ParsePacket_def)
  then have "resp = h\<lparr>pk_Extension := rest, pk_Raw := sample_header @ rest\<rparr>"
    using ParsePacket_header [OF r] h(1) unfolding t(3,4) by simp
  then have mr: "measureResponse leap_sample (qe_coarse sample_query) resp (qe_r1 sample_query) (qe_r4 sample_query)
      1700000000000000000 1700000000000050000 = Inr m"
    using m by (simp add: measureResponse_header sample_query_def)
  have "nts_receive sample_crypto leap_sample sample_query sample_session NewCookieJar cookie sample_uid 1700000000000000000
      (sample_header @ rest) = Ret (Inr m, MarkSpent NewCookieJar (mc_ID cookie))"
    unfolding nts_receive_def Let_def t(1,3,4) sample_local_estimate r
    using t(2,5) sample_fields [OF c(1)] c(2) mr by (simp add: rest_def [symmetric] sample_crypto_def sample_session_def)
  from nts_answers_are_authenticated [OF this] show ?thesis
    by (auto simp: rest_def sample_crypto_def sample_session_def)
qed

end
