(* ===== verification/Sync.thy ===== *)
theory Sync
  imports Query "HOL-Library.AList"
begin

text \<open>
  The sync engine (\<open>sync.go\<close>): its construction and life cycle, and a polling round from the answers of
  the sources to the published consensus. Contexts, readings of the raw clock and the answers of the
  sources are arguments of the operations that get them, in the order of the calls.
\<close>

subsection \<open>State\<close>

datatype 'q querier = GivenQuerier 'q | DefaultQuerier defaultSourceQuerier

text \<open>
  \<open>se_workers\<close> is the count of the wait group, \<open>se_cancel\<close> whether a cancel function has been stored and
  \<open>se_cancelled\<close> whether it has been called.
\<close>

record 'q SyncEngine =
  se_cfg :: Config
  se_svc :: ClockService
  se_querier :: "'q querier option"
  se_pollIntvl :: i64
  se_queryTimeout :: i64
  se_cancel :: bool
  se_cancelled :: bool
  se_workers :: nat
  se_running :: bool
  se_closed :: bool

subsection \<open>Construction and life cycle\<close>

datatype 'q SyncOption = WithPollInterval i64 | WithQueryTimeout i64 | WithSourceQuerier "'q option"

fun apply_option :: "'q SyncOption \<Rightarrow> 'q SyncEngine \<Rightarrow> 'q SyncEngine" where
  "apply_option (WithPollInterval d) e = (if 0 <s d then e\<lparr>se_pollIntvl := d\<rparr> else e)"
| "apply_option (WithQueryTimeout d) e = (if 0 <s d then e\<lparr>se_queryTimeout := d\<rparr> else e)"
| "apply_option (WithSourceQuerier q) e =
     (case q of None \<Rightarrow> e | Some v \<Rightarrow> e\<lparr>se_querier := Some (GivenQuerier v)\<rparr>)"

definition NewSyncEngine :: "Config \<Rightarrow> ClockService option \<Rightarrow> 'q SyncOption list \<Rightarrow> go_error + 'q SyncEngine" where
  "NewSyncEngine cfg svc opts =
    (case svc of None \<Rightarrow> Inl (Err ''clock service cannot be nil'')
     | Some s \<Rightarrow>
       (case Validate cfg of Some err \<Rightarrow> Inl (Wrap ''invalid configuration'' err)
        | None \<Rightarrow>
          if cfg_Sources cfg = [] then Inl (Err ''configuration has no upstream sources'')
          else
            let engine = foldl (\<lambda>e opt. apply_option opt e)
                  \<lparr>se_cfg = cfg, se_svc = s, se_querier = None, se_pollIntvl = 2 * 1000000000,
                   se_queryTimeout = 1500 * 1000000, se_cancel = False, se_cancelled = False, se_workers = 0, se_running = False,
                   se_closed = False\<rparr> opts
            in Inr (if se_querier engine = None
                    then engine\<lparr>se_querier := Some (DefaultQuerier (newDefaultSourceQuerier (se_queryTimeout engine)))\<rparr>
                    else engine)))"

definition Start :: "'q SyncEngine \<Rightarrow> go_error option \<times> 'q SyncEngine" where
  "Start e =
    (if se_closed e then (Some (Err ''sync engine is closed''), e)
     else if se_running e then (Some (Err ''sync engine is already running''), e\<lparr>se_running := True\<rparr>)
     else (None, e\<lparr>se_running := True, se_cancel := True, se_cancelled := False, se_workers := se_workers e + 1\<rparr>))"

text \<open>
  \<open>Close\<close> holds the engine's mutex while it waits for the worker, so it is two steps: the flag and the
  cancellation, and the return once the wait group is empty. A worker leaves its loop in two steps as well,
  its deferred calls in their order.
\<close>

definition Close_begin :: "'q SyncEngine \<Rightarrow> 'q SyncEngine" where
  "Close_begin e =
    (if se_closed e then e else e\<lparr>se_closed := True, se_cancelled := (se_cancel e \<or> se_cancelled e)\<rparr>)"

definition Close_end :: "'q SyncEngine \<Rightarrow> 'q SyncEngine" where
  "Close_end e = e\<lparr>se_running := False\<rparr>"

definition loop_store :: "'q SyncEngine \<Rightarrow> 'q SyncEngine" where
  "loop_store e = e\<lparr>se_running := False\<rparr>"

definition loop_done :: "'q SyncEngine \<Rightarrow> 'q SyncEngine" where
  "loop_done e = e\<lparr>se_workers := se_workers e - 1\<rparr>"

subsection \<open>A polling round\<close>

record sourceResult =
  sr_domain :: string
  sr_res :: "MeasurementResult option"
  sr_err :: "go_error option"

text \<open>
  What a round gets from its environment: \<open>ctx.Err()\<close> at the entry, after the queries and in the deferred
  call, the closed flag at the latter two, the readings and envelopes of the raw clock (those of the queries and of
  concurrent readers in the order they were made), and the results in the order of their arrival.
\<close>

record poll_env =
  pe_ctx :: "ctx_error option"
  pe_startRead :: RawReading
  pe_startEnv :: envelope
  pe_queryReads :: "RawReading list"
  pe_results :: "sourceResult list"
  pe_closedAfter :: bool
  pe_read :: RawReading
  pe_env :: envelope
  pe_ctxAfter :: "ctx_error option"
  pe_pubRead1 :: RawReading
  pe_pubEnv1 :: envelope
  pe_pubRead2 :: RawReading
  pe_pubEnv2 :: envelope
  pe_ctxEnd :: "ctx_error option"
  pe_closedEnd :: bool
  pe_failRead1 :: RawReading
  pe_failEnv1 :: envelope
  pe_failRead2 :: RawReading
  pe_failRead3 :: RawReading
  pe_failEnv3 :: envelope

definition ctx_Err :: "ctx_error \<Rightarrow> go_error" where
  "ctx_Err e = (case e of Canceled \<Rightarrow> Err ''context canceled'' | DeadlineExceeded \<Rightarrow> Err ''context deadline exceeded'')"

definition positive_or :: "i64 \<Rightarrow> i64 \<Rightarrow> i64" where
  "positive_or d x = (if x \<le>s 0 then d else x)"

text \<open>A result contributes its interval, propagated to the reading of the round, or nothing.\<close>

definition sample_anchor_of :: "MeasurementResult \<Rightarrow> envelope \<Rightarrow> RawReading \<Rightarrow> AssuranceAnchor" where
  "sample_anchor_of m env reading =
    \<lparr>aa_RawAnchor = mr_RawMid m, aa_LowerAtAnchor = Earliest (mr_HardInterval m), aa_UpperAtAnchor = Latest (mr_HardInterval m),
     aa_RawScaleLower = fst env, aa_RawScaleUpper = snd env, aa_RawReadBound = mr_RawMidReadBound m,
     aa_SourceFaultBudget = 0, aa_EligibleDomains = 0, aa_CoverageThreshold = 0, aa_ComponentCount = 0,
     aa_LeapHistoryID = replicate 32 0, aa_ConfigID = replicate 32 0, aa_Generation = 0, aa_CreatedRaw = 0,
     aa_ValidUntilRaw = rr_Raw reading, aa_ContinuityToken = rr_ContinuityToken reading\<rparr>"

definition accept_result ::
  "i64 \<Rightarrow> i64 \<Rightarrow> RawNanos \<Rightarrow> RawReading \<Rightarrow> envelope \<Rightarrow> sourceResult \<Rightarrow> (string \<times> TimeInterval) option" where
  "accept_result maxAge maxWidth startRaw reading env r =
    (case (sr_err r, sr_res r) of
       (None, Some m) \<Rightarrow>
         if sr_domain r = [] then None
         else if mr_RawMid m < startRaw \<or> rr_Raw reading < mr_RawMid m \<or> maxAge < rr_Raw reading - mr_RawMid m then None
         else (case PropagateAnchor (Some (sample_anchor_of m env reading)) (rr_Raw reading) (rr_ReadBound reading)
                      (rr_ContinuityToken reading) 0 0 maxWidth of
                 Inl _ \<Rightarrow> None
               | Inr I \<Rightarrow> Some (sr_domain r, I))
     | _ \<Rightarrow> None)"

text \<open>\<open>byDomain\<close>, a map from domains to their intervals in the order of arrival.\<close>

definition lookup_domain :: "(string \<times> TimeInterval list) list \<Rightarrow> string \<Rightarrow> TimeInterval list" where
  "lookup_domain m d = (case map_of m d of None \<Rightarrow> [] | Some Is \<Rightarrow> Is)"

definition add_interval :: "(string \<times> TimeInterval list) list \<Rightarrow> string \<times> TimeInterval \<Rightarrow> (string \<times> TimeInterval list) list" where
  "add_interval m x = AList.update (fst x) (lookup_domain m (fst x) @ [snd x]) m"

definition domain_intervals :: "(string \<times> TimeInterval list) list \<Rightarrow> TimeInterval list" where
  "domain_intervals m =
    List.map_filter (\<lambda>d. let c = ConsolidateDomainIntervals d (lookup_domain m d)
                         in if cd_Inconsistent c then None else Some (cd_Interval c))
      (sort (map fst m))"

definition round_intervals :: "Config \<Rightarrow> RawNanos \<Rightarrow> RawReading \<Rightarrow> envelope \<Rightarrow> sourceResult list \<Rightarrow> TimeInterval list" where
  "round_intervals cfg startRaw reading env results =
    domain_intervals (foldl add_interval []
      (List.map_filter (accept_result (positive_or (10 * 1000000000) (ac_MaxAgeNs (cfg_Assurance cfg)))
         (ac_MaxWidthNs (cfg_Assurance cfg)) startRaw reading env) results))"

definition service_Reads :: "ClockService \<Rightarrow> RawReading list \<Rightarrow> ClockService" where
  "service_Reads s rs = foldl (\<lambda>s r. snd (service_Read s r)) s rs"

text \<open>The body of \<open>PollOnce\<close> after the deferred call is registered.\<close>

definition poll_body :: "Config \<Rightarrow> ClockService \<Rightarrow> poll_env \<Rightarrow> (go_error option \<times> ClockService) outcome" where
  "poll_body cfg svc p =
    (let (start, s1) = service_Read svc (pe_startRead p);
         s2 = service_Reads s1 (pe_queryReads p)
     in if pe_closedAfter p then Ret (Some (Err ''sync engine is closed''), s2)
        else
          let (reading, s3) = service_Read s2 (pe_read p); env = pe_startEnv p
          in case pe_ctxAfter p of Some e \<Rightarrow> Ret (Some (ctx_Err e), s3)
             | None \<Rightarrow>
               if rr_ContinuityToken reading \<noteq> rr_ContinuityToken start \<or> rr_BackendGeneration reading \<noteq> rr_BackendGeneration start
                  \<or> rr_Raw reading < rr_Raw start \<or> fst (pe_env p) \<noteq> fst env \<or> snd (pe_env p) \<noteq> snd env
               then Ret (Some (Err ''raw clock changed during query round''), s3)
               else
                 let a = cfg_Assurance cfg; maxAge = positive_or (10 * 1000000000) (ac_MaxAgeNs a)
                 in if MaxUint64 - maxAge < rr_Raw reading then Ret (Some ErrOverflow, s3)
                    else
                      let intervals = round_intervals cfg (rr_Raw start) reading env (pe_results p);
                          minDomains = positive_or 1 (ac_MinVotingDomains a);
                          minHonest = positive_or 1 (ac_MinHonestCoverage a)
                      in if go_len intervals <s minDomains then Ret (Some (Err ''insufficient voting domains''), s3)
                         else (case ComputeAssuranceConsensus intervals (ac_FaultBudget a) minDomains minHonest 0 0 of
                                 Panic \<Rightarrow> Panic
                               | Ret (Inl e) \<Rightarrow> Ret (Some (Wrap ''consensus computation failed'' e), s3)
                               | Ret (Inr consensus) \<Rightarrow>
                                 (case publishSyncRound s3 reading env consensus (rr_Raw reading + maxAge)
                                         (pe_pubRead1 p) (pe_pubEnv1 p) (pe_pubRead2 p) (pe_pubEnv2 p) of
                                    (Some e, s4) \<Rightarrow> Ret (Some (Wrap ''failed to publish assurance round'' e), s4)
                                  | (None, s4) \<Rightarrow> Ret (None, s4))))"

definition PollOnce :: "'q SyncEngine \<Rightarrow> poll_env \<Rightarrow> (go_error option \<times> 'q SyncEngine) outcome" where
  "PollOnce e p =
    (case pe_ctx p of Some err \<Rightarrow> Ret (Some (ctx_Err err), e)
     | None \<Rightarrow>
       if se_closed e then Ret (Some (Err ''sync engine is closed''), e)
       else (case poll_body (se_cfg e) (se_svc e) p of
               Panic \<Rightarrow> Panic
             | Ret (pollErr, s) \<Rightarrow>
               if pollErr \<noteq> None \<and> pe_ctxEnd p = None \<and> \<not> pe_closedEnd p
               then (case markRoundFailure s (ac_MaxHoldoverAgeNs (cfg_Assurance (se_cfg e))) (pe_failRead1 p) (pe_failEnv1 p)
                            (pe_failRead2 p) (pe_failRead3 p) (pe_failEnv3 p) of
                       (err, s') \<Rightarrow> Ret (errors_Join pollErr err, e\<lparr>se_svc := s'\<rparr>))
               else Ret (pollErr, e\<lparr>se_svc := s\<rparr>)))"

text \<open>
  \<open>loop\<close>: a first round, then a turn for each tick until the context is done; \<open>None\<close> while it waits. Its two
  deferred calls run at the return.
\<close>

datatype loop_turn = Tick poll_env | CtxDone

fun loop_ticks :: "loop_turn list \<Rightarrow> 'q SyncEngine \<Rightarrow> 'q SyncEngine outcome option" where
  "loop_ticks [] e = None"
| "loop_ticks (CtxDone # turns) e = Some (Ret (loop_done (loop_store e)))"
| "loop_ticks (Tick p # turns) e =
     (case PollOnce e p of Panic \<Rightarrow> Some Panic | Ret (_, e') \<Rightarrow> loop_ticks turns e')"

definition loop :: "poll_env \<Rightarrow> loop_turn list \<Rightarrow> 'q SyncEngine \<Rightarrow> 'q SyncEngine outcome option" where
  "loop p turns e = loop_ticks (Tick p # turns) e"

subsection \<open>The engine's worker\<close>

text \<open>
  Interleavings of the engine's methods and its workers: \<open>sy_polling\<close> workers are in their loop, \<open>sy_stopping\<close>
  have cleared the flag and not yet left the wait group, \<open>sy_closing\<close> while a \<open>Close\<close> waits with the mutex.
\<close>

record 'q sync_sys =
  sy_engine :: "'q SyncEngine"
  sy_polling :: nat
  sy_stopping :: nat
  sy_closing :: bool

inductive sync_step :: "'q sync_sys \<Rightarrow> 'q sync_sys \<Rightarrow> bool" where
  start: "\<not> sy_closing s \<Longrightarrow> Start (sy_engine s) = (err, e) \<Longrightarrow>
    sync_step s (s\<lparr>sy_engine := e, sy_polling := sy_polling s + (if err = None then 1 else 0)\<rparr>)"
| poll: "0 < sy_polling s \<Longrightarrow> PollOnce (sy_engine s) p = Ret (err, e) \<Longrightarrow> sync_step s (s\<lparr>sy_engine := e\<rparr>)"
| leave: "0 < sy_polling s \<Longrightarrow>
    sync_step s (s\<lparr>sy_engine := loop_store (sy_engine s), sy_polling := sy_polling s - 1, sy_stopping := sy_stopping s + 1\<rparr>)"
| finish: "0 < sy_stopping s \<Longrightarrow>
    sync_step s (s\<lparr>sy_engine := loop_done (sy_engine s), sy_stopping := sy_stopping s - 1\<rparr>)"
| close_begin: "\<not> sy_closing s \<Longrightarrow> \<not> se_closed (sy_engine s) \<Longrightarrow>
    sync_step s (s\<lparr>sy_engine := Close_begin (sy_engine s), sy_closing := True\<rparr>)"
| close_end: "sy_closing s \<Longrightarrow> se_workers (sy_engine s) = 0 \<Longrightarrow>
    sync_step s (s\<lparr>sy_engine := Close_end (sy_engine s), sy_closing := False\<rparr>)"

inductive_cases sync_step_cases: "sync_step s t"

definition sync_init :: "'q SyncEngine \<Rightarrow> 'q sync_sys" where
  "sync_init e = \<lparr>sy_engine = e, sy_polling = 0, sy_stopping = 0, sy_closing = False\<rparr>"

definition sync_ok :: "'q sync_sys \<Rightarrow> bool" where
  "sync_ok s \<longleftrightarrow>
     (let e = sy_engine s
      in se_workers e = sy_polling s + sy_stopping s \<and> sy_polling s = (if se_running e then 1 else 0) \<and>
         (se_closed e \<longrightarrow> sy_closing s \<or> se_workers e = 0) \<and> (sy_closing s \<longrightarrow> se_closed e))"

lemma apply_options_frame:
  "se_running (foldl (\<lambda>e opt. apply_option opt e) e opts) = se_running e \<and> se_closed (foldl (\<lambda>e opt. apply_option opt e) e opts) = se_closed e
   \<and> se_workers (foldl (\<lambda>e opt. apply_option opt e) e opts) = se_workers e \<and> se_svc (foldl (\<lambda>e opt. apply_option opt e) e opts) = se_svc e
   \<and> se_cfg (foldl (\<lambda>e opt. apply_option opt e) e opts) = se_cfg e"
proof (induction opts arbitrary: e)
  case (Cons opt opts)
  have "se_running (apply_option opt e) = se_running e \<and> se_closed (apply_option opt e) = se_closed e
    \<and> se_workers (apply_option opt e) = se_workers e \<and> se_svc (apply_option opt e) = se_svc e
    \<and> se_cfg (apply_option opt e) = se_cfg e"
    by (cases opt) (auto split: option.splits)
  with Cons.IH [of "apply_option opt e"] show ?case by simp
qed simp

lemma NewSyncEngine_frame:
  assumes "NewSyncEngine cfg svc opts = Inr e"
  shows "\<not> se_running e" "\<not> se_closed e" "se_workers e = 0" "svc = Some (se_svc e)" "se_cfg e = cfg" "Validate cfg = None"
    "cfg_Sources cfg \<noteq> []"
  using assms apply_options_frame [where opts = opts]
  by (auto simp: NewSyncEngine_def Let_def split: option.splits if_splits)

lemma PollOnce_frame:
  assumes "PollOnce e p = Ret (err, e')"
  shows "se_running e' = se_running e" "se_closed e' = se_closed e" "se_workers e' = se_workers e" "se_cfg e' = se_cfg e"
  using assms by (auto simp: PollOnce_def split: option.splits if_splits outcome.splits prod.splits)

lemma sync_step_ok: "sync_step s t \<Longrightarrow> sync_ok s \<Longrightarrow> sync_ok t"
proof (induction rule: sync_step.induct)
  case (start s err e)
  then show ?case by (auto simp: sync_ok_def Start_def Let_def split: if_splits)
next
  case (poll s p err e)
  then show ?case using PollOnce_frame [OF poll(2)] by (auto simp: sync_ok_def Let_def split: if_splits)
next
  case (leave s)
  then show ?case by (auto simp: sync_ok_def Let_def loop_store_def split: if_splits)
next
  case (finish s)
  then show ?case by (auto simp: sync_ok_def Let_def loop_done_def split: if_splits)
next
  case (close_begin s)
  then show ?case by (auto simp: sync_ok_def Let_def Close_begin_def split: if_splits)
next
  case (close_end s)
  then show ?case by (auto simp: sync_ok_def Let_def Close_end_def split: if_splits)
qed

lemma sync_reachable_ok:
  assumes "NewSyncEngine cfg svc opts = Inr e" "sync_step\<^sup>*\<^sup>* (sync_init e) s"
  shows "sync_ok s"
  using assms(2)
proof (induction rule: rtranclp_induct)
  case base
  then show ?case using NewSyncEngine_frame [OF assms(1)] by (simp add: sync_ok_def sync_init_def)
qed (rule sync_step_ok)

text \<open>A \<open>Close\<close> that waits can return: the workers leave one after another.\<close>

lemma Close_can_return:
  "sync_ok s \<Longrightarrow> sy_closing s \<Longrightarrow> \<exists>t. sync_step\<^sup>*\<^sup>* s t \<and> se_closed (sy_engine t) \<and> \<not> sy_closing t"
proof (induction "2 * sy_polling s + sy_stopping s" arbitrary: s rule: less_induct)
  case less
  have closed: "se_closed (sy_engine s)" using less.prems by (simp add: sync_ok_def Let_def)
  consider "0 < sy_polling s" | "0 < sy_stopping s" | "sy_polling s = 0" "sy_stopping s = 0" by auto
  then show ?case
  proof cases
    case 1
    let ?t = "s\<lparr>sy_engine := loop_store (sy_engine s), sy_polling := sy_polling s - 1, sy_stopping := sy_stopping s + 1\<rparr>"
    have st: "sync_step s ?t" using 1 by (rule sync_step.leave)
    have "\<exists>t. sync_step\<^sup>*\<^sup>* ?t t \<and> se_closed (sy_engine t) \<and> \<not> sy_closing t"
      by (rule less.hyps) (use 1 less.prems sync_step_ok [OF st] in auto)
    then show ?thesis using converse_rtranclp_into_rtranclp [of sync_step, OF st] by blast
  next
    case 2
    let ?t = "s\<lparr>sy_engine := loop_done (sy_engine s), sy_stopping := sy_stopping s - 1\<rparr>"
    have st: "sync_step s ?t" using 2 by (rule sync_step.finish)
    have "\<exists>t. sync_step\<^sup>*\<^sup>* ?t t \<and> se_closed (sy_engine t) \<and> \<not> sy_closing t"
      by (rule less.hyps) (use 2 less.prems sync_step_ok [OF st] in auto)
    then show ?thesis using converse_rtranclp_into_rtranclp [of sync_step, OF st] by blast
  next
    case 3
    then have "se_workers (sy_engine s) = 0" using less.prems by (simp add: sync_ok_def Let_def)
    from r_into_rtranclp [of sync_step, OF sync_step.close_end [OF less.prems(2) this]] closed
    show ?thesis by (auto simp: Close_end_def intro!: exI)
  qed
qed

subsection \<open>Grouping by domain\<close>

lemma lookup_add_interval:
  "lookup_domain (add_interval m x) d = (if d = fst x then lookup_domain m d @ [snd x] else lookup_domain m d)"
  by (simp add: add_interval_def lookup_domain_def update_conv')

lemma distinct_add_intervals:
  "distinct (map fst m) \<Longrightarrow> distinct (map fst (foldl add_interval m xs))"
  by (induction xs arbitrary: m) (simp_all add: add_interval_def distinct_update)

lemma lookup_add_intervals:
  "lookup_domain (foldl add_interval m xs) d = lookup_domain m d @ map snd (filter (\<lambda>x. fst x = d) xs)"
  by (induction xs arbitrary: m) (auto simp: lookup_add_interval)

lemma keys_add_intervals: "fst ` set (foldl add_interval m xs) = fst ` set m \<union> fst ` set xs"
  by (induction xs arbitrary: m) (auto simp: add_interval_def dom_update)

text \<open>A domain all of whose intervals contain an instant has an interval, and that contains it.\<close>

lemma consolidate_loop_encloses:
  "encloses (interval lo hi) t \<Longrightarrow> list_all (\<lambda>I. encloses I t) Is \<Longrightarrow> consolidate_loop lo hi Is = (lo', hi') \<Longrightarrow>
   encloses (interval lo' hi') t"
  by (induction Is arbitrary: lo hi) (auto simp: encloses_def split: if_splits)

lemma consolidate_encloses:
  assumes "Is \<noteq> []" "list_all (\<lambda>I. encloses I t) Is"
  shows "\<not> cd_Inconsistent (ConsolidateDomainIntervals d Is) \<and> encloses (cd_Interval (ConsolidateDomainIntervals d Is)) t"
proof -
  obtain I Js where Is: "Is = I # Js" using assms(1) by (cases Is) auto
  obtain lo hi where l: "consolidate_loop (Earliest I) (Latest I) Js = (lo, hi)" by (metis surj_pair)
  have e: "encloses (interval lo hi) t"
    using assms(2) by (intro consolidate_loop_encloses [OF _ _ l]) (simp_all add: Is encloses_def)
  then have "\<not> hi <s lo" using encloses_ordered [OF e] by (simp add: ordered_def go_signed)
  then show ?thesis using e by (simp add: ConsolidateDomainIntervals_def Is l)
qed

lemma length_map_filter_bad:
  "distinct ds \<Longrightarrow> (\<And>d y. d \<in> set ds \<Longrightarrow> f d = Some y \<Longrightarrow> \<not> P y \<Longrightarrow> d \<in> B) \<Longrightarrow> finite B \<Longrightarrow>
   length (filter (\<lambda>y. \<not> P y) (List.map_filter f ds)) \<le> card (B \<inter> set ds)"
proof (induction ds)
  case (Cons d ds)
  then have ih: "length (filter (\<lambda>y. \<not> P y) (List.map_filter f ds)) \<le> card (B \<inter> set ds)" by simp
  show ?case
  proof (cases "d \<in> B")
    case True
    then have "card (B \<inter> set (d # ds)) = Suc (card (B \<inter> set ds))" using Cons.prems by simp
    then show ?thesis using ih by (auto simp: map_filter_simps split: option.splits)
  next
    case False
    then have "\<And>y. f d = Some y \<Longrightarrow> P y" using Cons.prems(2) by auto
    then show ?thesis using ih False by (auto simp: map_filter_simps split: option.splits)
  qed
qed (simp add: map_filter_simps)

lemma length_map_filter_le: "length (List.map_filter f xs) \<le> length xs"
  by (induction xs) (auto simp: map_filter_simps split: option.splits)

subsection \<open>Truthful sources\<close>

text \<open>
  A result is truthful if it is an error, or an interval that contains true time at a coordinate no later
  than the round's reading, where the middle was read within its bound. A domain is truthful if
  all its results are.
\<close>

definition truthful_result :: "(real \<Rightarrow> real) \<Rightarrow> real \<Rightarrow> sourceResult \<Rightarrow> bool" where
  "truthful_result \<tau> \<rho> r \<longleftrightarrow>
     (\<forall>m. sr_err r = None \<and> sr_res r = Some m \<longrightarrow>
        (\<exists>\<rho>m \<le> \<rho>. reads \<rho>m (mr_RawMid m) (mr_RawMidReadBound m) \<and> encloses (mr_HardInterval m) (\<tau> \<rho>m)))"

definition lying_domains :: "(real \<Rightarrow> real) \<Rightarrow> real \<Rightarrow> sourceResult list \<Rightarrow> string set" where
  "lying_domains \<tau> \<rho> results = sr_domain ` {r \<in> set results. \<not> truthful_result \<tau> \<rho> r}"

lemma accept_result_domain: "accept_result ma mw sr reading env r = Some (d, I) \<Longrightarrow> d = sr_domain r"
  by (auto simp: accept_result_def split: option.splits if_splits sum.splits)

lemma accept_result_encloses:
  assumes "accept_result ma mw sr reading env r = Some (d, I)" "truthful_result \<tau> \<rho> r"
    and "reads \<rho> (rr_Raw reading) (rr_ReadBound reading)" "rate_ok \<tau> (fst env) (snd env)"
  shows "encloses I (\<tau> \<rho>)"
proof -
  from assms(1) obtain m where m: "sr_err r = None" "sr_res r = Some m"
    "PropagateAnchor (Some (sample_anchor_of m env reading)) (rr_Raw reading) (rr_ReadBound reading)
       (rr_ContinuityToken reading) 0 0 mw = Inr I"
    by (auto simp: accept_result_def split: option.splits if_splits sum.splits)
  then obtain \<rho>m where "\<rho>m \<le> \<rho>" "reads \<rho>m (mr_RawMid m) (mr_RawMidReadBound m)" "encloses (mr_HardInterval m) (\<tau> \<rho>m)"
    using assms(2) by (auto simp: truthful_result_def)
  then show ?thesis
    using assms(3,4) by (intro PropagateAnchor_encloses [OF m(3)]) (simp_all add: sample_anchor_of_def encloses_def)
qed

lemma in_map_filter: "y \<in> set (List.map_filter f xs) \<longleftrightarrow> (\<exists>x \<in> set xs. f x = Some y)"
  by (induction xs) (auto simp: map_filter_simps split: option.splits)

text \<open>At most as many of a round's intervals miss true time as domains lie.\<close>

lemma round_intervals_faulty:
  assumes "reads \<rho> (rr_Raw reading) (rr_ReadBound reading)" "rate_ok \<tau> (fst env) (snd env)"
  shows "faulty (round_intervals cfg sr reading env results) (\<tau> \<rho>) \<le> int (card (lying_domains \<tau> \<rho> results))"
    and "length (round_intervals cfg sr reading env results) \<le> length results"
proof -
  define f where "f = accept_result (positive_or (10 * 1000000000) (ac_MaxAgeNs (cfg_Assurance cfg)))
    (ac_MaxWidthNs (cfg_Assurance cfg)) sr reading env"
  define xs where "xs = List.map_filter f results"
  define m where "m = foldl add_interval [] xs"
  define ds where "ds = sort (map fst m)"
  define g where "g = (\<lambda>d. let c = ConsolidateDomainIntervals d (lookup_domain m d) in if cd_Inconsistent c then None else Some (cd_Interval c))"
  have Is: "round_intervals cfg sr reading env results = List.map_filter g ds"
    by (simp only: round_intervals_def domain_intervals_def f_def xs_def m_def ds_def g_def)
  have dist: "distinct ds" using distinct_add_intervals [of "[]" xs] by (simp add: ds_def m_def)
  have keys: "set ds = fst ` set xs" using keys_add_intervals [of "[]" xs] by (simp add: ds_def m_def)
  have fin: "finite (lying_domains \<tau> \<rho> results)" by (simp add: lying_domains_def)
  have "length (filter (\<lambda>I. \<not> encloses I (\<tau> \<rho>)) (List.map_filter g ds)) \<le> card (lying_domains \<tau> \<rho> results \<inter> set ds)"
  proof (rule length_map_filter_bad [OF dist _ fin])
    fix d I
    assume d: "d \<in> set ds" and g: "g d = Some I" "\<not> encloses I (\<tau> \<rho>)"
    let ?Is = "map snd (filter (\<lambda>x. fst x = d) xs)"
    have lk: "lookup_domain m d = ?Is" by (simp add: m_def lookup_add_intervals) (simp add: lookup_domain_def)
    have "?Is \<noteq> []" using d keys by (auto simp: filter_empty_conv)
    then have "\<not> list_all (\<lambda>I. encloses I (\<tau> \<rho>)) ?Is"
      using consolidate_encloses [of ?Is "\<tau> \<rho>" d] g by (auto simp: g_def lk Let_def)
    then obtain J where "(d, J) \<in> set xs" "\<not> encloses J (\<tau> \<rho>)" by (auto simp: list_all_iff)
    then obtain r where r: "r \<in> set results" "f r = Some (d, J)" "\<not> encloses J (\<tau> \<rho>)"
      by (auto simp: xs_def in_map_filter)
    then have "\<not> truthful_result \<tau> \<rho> r" using accept_result_encloses [OF r(2) [unfolded f_def] _ assms] by blast
    then show "d \<in> lying_domains \<tau> \<rho> results"
      using r(1) accept_result_domain [OF r(2) [unfolded f_def]] by (auto simp: lying_domains_def)
  qed
  also have "\<dots> \<le> card (lying_domains \<tau> \<rho> results)" by (rule card_mono [OF fin]) simp
  finally show "faulty (round_intervals cfg sr reading env results) (\<tau> \<rho>) \<le> int (card (lying_domains \<tau> \<rho> results))"
    by (simp add: faulty_def count_def Is)
  have "length ds \<le> length results"
    using distinct_card [OF dist] card_length [of "map fst xs"] length_map_filter_le [of f results] keys
    by (simp add: xs_def [symmetric])
  then show "length (round_intervals cfg sr reading env results) \<le> length results"
    unfolding Is using length_map_filter_le [of g ds] by linarith
qed

subsection \<open>Rounds keep the service's runs truthful\<close>

lemma service_run_read: "service_run \<tau> s \<rho> \<Longrightarrow> service_run \<tau> (snd (service_Read s r)) \<rho>"
  using service_run.now [of \<tau> s \<rho> r] by (simp add: Now_frame)

lemma service_run_reads: "service_run \<tau> s \<rho> \<Longrightarrow> service_run \<tau> (service_Reads s rs) \<rho>"
  by (induction rs arbitrary: s) (simp_all add: service_Reads_def service_run_read)

text \<open>
  A round of truthful quorum: the reading of the round was taken at \<open>\<rho>\<close>, the oscillator keeps within the
  envelope, and at most F domains lie.
\<close>

definition truthful_quorum :: "Config \<Rightarrow> (real \<Rightarrow> real) \<Rightarrow> real \<Rightarrow> poll_env \<Rightarrow> bool" where
  "truthful_quorum cfg \<tau> \<rho> p \<longleftrightarrow>
     reads \<rho> (rr_Raw (pe_read p)) (rr_ReadBound (pe_read p)) \<and> rate_ok \<tau> (fst (pe_startEnv p)) (snd (pe_startEnv p)) \<and>
     int (card (lying_domains \<tau> \<rho> (pe_results p))) \<le> sint (ac_FaultBudget (cfg_Assurance cfg)) \<and>
     length (pe_results p) < 2 ^ 63"

lemma positive_or_pos: "0 <s d \<Longrightarrow> 0 <s positive_or d x"
  by (simp add: positive_or_def go_signed)

lemma poll_body_run:
  assumes run: "service_run \<tau> s \<rho>" and q: "truthful_quorum cfg \<tau> \<rho> p" and b: "poll_body cfg s p = Ret (err, s')"
  shows "service_run \<tau> s' \<rho>"
proof -
  obtain start s1 where s1: "service_Read s (pe_startRead p) = (start, s1)" by (metis surj_pair)
  define s2 where "s2 = service_Reads s1 (pe_queryReads p)"
  obtain reading s3 where s3: "service_Read s2 (pe_read p) = (reading, s3)" by (metis surj_pair)
  have r2: "service_run \<tau> s2 \<rho>" using service_run_reads [OF service_run_read [OF run, of "pe_startRead p"]] by (simp add: s2_def s1)
  then have r3: "service_run \<tau> s3 \<rho>" using service_run_read [OF r2, of "pe_read p"] by (simp add: s3)
  have rd: "reads \<rho> (rr_Raw reading) (rr_ReadBound reading)" and rate: "rate_ok \<tau> (fst (pe_startEnv p)) (snd (pe_startEnv p))"
    using q service_Read_raw [of s2 "pe_read p"] by (simp_all add: truthful_quorum_def s3)
  let ?Is = "round_intervals cfg (rr_Raw start) reading (pe_startEnv p) (pe_results p)"
  have hull: "encloses (cr_Hull c) (\<tau> \<rho>)"
    if "ComputeAssuranceConsensus ?Is (ac_FaultBudget (cfg_Assurance cfg)) mv (positive_or 1 mh) 0 0 = Ret (Inr c)" for c mv mh
  proof (rule consensus_hull_encloses [OF that])
    show "0 <s positive_or 1 mh" by (rule positive_or_pos) (simp add: go_signed)
    show "length ?Is < 2 ^ 63"
      using round_intervals_faulty(2) [OF rd rate, of cfg "rr_Raw start" "pe_results p"] q by (simp add: truthful_quorum_def)
    show "faulty ?Is (\<tau> \<rho>) \<le> sint (ac_FaultBudget (cfg_Assurance cfg))"
      using round_intervals_faulty(1) [OF rd rate, of cfg "rr_Raw start" "pe_results p"] q by (simp add: truthful_quorum_def)
  qed
  have pub: "service_run \<tau> (snd (publishSyncRound s3 reading (pe_startEnv p) c vu e1 v1 e2 v2)) \<rho>"
    if "encloses (cr_Hull c) (\<tau> \<rho>)" for c vu e1 v1 e2 v2
    by (rule service_run.sync_round [OF r3 rd that rate])
  consider "s' = s2" | "s' = s3"
    | c vu er where "ComputeAssuranceConsensus ?Is (ac_FaultBudget (cfg_Assurance cfg)) (positive_or 1 (ac_MinVotingDomains (cfg_Assurance cfg)))
        (positive_or 1 (ac_MinHonestCoverage (cfg_Assurance cfg))) 0 0 = Ret (Inr c)"
      "publishSyncRound s3 reading (pe_startEnv p) c vu (pe_pubRead1 p) (pe_pubEnv1 p) (pe_pubRead2 p) (pe_pubEnv2 p) = (er, s')"
    using b by (auto simp: poll_body_def Let_def s1 s2_def [symmetric] s3
        split: if_splits option.splits outcome.splits sum.splits prod.splits)
  then show ?thesis
  proof cases
    case (3 c vu er)
    then show ?thesis
      using pub [OF hull [OF 3(1)], of vu "pe_pubRead1 p" "pe_pubEnv1 p" "pe_pubRead2 p" "pe_pubEnv2 p"] by (simp only: snd_conv)
  qed (use r2 r3 in simp_all)
qed

lemma PollOnce_run:
  assumes "service_run \<tau> (se_svc e) \<rho>" "truthful_quorum (se_cfg e) \<tau> \<rho> p" "PollOnce e p = Ret (err, e')"
  shows "service_run \<tau> (se_svc e') \<rho>"
proof -
  consider "e' = e"
    | err1 where "poll_body (se_cfg e) (se_svc e) p = Ret (err1, se_svc e')"
    | err1 s er where "poll_body (se_cfg e) (se_svc e) p = Ret (err1, s)"
      "markRoundFailure s (ac_MaxHoldoverAgeNs (cfg_Assurance (se_cfg e))) (pe_failRead1 p) (pe_failEnv1 p)
         (pe_failRead2 p) (pe_failRead3 p) (pe_failEnv3 p) = (er, se_svc e')"
    using assms(3) by (auto simp: PollOnce_def split: option.splits if_splits outcome.splits prod.splits)
  then show ?thesis
  proof cases
    case 3
    then have "service_run \<tau> s \<rho>" using poll_body_run [OF assms(1,2)] by blast
    then show ?thesis using service_run.failure [of \<tau> s \<rho>] 3(2) by (metis snd_conv)
  qed (use assms(1) poll_body_run [OF assms(1,2)] in simp_all)
qed

lemma PollOnce_no_panic: "PollOnce e p \<noteq> Panic"
  by (auto simp: PollOnce_def poll_body_def Let_def consensus_no_panic
      split: option.splits if_splits outcome.splits prod.splits sum.splits)

text \<open>The worker ends once its context is done, and has left the wait group.\<close>

lemma loop_ticks_return:
  assumes "CtxDone \<in> set turns"
  shows "\<exists>e'. loop_ticks turns e = Some (Ret e') \<and> \<not> se_running e' \<and> se_workers e' = se_workers e - 1"
  using assms
proof (induction turns arbitrary: e)
  case (Cons t turns)
  show ?case
  proof (cases t)
    case (Tick p)
    obtain err e1 where p: "PollOnce e p = Ret (err, e1)" using PollOnce_no_panic [of e p] by (cases "PollOnce e p") auto
    show ?thesis using Cons.IH [of e1] Cons.prems Tick p PollOnce_frame [OF p] by simp
  qed (simp add: loop_done_def loop_store_def)
qed simp

lemma loop_returns:
  assumes "CtxDone \<in> set turns"
  shows "\<exists>e'. loop p turns e = Some (Ret e') \<and> \<not> se_running e' \<and> se_workers e' = se_workers e - 1"
  unfolding loop_def using loop_ticks_return [of "Tick p # turns"] assms by simp

text \<open>Runs of an engine and the clients of its service.\<close>

inductive engine_run :: "(real \<Rightarrow> real) \<Rightarrow> 'q SyncEngine \<Rightarrow> real \<Rightarrow> bool" for \<tau> where
  new: "NewSyncEngine cfg (Some (NewClockService epochID env lh cfgID w)) opts = Inr e \<Longrightarrow> engine_run \<tau> e \<rho>"
| wait: "engine_run \<tau> e \<rho> \<Longrightarrow> \<rho> \<le> \<rho>' \<Longrightarrow> engine_run \<tau> e \<rho>'"
| poll: "engine_run \<tau> e \<rho> \<Longrightarrow> truthful_quorum (se_cfg e) \<tau> \<rho> p \<Longrightarrow> PollOnce e p = Ret (err, e') \<Longrightarrow> engine_run \<tau> e' \<rho>"
| life_cycle: "engine_run \<tau> e \<rho> \<Longrightarrow> e' \<in> {snd (Start e), Close_begin e, Close_end e, loop_store e, loop_done e} \<Longrightarrow> engine_run \<tau> e' \<rho>"
| client: "engine_run \<tau> e \<rho> \<Longrightarrow> s \<in> {snd (Now (se_svc e) r env), snd (NowPublicAssured (se_svc e) r env), SetSmearPlan plan (se_svc e),
      snd (PastWatermark (se_svc e) r env ep l c), snd (Invalidate (se_svc e) r env)} \<Longrightarrow> engine_run \<tau> (e\<lparr>se_svc := s\<rparr>) \<rho>"

lemma engine_run_service: "engine_run \<tau> e \<rho> \<Longrightarrow> service_run \<tau> (se_svc e) \<rho>"
proof (induction rule: engine_run.induct)
  case (new cfg epochID env lh cfgID w opts e \<rho>)
  then show ?case using NewSyncEngine_frame(4) [OF new] service_run.new [of \<tau> epochID env lh cfgID w \<rho>] by simp
next
  case (wait e \<rho> \<rho>')
  then show ?case by (auto intro: service_run.wait)
next
  case (poll e \<rho> p err e')
  then show ?case by (auto intro: PollOnce_run)
next
  case (life_cycle e \<rho> e')
  then show ?case by (auto simp: Start_def Close_begin_def Close_end_def loop_store_def loop_done_def split: if_splits)
next
  case (client e \<rho> s r env plan ep l c)
  then show ?case
    by (auto intro: service_run.now service_run.now_public service_run.smear service_run.past service_run.invalidate)
qed

text \<open>C2: (\<open>PollOnce\<close>, \<open>Now\<close>) The whole chain is safe. In every run of an engine in each of whose rounds at most
  F of the domains that answer lie, rounds may fail, sources may answer late or not at all, and the engine
  may be started and closed; yet whatever interval the service serves contains true time.\<close>
theorem synchronized_clock_serves_true_time:
  assumes "engine_run \<tau> e \<rho>" "reads \<rho> (rr_Raw r) (rr_ReadBound r)"
    and "Now (se_svc e) r env = (now, s')" "an_HasInterval now"
  shows "encloses (an_Interval now) (\<tau> \<rho>)"
  using Now_encloses [OF engine_run_service [OF assms(1)] assms(2), of env] assms(3,4) by simp

definition sample_source :: "string \<Rightarrow> SourceConfig" where
  "sample_source d = \<lparr>src_FaultDomainID = d, src_Endpoint = d @ ''.example:123'', src_NTS = False\<rparr>"

definition sample_config :: Config where
  "sample_config = DefaultConfig\<lparr>cfg_Sources := [sample_source ''a'', sample_source ''b'', sample_source ''c'']\<rparr>"

definition sample_engine :: "unit SyncEngine" where
  "sample_engine =
    (case NewSyncEngine sample_config (Some sample_new) [] of
       Inr e \<Rightarrow> e
     | Inl _ \<Rightarrow> \<lparr>se_cfg = sample_config, se_svc = sample_new, se_querier = None, se_pollIntvl = 0, se_queryTimeout = 0,
                 se_cancel = False, se_cancelled = False, se_workers = 0, se_running = False, se_closed = False\<rparr>)"

definition sample_answer :: "string \<Rightarrow> i64 \<Rightarrow> i64 \<Rightarrow> sourceResult" where
  "sample_answer d lo hi =
    \<lparr>sr_domain = d,
     sr_res = Some \<lparr>mr_ThetaSlowPositive = 0, mr_DeltaRaw = 0, mr_DeltaClamped = 0, mr_RawMid = 1020, mr_RawMidReadBound = 5,
                    mr_Center = 0, mr_NetworkBound = 0, mr_HardInterval = interval lo hi\<rparr>,
     sr_err = None\<rparr>"

text \<open>Two honest answers and a lie.\<close>

definition sample_poll :: poll_env where
  "sample_poll =
    \<lparr>pe_ctx = None, pe_startRead = sample_raw 1000, pe_startEnv = sample_env, pe_queryReads = [sample_raw 1010, sample_raw 1030],
     pe_results = [sample_answer ''b'' 600 630, sample_answer ''c'' 5000 5100, sample_answer ''a'' 610 640],
     pe_closedAfter = False, pe_read = sample_raw 1050, pe_env = sample_env, pe_ctxAfter = None,
     pe_pubRead1 = sample_raw 1060, pe_pubEnv1 = sample_env, pe_pubRead2 = sample_raw 1070, pe_pubEnv2 = sample_env,
     pe_ctxEnd = None, pe_closedEnd = False, pe_failRead1 = sample_raw 0, pe_failEnv1 = sample_env, pe_failRead2 = sample_raw 0,
     pe_failRead3 = sample_raw 0, pe_failEnv3 = sample_env\<rparr>"

lemma sample_engine_new: "NewSyncEngine sample_config (Some sample_new) [] = Inr sample_engine"
  by (simp add: sample_engine_def NewSyncEngine_def sample_config_def Let_def Validate_def DefaultConfig_def go_signed)

lemma sample_intervals:
  "round_intervals sample_config 1000 (sample_raw 1050) sample_env (pe_results sample_poll)
   = [interval 625 685, interval 615 675, interval 5015 5145]"
  by code_simp

lemma sample_polled:
  "case PollOnce sample_engine sample_poll of
     Ret (None, e) \<Rightarrow> (let now = fst (Now (se_svc e) (sample_raw 2000) sample_env)
                      in an_HasInterval now \<and> an_Interval now = interval 1555 1645 \<and> an_Status now = StatusSynced)
   | _ \<Rightarrow> False"
  by code_simp

lemma sample_quorum: "truthful_quorum sample_config (\<lambda>x. x - 400) 1050 sample_poll"
proof -
  have t: "truthful_result (\<lambda>x. x - 400) 1050 (sample_answer ''a'' 610 640)" "truthful_result (\<lambda>x. x - 400) 1050 (sample_answer ''b'' 600 630)"
    by (auto simp: truthful_result_def sample_answer_def reads_def encloses_def intro!: exI [of _ 1020])
  then have "lying_domains (\<lambda>x. x - 400) 1050 (pe_results sample_poll) \<subseteq> {''c''}"
    by (auto simp: lying_domains_def sample_poll_def sample_answer_def)
  then have "card (lying_domains (\<lambda>x. x - 400) 1050 (pe_results sample_poll)) \<le> 1"
    using card_mono [of "{''c''}"] by fastforce
  then show ?thesis
    using sample_rate by (simp add: truthful_quorum_def sample_poll_def sample_raw_def reads_def sample_config_def DefaultConfig_def)
qed

lemma synchronized_clock_serves_true_time_witness: "encloses (interval 1555 1645) (1600 :: real)"
proof -
  obtain e where e: "PollOnce sample_engine sample_poll = Ret (None, e)"
    and now: "an_HasInterval (fst (Now (se_svc e) (sample_raw 2000) sample_env))"
      "an_Interval (fst (Now (se_svc e) (sample_raw 2000) sample_env)) = interval 1555 1645"
    using sample_polled by (auto split: outcome.splits prod.splits option.splits simp: Let_def)
  have cfg: "se_cfg sample_engine = sample_config" using NewSyncEngine_frame [OF sample_engine_new] by simp
  have "engine_run (\<lambda>x. x - 400) sample_engine 1050"
    by (rule engine_run.new [OF sample_engine_new [unfolded sample_new_def]])
  then have "engine_run (\<lambda>x. x - 400) e 1050"
    by (rule engine_run.poll [OF _ _ e]) (simp add: cfg sample_quorum)
  then have "engine_run (\<lambda>x. x - 400) e 2000" by (rule engine_run.wait) simp
  moreover have "reads 2000 (rr_Raw (sample_raw 2000)) (rr_ReadBound (sample_raw 2000))" by (simp add: sample_raw_def reads_def)
  ultimately have "encloses (an_Interval (fst (Now (se_svc e) (sample_raw 2000) sample_env))) (2000 - 400)"
    using synchronized_clock_serves_true_time [OF _ _ surjective_pairing now(1)] by blast
  then show ?thesis by (simp add: now(2))
qed

lemma closed_stays:
  assumes "sync_step s t" "se_closed (sy_engine s)" "\<not> sy_closing s"
  shows "se_closed (sy_engine t) \<and> \<not> sy_closing t"
  using assms
proof (induction rule: sync_step.induct)
  case (start s err e)
  then show ?case by (auto simp: Start_def split: if_splits)
next
  case (poll s p err e)
  then show ?case using PollOnce_frame [OF poll(2)] by simp
qed (auto simp: loop_store_def loop_done_def)

lemma closed_for_ever:
  assumes "sync_step\<^sup>*\<^sup>* s t" "se_closed (sy_engine s)" "\<not> sy_closing s"
  shows "se_closed (sy_engine t) \<and> \<not> sy_closing t"
  using assms(1) by (induction rule: rtranclp_induct) (use assms closed_stays in blast)+

text \<open>C32: (\<open>Start\<close>, \<open>Close\<close>) The worker's life cycle. Whatever the interleaving of starts, rounds, workers that leave and
  closes, at most one worker polls. Once a close has returned (the step that ends it), in every state the engine reaches from
  then on it is closed, no worker is there, polls or is about to stop, and a start fails and changes nothing.\<close>
theorem engine_single_worker:
  assumes "NewSyncEngine cfg svc opts = Inr e" "sync_step\<^sup>*\<^sup>* (sync_init e) s"
  shows "sy_polling s \<le> 1 \<and>
    (\<forall>t u. sy_closing s \<and> sync_step s t \<and> \<not> sy_closing t \<and> sync_step\<^sup>*\<^sup>* t u \<longrightarrow>
       se_closed (sy_engine u) \<and> se_workers (sy_engine u) = 0 \<and> sy_polling u = 0 \<and> sy_stopping u = 0 \<and>
       (\<exists>err. Start (sy_engine u) = (Some err, sy_engine u)))"
proof (intro conjI allI impI)
  show "sy_polling s \<le> 1" using sync_reachable_ok [OF assms] by (auto simp: sync_ok_def Let_def)
  fix t u assume "sy_closing s \<and> sync_step s t \<and> \<not> sy_closing t \<and> sync_step\<^sup>*\<^sup>* t u"
  then have c: "sy_closing s" "sync_step s t" "\<not> sy_closing t" "sync_step\<^sup>*\<^sup>* t u" by simp_all
  have "se_closed (sy_engine s)" using sync_reachable_ok [OF assms] c(1) by (auto simp: sync_ok_def Let_def)
  then have "se_closed (sy_engine t)" using c(1-3) by (auto elim!: sync_step_cases simp: Close_end_def)
  with closed_for_ever [OF c(4) _ c(3)] have u: "se_closed (sy_engine u)" "\<not> sy_closing u" by simp_all
  have "sync_step\<^sup>*\<^sup>* (sync_init e) u" using assms(2) c(2,4) by (meson rtranclp.rtrancl_into_rtrancl rtranclp_trans)
  from sync_reachable_ok [OF assms(1) this] u
  show "se_closed (sy_engine u)" "se_workers (sy_engine u) = 0" "sy_polling u = 0" "sy_stopping u = 0"
    "\<exists>err. Start (sy_engine u) = (Some err, sy_engine u)"
    by (auto simp: sync_ok_def Let_def Start_def)
qed

lemma engine_single_worker_witness:
  "\<exists>err. Start (Close_end (Close_begin sample_engine)) = (Some err, Close_end (Close_begin sample_engine))"
proof -
  let ?s = "(sync_init sample_engine)\<lparr>sy_engine := Close_begin sample_engine, sy_closing := True\<rparr>"
  let ?t = "?s\<lparr>sy_engine := Close_end (Close_begin sample_engine), sy_closing := False\<rparr>"
  have f: "\<not> se_closed sample_engine" "se_workers (Close_begin sample_engine) = 0"
    using NewSyncEngine_frame [OF sample_engine_new] by (simp_all add: Close_begin_def)
  have b: "sync_step (sync_init sample_engine) ?s"
    using sync_step.close_begin [of "sync_init sample_engine"] f by (simp add: sync_init_def)
  have c: "sync_step ?s ?t" using sync_step.close_end [of ?s] f by (simp add: sync_init_def)
  show ?thesis using engine_single_worker [OF sample_engine_new r_into_rtranclp [of sync_step, OF b]] c by fastforce
qed

end
