(* ===== verification/Scheduler.thy ===== *)
theory Scheduler
  imports CoreTypes Floats
begin

text \<open>
  The poll scheduler of package ntp (\<open>ntp/scheduler.go\<close>): the poll exponent between its bounds, the stability score in
  float64 that lengthens and shortens it, and the back-off of missed responses. \<open>math.Log2\<close> is the argument \<open>log2\<close>
  of the operations that call it: nothing shown here depends on its values.
\<close>

unbundle bit_operations_syntax

type_synonym PollExp = "8 word"

record PollScheduler =
  ps_minPoll :: PollExp
  ps_maxPoll :: PollExp
  ps_currentPoll :: PollExp
  ps_stabilityScore :: float64
  ps_missCount :: i64

definition NewPollScheduler :: "PollExp \<Rightarrow> PollExp \<Rightarrow> PollScheduler" where
  "NewPollScheduler minPoll maxPoll =
    (let lo = (if minPoll <s 4 then 4 else minPoll);
         hi = (if maxPoll <s lo then lo else maxPoll)
     in \<lparr> ps_minPoll = lo, ps_maxPoll = hi, ps_currentPoll = lo, ps_stabilityScore = Fin 0, ps_missCount = 0 \<rparr>)"

definition CurrentPoll :: "PollScheduler \<Rightarrow> PollExp" where
  "CurrentPoll s = ps_currentPoll s"

text \<open>The score after a sample, and what it does to the exponent.\<close>

definition stability_after :: "(float64 \<Rightarrow> float64) \<Rightarrow> float64 \<Rightarrow> float64 \<Rightarrow> float64 \<Rightarrow> float64" where
  "stability_after log2 score innovationNs expectedErrorNs =
    (if f_less (Fin 0) expectedErrorNs \<and> f_less expectedErrorNs innovationNs
     then let ratio = f_div innovationNs expectedErrorNs; penalty = f_Min (Fin 1) (log2 ratio)
          in if f_less (Fin 0) penalty then f_sub score penalty else score
     else f_add score (f_lit (1 / 2)))"

definition settle_score :: "PollScheduler \<Rightarrow> PollScheduler" where
  "settle_score s =
    (if f_leq (Fin 1) (ps_stabilityScore s)
     then s\<lparr> ps_currentPoll := (if ps_currentPoll s <s ps_maxPoll s then ps_currentPoll s + 1 else ps_currentPoll s),
             ps_stabilityScore := Fin 0 \<rparr>
     else if f_leq (ps_stabilityScore s) (Fin (- 1))
     then s\<lparr> ps_currentPoll := (if ps_minPoll s <s ps_currentPoll s then ps_currentPoll s - 1 else ps_currentPoll s),
             ps_stabilityScore := Fin 0 \<rparr>
     else s)"

definition OnUsableSample :: "(float64 \<Rightarrow> float64) \<Rightarrow> PollScheduler \<Rightarrow> float64 \<Rightarrow> float64 \<Rightarrow> PollScheduler" where
  "OnUsableSample log2 s innovationNs expectedErrorNs =
    settle_score (s\<lparr> ps_missCount := 0,
                     ps_stabilityScore := stability_after log2 (ps_stabilityScore s) innovationNs expectedErrorNs \<rparr>)"

definition OnTimeout :: "PollScheduler \<Rightarrow> PollScheduler" where
  "OnTimeout s =
    (let s' = s\<lparr> ps_missCount := ps_missCount s + 1 \<rparr>
     in if 3 \<le>s ps_missCount s' \<and> ps_currentPoll s' <s ps_maxPoll s'
        then s'\<lparr> ps_currentPoll := ps_currentPoll s' + 1, ps_stabilityScore := Fin 0 \<rparr>
        else s')"

text \<open>The calls that change a scheduler.\<close>

datatype PollEvent = UsableSample float64 float64 | MissedResponse

fun poll_event :: "(float64 \<Rightarrow> float64) \<Rightarrow> PollScheduler \<Rightarrow> PollEvent \<Rightarrow> PollScheduler" where
  "poll_event log2 s (UsableSample innovationNs expectedErrorNs) = OnUsableSample log2 s innovationNs expectedErrorNs"
| "poll_event log2 s MissedResponse = OnTimeout s"

definition poll_events :: "(float64 \<Rightarrow> float64) \<Rightarrow> PollScheduler \<Rightarrow> PollEvent list \<Rightarrow> PollScheduler" where
  "poll_events log2 = foldl (poll_event log2)"

subsection \<open>Invariant\<close>

definition score_ok :: "float64 \<Rightarrow> bool" where
  "score_ok a \<longleftrightarrow> f_finite a \<and> \<bar>f_val a\<bar> < 1"

definition poll_ok :: "PollScheduler \<Rightarrow> bool" where
  "poll_ok s \<longleftrightarrow>
     4 \<le> sint (ps_minPoll s) \<and> sint (ps_minPoll s) \<le> sint (ps_currentPoll s) \<and>
     sint (ps_currentPoll s) \<le> sint (ps_maxPoll s) \<and> score_ok (ps_stabilityScore s)"

lemma sint_poll_inc: "(a :: PollExp) <s b \<Longrightarrow> sint (a + 1) = sint a + 1"
  using sint_greater_eq [of a] sint_less [of a] sint_greater_eq [of b] sint_less [of b] by (simp add: word_sless_alt sint_word_ariths signed_take_bit_int_eq_self)

lemma sint_poll_dec: "(a :: PollExp) <s b \<Longrightarrow> sint (b - 1) = sint b - 1"
  using sint_greater_eq [of a] sint_less [of a] sint_greater_eq [of b] sint_less [of b] by (simp add: word_sless_alt sint_word_ariths signed_take_bit_int_eq_self)

lemma f_lit_half: "f_finite (f_lit (1 / 2)) \<and> f_val (f_lit (1 / 2)) = 1 / 2"
  by code_simp

lemma positive_penalty:
  assumes "f_less (Fin 0) (f_Min (Fin 1) l)"
  shows "f_finite (f_Min (Fin 1) l)" "0 < f_val (f_Min (Fin 1) l)" "f_val (f_Min (Fin 1) l) \<le> 1"
  using assms by (cases l; simp add: f_Min_def f_less_def split: if_splits)+

text \<open>The score before it is settled is finite and below two, whatever \<open>log2\<close> gives.\<close>

lemma stability_after_bound:
  assumes "score_ok a"
  shows "f_finite (stability_after log2 a i e) \<and> \<bar>f_val (stability_after log2 a i e)\<bar> \<le> 2"
proof -
  have big: "(2 :: rat) \<le> 2 powi 1023" using powi_2_mono [of 1 1023] by simp
  have r: "\<bar>rnd x\<bar> \<le> 2" if "\<bar>x\<bar> \<le> 2" for x using rnd_small [of x 2] that by simp
  have a: "f_finite a" "\<bar>f_val a\<bar> < 1" using assms by (auto simp: score_ok_def)
  let ?p = "f_Min (Fin 1) (log2 (f_div i e))"
  have sub: "f_finite (f_sub a ?p) \<and> \<bar>f_val (f_sub a ?p)\<bar> \<le> 2" if "f_less (Fin 0) ?p"
  proof -
    have d: "\<bar>f_val a - f_val ?p\<bar> \<le> 2" using positive_penalty [OF that] a by linarith
    then show ?thesis using f_sub_val [of a ?p] positive_penalty [OF that] a(1) r [OF d] order_trans [OF d big] by simp
  qed
  have d: "\<bar>f_val a + f_val (f_lit (1 / 2))\<bar> \<le> 2" using a f_lit_half by linarith
  have add: "f_finite (f_add a (f_lit (1 / 2))) \<and> \<bar>f_val (f_add a (f_lit (1 / 2)))\<bar> \<le> 2"
    using f_add_val [OF a(1) _ order_trans [OF d big]] f_lit_half r [OF d] by metis
  show ?thesis using sub add a by (simp add: stability_after_def Let_def)
qed

lemma settle_score_ok:
  assumes "poll_ok (s\<lparr> ps_stabilityScore := Fin 0 \<rparr>)" "f_finite (ps_stabilityScore s)"
  shows "poll_ok (settle_score s)"
  using assms sint_poll_inc [of "ps_currentPoll s" "ps_maxPoll s"] sint_poll_dec [of "ps_minPoll s" "ps_currentPoll s"]
  by (auto simp: poll_ok_def score_ok_def settle_score_def f_leq_val word_sless_alt abs_less_iff)

lemma poll_event_ok: "poll_ok s \<Longrightarrow> poll_ok (poll_event log2 s ev)"
proof (cases ev)
  case (UsableSample i e)
  assume s: "poll_ok s"
  have "f_finite (stability_after log2 (ps_stabilityScore s) i e)"
    using s stability_after_bound unfolding poll_ok_def by blast
  then show ?thesis using s unfolding UsableSample poll_event.simps OnUsableSample_def
    by (intro settle_score_ok) (simp_all add: poll_ok_def score_ok_def)
next
  case MissedResponse
  assume "poll_ok s"
  then show ?thesis using sint_poll_inc [of "ps_currentPoll s" "ps_maxPoll s"]
    by (auto simp: MissedResponse OnTimeout_def Let_def poll_ok_def score_ok_def word_sless_alt)
qed

lemma poll_events_ok: "poll_ok s \<Longrightarrow> poll_ok (poll_events log2 s evs)"
  by (induction evs arbitrary: s) (simp_all add: poll_events_def poll_event_ok)

lemma NewPollScheduler_ok: "poll_ok (NewPollScheduler lo hi)"
  by (auto simp: NewPollScheduler_def poll_ok_def score_ok_def Let_def word_sless_alt)

lemma poll_events_bounds: "ps_minPoll (poll_events log2 s evs) = ps_minPoll s \<and> ps_maxPoll (poll_events log2 s evs) = ps_maxPoll s"
proof (induction evs arbitrary: s)
  case (Cons ev evs)
  have "ps_minPoll (poll_event log2 s ev) = ps_minPoll s \<and> ps_maxPoll (poll_event log2 s ev) = ps_maxPoll s"
    by (cases ev) (simp_all add: OnUsableSample_def settle_score_def OnTimeout_def Let_def)
  then show ?case using Cons [of "poll_event log2 s ev"] by (simp add: poll_events_def)
qed (simp add: poll_events_def)

text \<open>C37: The exponent of a new scheduler stays between the bounds it was made with, the lower one raised to 4, and the
  score strictly between -1 and 1 and never NaN, over every sequence of samples and missed responses, with any float64
  innovation and error and whatever the logarithm returns.\<close>

theorem poll_stays_between_bounds:
  "let s = poll_events log2 (NewPollScheduler lo hi) evs
   in max 4 (sint lo) \<le> sint (CurrentPoll s) \<and> sint (CurrentPoll s) \<le> max (max 4 (sint lo)) (sint hi) \<and>
      f_finite (ps_stabilityScore s) \<and> \<bar>f_val (ps_stabilityScore s)\<bar> < 1"
proof -
  let ?s = "NewPollScheduler lo hi"
  have "sint (ps_minPoll ?s) = max 4 (sint lo)" "sint (ps_maxPoll ?s) = max (max 4 (sint lo)) (sint hi)"
    by (auto simp: NewPollScheduler_def Let_def word_sless_alt)
  then show ?thesis using poll_events_ok [OF NewPollScheduler_ok [of lo hi], of log2 evs] poll_events_bounds [of log2 ?s evs]
    by (simp add: poll_ok_def score_ok_def CurrentPoll_def Let_def)
qed

subsection \<open>Back-off and recovery\<close>

lemma poll_events_append: "poll_events log2 s (xs @ ys) = poll_events log2 (poll_events log2 s xs) ys"
  by (simp add: poll_events_def)

lemma replicate_Suc_back: "replicate (Suc k) x = replicate k x @ [x]"
  by (simp add: replicate_append_same)

lemma timeouts_state:
  assumes "poll_ok s" "ps_missCount s = 0" "int k < 2 ^ 63"
  shows "sint (ps_missCount (poll_events log2 s (replicate k MissedResponse))) = int k \<and>
    sint (ps_currentPoll (poll_events log2 s (replicate k MissedResponse))) =
      min (sint (ps_maxPoll s)) (sint (ps_currentPoll s) + int (k - 2))"
  using assms(3)
proof (induction k)
  case 0
  then show ?case using assms by (simp add: poll_events_def poll_ok_def)
next
  case (Suc k)
  define t where "t = poll_events log2 s (replicate k MissedResponse)"
  have t: "sint (ps_missCount t) = int k" "sint (ps_currentPoll t) = min (sint (ps_maxPoll s)) (sint (ps_currentPoll s) + int (k - 2))"
    using Suc by (simp_all add: t_def)
  have m: "ps_maxPoll t = ps_maxPoll s" by (simp add: t_def poll_events_bounds)
  have c: "sint (ps_missCount t + 1) = int (Suc k)"
    using t(1) Suc.prems by (simp add: sint_word_ariths signed_take_bit_int_eq_self)
  have e: "poll_events log2 s (replicate (Suc k) MissedResponse) = OnTimeout t"
    unfolding replicate_Suc_back poll_events_append t_def [symmetric] by (simp add: poll_events_def)
  show ?case unfolding e using c t(2) m sint_poll_inc [of "ps_currentPoll t" "ps_maxPoll t"] assms(1)
    by (auto simp: OnTimeout_def Let_def word_sle_eq word_sless_alt poll_ok_def)
qed

lemma miss_count_reset:
  assumes "evs = [] \<or> (\<exists>i e. last evs = UsableSample i e)"
  shows "ps_missCount (poll_events log2 (NewPollScheduler lo hi) evs) = 0"
proof (cases evs rule: rev_cases)
  case Nil
  then show ?thesis by (simp add: poll_events_def NewPollScheduler_def Let_def)
next
  case (snoc ys y)
  then obtain i e where "y = UsableSample i e" using assms by auto
  then show ?thesis by (simp add: snoc poll_events_append) (simp add: poll_events_def OnUsableSample_def settle_score_def)
qed

text \<open>C38: A server that stops answering is polled ever less: at any time of a scheduler's life, \<open>k\<close> missed responses
  in a row, after an accepted sample or from the start, lengthen the exponent by one for each from the third on, up to the
  longest allowed, where it stays; the first two change nothing. A new scheduler starts at the shortest exponent, which is
  at least 4.\<close>

theorem timeouts_back_off:
  assumes "int k < 2 ^ 63" "evs = [] \<or> (\<exists>i e. last evs = UsableSample i e)"
  shows "sint (CurrentPoll (poll_events log2 (NewPollScheduler lo hi) (evs @ replicate k MissedResponse))) =
      min (max (max 4 (sint lo)) (sint hi)) (sint (CurrentPoll (poll_events log2 (NewPollScheduler lo hi) evs)) + int (k - 2)) \<and>
    sint (CurrentPoll (NewPollScheduler lo hi)) = max 4 (sint lo)"
proof -
  let ?s = "poll_events log2 (NewPollScheduler lo hi) evs"
  have "ps_maxPoll ?s = ps_maxPoll (NewPollScheduler lo hi)" by (simp add: poll_events_bounds)
  then have "sint (ps_maxPoll ?s) = max (max 4 (sint lo)) (sint hi)"
    by (auto simp: NewPollScheduler_def Let_def word_sless_alt)
  then show ?thesis
    using timeouts_state [OF poll_events_ok [OF NewPollScheduler_ok] miss_count_reset [OF assms(2)] assms(1)]
    by (auto simp: CurrentPoll_def poll_events_append NewPollScheduler_def Let_def word_sless_alt)
qed

theorem timeouts_back_off_witness:
  "sint (CurrentPoll (poll_events id (NewPollScheduler 6 10)
     ([MissedResponse, MissedResponse, UsableSample (Fin 1) (Fin 2)] @ replicate 5 MissedResponse))) =
   min 10 (sint (CurrentPoll (poll_events id (NewPollScheduler 6 10) [MissedResponse, MissedResponse, UsableSample (Fin 1) (Fin 2)])) + 3)"
  by (subst timeouts_back_off [THEN conjunct1]) simp_all

text \<open>Samples within their expected error.\<close>

definition stable_sample :: "float64 \<times> float64 \<Rightarrow> bool" where
  "stable_sample x \<longleftrightarrow> \<not> (f_less (Fin 0) (snd x) \<and> f_less (snd x) (fst x))"

lemma half_steps: "f_add (Fin 0) (f_lit (1 / 2)) = Fin (1 / 2)" "f_add (Fin (1 / 2)) (f_lit (1 / 2)) = Fin 1"
  by code_simp+

lemma half_below_one: "\<not> f_leq (Fin 1) (Fin (1 / 2))" "\<not> f_leq (Fin (1 / 2)) (Fin (- 1))" "f_leq (Fin 1) (Fin 1)"
  by (simp_all add: f_leq_def f_less_def)

lemma two_stable_samples:
  assumes "ps_stabilityScore s = Fin 0" "stable_sample x" "stable_sample y"
  shows "OnUsableSample log2 (OnUsableSample log2 s (fst x) (snd x)) (fst y) (snd y) =
    s\<lparr> ps_missCount := 0, ps_currentPoll := (if ps_currentPoll s <s ps_maxPoll s then ps_currentPoll s + 1 else ps_currentPoll s) \<rparr>"
proof -
  have x: "stability_after log2 (Fin 0) (fst x) (snd x) = Fin (1 / 2)"
    unfolding stability_after_def half_steps using assms(2) unfolding stable_sample_def by (rule if_not_P)
  have y: "stability_after log2 (Fin (1 / 2)) (fst y) (snd y) = Fin 1"
    unfolding stability_after_def half_steps using assms(3) unfolding stable_sample_def by (rule if_not_P)
  show ?thesis using assms(1) by (simp add: OnUsableSample_def settle_score_def x y half_below_one)
qed

fun samples_of :: "(float64 \<times> float64) list \<Rightarrow> PollEvent list" where
  "samples_of xs = map (\<lambda>(i, e). UsableSample i e) xs"

lemma stable_samples_state:
  assumes "poll_ok s" "ps_stabilityScore s = Fin 0" "length xs = 2 * k" "list_all stable_sample xs"
  shows "ps_stabilityScore (poll_events log2 s (samples_of xs)) = Fin 0 \<and>
    sint (ps_currentPoll (poll_events log2 s (samples_of xs))) = min (sint (ps_maxPoll s)) (sint (ps_currentPoll s) + int k)"
  using assms
proof (induction k arbitrary: s xs)
  case 0
  then show ?case by (simp add: poll_events_def poll_ok_def)
next
  case (Suc k)
  obtain x y ys where xs: "xs = x # y # ys" "length ys = 2 * k" using Suc.prems(3) by (cases xs rule: remdups_adj.cases) auto
  have st: "stable_sample x" "stable_sample y" "list_all stable_sample ys" using Suc.prems(4) xs by simp_all
  define t where "t = OnUsableSample log2 (OnUsableSample log2 s (fst x) (snd x)) (fst y) (snd y)"
  have t: "t = s\<lparr> ps_missCount := 0, ps_currentPoll := (if ps_currentPoll s <s ps_maxPoll s then ps_currentPoll s + 1 else ps_currentPoll s) \<rparr>"
    unfolding t_def by (rule two_stable_samples [OF Suc.prems(2) st(1,2)])
  have ok: "poll_ok t" using Suc.prems(1) sint_poll_inc [of "ps_currentPoll s" "ps_maxPoll s"]
    by (auto simp: t poll_ok_def word_sless_alt)
  have e: "poll_events log2 s (samples_of xs) = poll_events log2 t (samples_of ys)"
    by (simp add: xs poll_events_def t_def case_prod_beta)
  show ?case unfolding e using Suc.IH [OF ok _ xs(2) st(3)] Suc.prems(1,2) sint_poll_inc [of "ps_currentPoll s" "ps_maxPoll s"]
    by (auto simp: t word_sless_alt poll_ok_def)
qed

text \<open>Every two samples within their expected error lengthen the interval of a new scheduler by one exponent, up to the
  longest allowed; the two halves of the score add up to exactly one in float64.\<close>

theorem stable_samples_reach_maxPoll:
  assumes "list_all stable_sample xs" "length xs = 2 * k"
  shows "sint (CurrentPoll (poll_events log2 (NewPollScheduler lo hi) (samples_of xs))) =
    min (max (max 4 (sint lo)) (sint hi)) (max 4 (sint lo) + int k)"
proof -
  let ?s = "NewPollScheduler lo hi"
  have "sint (ps_currentPoll ?s) = max 4 (sint lo)" "sint (ps_maxPoll ?s) = max (max 4 (sint lo)) (sint hi)" "ps_stabilityScore ?s = Fin 0"
    by (auto simp: NewPollScheduler_def Let_def word_sless_alt)
  then show ?thesis using stable_samples_state [OF NewPollScheduler_ok [of lo hi] _ assms(2,1), of log2] by (simp add: CurrentPoll_def)
qed

theorem stable_samples_reach_maxPoll_witness:
  "sint (CurrentPoll (poll_events id (NewPollScheduler 6 10) (samples_of (replicate 4 (Fin 1, Fin 2))))) = 8"
  using stable_samples_reach_maxPoll [of "replicate 4 (Fin 1, Fin 2)" 2 id 6 10]
  by (simp add: stable_sample_def f_less_def numeral_eq_Suc)

end
