(* ===== verification/Runs.thy ===== *)
theory Runs
  imports CoreTypes Floats "HOL-Library.Multiset"
begin

text \<open>
  The runs test of package source (\<open>source/estimate.go\<close>, \<open>ComputeRunsPValue\<close> and \<open>logComb\<close>), in float64.
  \<open>math.Exp\<close> and \<open>math.Lgamma\<close> are arguments of the operations, and so is the order in which Go iterates over the map
  of counts. The lemmas count the arrangements of signs by their runs, show that the observed number of runs is
  always in the table, and bound the rounding of the computed p-value against the exact conditional one.
\<close>

subsection \<open>The computation\<close>

definition EstimateQuantumSec :: float64 where "EstimateQuantumSec = f_lit (1 / 10 ^ 9)"

definition MachineEpsilon :: rat where "MachineEpsilon = 2220446049250313 / 10 ^ 31"

definition f_of_int :: "int \<Rightarrow> float64" where
  "f_of_int n = f_of_i64 (of_int n)"

definition logComb :: "(float64 \<Rightarrow> float64) \<Rightarrow> int \<Rightarrow> int \<Rightarrow> float64" where
  "logComb lgamma n k =
    (if k < 0 \<or> n < k then Inf True
     else if k = 0 \<or> k = n then Fin 0
     else f_sub (f_sub (lgamma (f_of_int (n + 1))) (lgamma (f_of_int (k + 1)))) (lgamma (f_of_int (n - k + 1))))"

text \<open>The signs of the residuals outside the dead band, and the numbers of positive and negative ones.\<close>

definition runs_deadband :: "float64 \<Rightarrow> float64" where
  "runs_deadband maxAbsModelVal =
    (let deadband = f_mul (f_lit (8 * MachineEpsilon)) maxAbsModelVal
     in if f_less deadband EstimateQuantumSec then EstimateQuantumSec else deadband)"

fun collect_signs :: "float64 \<Rightarrow> float64 list \<Rightarrow> int list \<times> int \<times> int \<Rightarrow> int list \<times> int \<times> int" where
  "collect_signs deadband [] acc = acc"
| "collect_signs deadband (r # rs) (signs, nPos, nNeg) =
    (if f_less deadband r then collect_signs deadband rs (signs @ [1], nPos + 1, nNeg)
     else if f_less r (f_uminus deadband) then collect_signs deadband rs (signs @ [- 1], nPos, nNeg + 1)
     else collect_signs deadband rs (signs, nPos, nNeg))"

fun runs_loop :: "int \<Rightarrow> int \<Rightarrow> int list \<Rightarrow> int" where
  "runs_loop rObs prev [] = rObs"
| "runs_loop rObs prev (s # signs) = runs_loop (if s \<noteq> prev then rObs + 1 else rObs) s signs"

definition observed_runs :: "int list \<Rightarrow> int" where
  "observed_runs signs = runs_loop 1 (hd signs) (tl signs)"

definition max_runs :: "int \<Rightarrow> int \<Rightarrow> int" where
  "max_runs nPos nNeg = (if nPos = nNeg then 2 * nPos else 2 * min nPos nNeg + 1)"

definition Ln2 :: rat where
  "Ln2 = 693147180559945309417232121458176568 / 10 ^ 36"

definition run_count :: "(float64 \<Rightarrow> float64) \<Rightarrow> (float64 \<Rightarrow> float64) \<Rightarrow> int \<Rightarrow> int \<Rightarrow> int \<Rightarrow> float64" where
  "run_count mexp lgamma nPos nNeg r =
    (if r mod 2 = 0
     then let k = r div 2
          in if k - 1 \<le> nPos - 1 \<and> k - 1 \<le> nNeg - 1 \<and> 0 \<le> k - 1
             then mexp (f_add (f_add (f_lit Ln2) (logComb lgamma (nPos - 1) (k - 1))) (logComb lgamma (nNeg - 1) (k - 1)))
             else Fin 0
     else let k = (r - 1) div 2;
              t1 = (if k \<le> nPos - 1 \<and> k - 1 \<le> nNeg - 1 \<and> 0 \<le> k - 1
                    then mexp (f_add (logComb lgamma (nPos - 1) k) (logComb lgamma (nNeg - 1) (k - 1))) else Fin 0);
              t2 = (if k - 1 \<le> nPos - 1 \<and> k \<le> nNeg - 1 \<and> 0 \<le> k - 1
                    then mexp (f_add (logComb lgamma (nPos - 1) (k - 1)) (logComb lgamma (nNeg - 1) k)) else Fin 0)
          in f_add t1 t2)"

text \<open>The map from numbers of runs to counts, as an association list, and its lookup.\<close>

definition runs_table :: "(float64 \<Rightarrow> float64) \<Rightarrow> (float64 \<Rightarrow> float64) \<Rightarrow> int \<Rightarrow> int \<Rightarrow> (int \<times> float64) list" where
  "runs_table mexp lgamma nPos nNeg =
    filter (\<lambda>(r, cnt). f_less (Fin 0) cnt) (map (\<lambda>r. (r, run_count mexp lgamma nPos nNeg r)) [2..max_runs nPos nNeg])"

definition table_count :: "(int \<times> float64) list \<Rightarrow> int \<Rightarrow> float64" where
  "table_count counts r = (case map_of counts r of Some cnt \<Rightarrow> cnt | None \<Rightarrow> Fin 0)"

fun p_sum :: "float64 \<Rightarrow> float64 \<Rightarrow> float64 \<Rightarrow> (int \<times> float64) list \<Rightarrow> float64" where
  "p_sum limit totalPerms pSum [] = pSum"
| "p_sum limit totalPerms pSum ((r, cnt) # counts) =
    p_sum limit totalPerms (if f_leq cnt limit then f_add pSum (f_div cnt totalPerms) else pSum) counts"

type_synonym iteration = "(int \<times> float64) list \<Rightarrow> (int \<times> float64) list"

definition ComputeRunsPValue ::
  "(float64 \<Rightarrow> float64) \<Rightarrow> (float64 \<Rightarrow> float64) \<Rightarrow> iteration \<Rightarrow> float64 list \<Rightarrow> float64 \<Rightarrow> float64" where
  "ComputeRunsPValue mexp lgamma iterate residuals maxAbsModelVal =
    (let (signs, nPos, nNeg) = collect_signs (runs_deadband maxAbsModelVal) residuals ([], 0, 0)
     in if nPos = 0 \<or> nNeg = 0 \<or> length signs < 2 then Fin 1
        else let rObs = observed_runs signs;
                 totalPerms = mexp (logComb lgamma (nPos + nNeg) nPos);
                 counts = runs_table mexp lgamma nPos nNeg;
                 limit = f_mul (table_count counts rObs) (f_lit (1 + 1 / 10 ^ 12))
             in f_Min (Fin 1) (p_sum limit totalPerms (Fin 0) (iterate counts)))"

subsection \<open>Arrangements and their runs\<close>

text \<open>Lists of signs and the number of their changes.\<close>

fun changes :: "int \<Rightarrow> int list \<Rightarrow> nat" where
  "changes prev [] = 0"
| "changes prev (s # signs) = (if s \<noteq> prev then Suc (changes s signs) else changes s signs)"

lemma runs_loop_changes: "runs_loop c prev signs = c + int (changes prev signs)"
  by (induction signs arbitrary: c prev) auto

lemma observed_runs_Cons: "observed_runs (s # signs) = 1 + int (changes s signs)"
  by (simp add: observed_runs_def runs_loop_changes)

text \<open>What may follow a sign \<open>b\<close>, with \<open>p\<close> signs equal to it, \<open>q\<close> opposite ones and \<open>c\<close> changes.\<close>

definition tails_of :: "int \<Rightarrow> nat \<Rightarrow> nat \<Rightarrow> nat \<Rightarrow> int list set" where
  "tails_of b p q c = {s. set s \<subseteq> {b, - b} \<and> count_list s b = p \<and> count_list s (- b) = q \<and> changes b s = c}"

definition tails_count :: "nat \<Rightarrow> nat \<Rightarrow> nat \<Rightarrow> nat" where
  "tails_count p q c =
    (if even c then (if c = 0 then of_bool (q = 0) else if q = 0 then 0 else (p choose (c div 2)) * ((q - 1) choose (c div 2 - 1)))
     else if q = 0 then 0 else (p choose (c div 2)) * ((q - 1) choose (c div 2)))"

lemma tails_of_0: "b \<noteq> 0 \<Longrightarrow> tails_of b 0 0 c = (if c = 0 then {[]} else {})"
proof -
  assume b: "b \<noteq> 0"
  have "s = []" if "s \<in> tails_of b 0 0 c" for s
  proof (cases s)
    case (Cons x xs)
    then show ?thesis using that b by (auto simp: tails_of_def split: if_splits)
  qed simp
  moreover have "[] \<in> tails_of b 0 0 c \<longleftrightarrow> c = 0" by (auto simp: tails_of_def)
  ultimately show ?thesis by auto
qed

lemma tails_of_step:
  assumes "b \<noteq> 0" "0 < p + q"
  shows "tails_of b p q c =
    (if 0 < p then (#) b ` tails_of b (p - 1) q c else {}) \<union>
    (if 0 < q \<and> 0 < c then (#) (- b) ` tails_of (- b) (q - 1) p (c - 1) else {})"
    (is "_ = ?A \<union> ?B")
proof (intro equalityI subsetI)
  fix s assume s: "s \<in> tails_of b p q c"
  then obtain x t where x: "s = x # t" using assms(2) by (cases s) (auto simp: tails_of_def)
  have "x = b \<or> x = - b" using s x by (auto simp: tails_of_def)
  then show "s \<in> ?A \<union> ?B"
  proof
    assume [simp]: "x = b"
    have "0 < p" "t \<in> tails_of b (p - 1) q c" using s assms(1) by (auto simp: x tails_of_def split: if_splits)
    then show ?thesis by (auto simp: x)
  next
    assume [simp]: "x = - b"
    have "0 < q" "0 < c" "t \<in> tails_of (- b) (q - 1) p (c - 1)" using s assms(1) by (auto simp: x tails_of_def split: if_splits)
    then show ?thesis by (auto simp: x)
  qed
next
  fix s assume "s \<in> ?A \<union> ?B"
  then show "s \<in> tails_of b p q c" using assms(1) by (auto simp: tails_of_def split: if_splits)
qed

lemma finite_tails_of: "b \<noteq> 0 \<Longrightarrow> finite (tails_of b p q c)"
proof (induction "p + q" arbitrary: b p q c)
  case 0
  then show ?case by (simp add: tails_of_0)
next
  case (Suc n)
  have "finite (tails_of b (p - 1) q c)" if "0 < p" using Suc that by simp
  moreover have "finite (tails_of (- b) (q - 1) p (c - 1))" if "0 < q" using Suc that by simp
  moreover have "0 < p + q" using Suc(2) by linarith
  ultimately show ?case by (subst tails_of_step [OF Suc(3)]) (auto intro: finite_imageI)
qed

lemma tails_count_rec:
  assumes "0 < p + q"
  shows "tails_count p q c =
    (if 0 < p then tails_count (p - 1) q c else 0) + (if 0 < q \<and> 0 < c then tails_count (q - 1) p (c - 1) else 0)"
proof (cases "even c")
  case True
  then obtain j where c: "c = 2 * j" by auto
  show ?thesis
  proof (cases j)
    case 0
    then show ?thesis using assms by (auto simp: c tails_count_def)
  next
    case (Suc i)
    have d: "(c - 1) div 2 = i" "c div 2 = Suc i" "odd (c - 1)" "0 < c" by (simp_all add: c Suc)
    show ?thesis
    proof (cases p; cases q)
      fix p' q' assume pq: "p = Suc p'" "q = Suc q'"
      show ?thesis using True d by (simp add: tails_count_def pq algebra_simps)
    qed (use True d assms in \<open>simp_all add: tails_count_def\<close>)
  qed
next
  case False
  then obtain j where c: "c = 2 * j + 1" by (elim oddE)
  have d: "c div 2 = j" "even (c - 1)" "0 < c" "(c - 1) div 2 = j" by (simp_all add: c)
  show ?thesis
  proof (cases j)
    case 0
    then show ?thesis using assms by (cases p; cases q) (auto simp: c tails_count_def)
  next
    case (Suc i)
    show ?thesis
    proof (cases p; cases q)
      fix p' q' assume pq: "p = Suc p'" "q = Suc q'"
      have "c \<noteq> 1" "c - 1 \<noteq> 0" using Suc by (simp_all add: c)
      then show ?thesis using False d Suc by (simp add: tails_count_def pq algebra_simps)
    qed (use False d Suc assms in \<open>simp_all add: tails_count_def\<close>)
  qed
qed

lemma card_tails_of: "b \<noteq> 0 \<Longrightarrow> card (tails_of b p q c) = tails_count p q c"
proof (induction "p + q" arbitrary: b p q c)
  case 0
  then show ?case by (simp add: tails_of_0 tails_count_def)
next
  case (Suc n)
  let ?A = "if 0 < p then (#) b ` tails_of b (p - 1) q c else {}"
  let ?B = "if 0 < q \<and> 0 < c then (#) (- b) ` tails_of (- b) (q - 1) p (c - 1) else {}"
  have pq: "0 < p + q" using Suc(2) by linarith
  have "card (?A \<union> ?B) = card ?A + card ?B"
    using finite_tails_of Suc(3) by (intro card_Un_disjoint) auto
  moreover have "card ?A = (if 0 < p then tails_count (p - 1) q c else 0)"
    using Suc by (auto simp: card_image)
  moreover have "card ?B = (if 0 < q \<and> 0 < c then tails_count (q - 1) p (c - 1) else 0)"
    using Suc by (auto simp: card_image)
  ultimately show ?case by (simp only: tails_of_step [OF Suc(3) pq] tails_count_rec [OF pq, of c])
qed

text \<open>The arrangements of \<open>p\<close> positive and \<open>q\<close> negative signs, and those with \<open>r\<close> runs.\<close>

definition arrangements :: "nat \<Rightarrow> nat \<Rightarrow> int list set" where
  "arrangements p q = {s. set s \<subseteq> {1, - 1} \<and> count_list s 1 = p \<and> count_list s (- 1) = q}"

definition arrangements_with :: "nat \<Rightarrow> nat \<Rightarrow> int \<Rightarrow> int list set" where
  "arrangements_with p q r = {s \<in> arrangements p q. observed_runs s = r}"

lemma arrangements_split:
  assumes "0 < p" "0 < q"
  shows "arrangements_with p q (1 + int c) = (#) 1 ` tails_of 1 (p - 1) q c \<union> (#) (- 1) ` tails_of (- 1) (q - 1) p c"
proof (intro equalityI subsetI)
  fix s assume s: "s \<in> arrangements_with p q (1 + int c)"
  then obtain x t where x: "s = x # t" using assms by (cases s) (auto simp: arrangements_with_def arrangements_def)
  have "x = 1 \<or> x = - 1" using s x by (auto simp: arrangements_with_def arrangements_def)
  then show "s \<in> (#) 1 ` tails_of 1 (p - 1) q c \<union> (#) (- 1) ` tails_of (- 1) (q - 1) p c"
    using s by (auto simp: x arrangements_with_def arrangements_def tails_of_def observed_runs_Cons)
next
  fix s assume "s \<in> (#) 1 ` tails_of 1 (p - 1) q c \<union> (#) (- 1) ` tails_of (- 1) (q - 1) p c"
  then show "s \<in> arrangements_with p q (1 + int c)"
    using assms by (auto simp: arrangements_with_def arrangements_def tails_of_def observed_runs_Cons)
qed

lemma card_arrangements_with:
  assumes "0 < p" "0 < q"
  shows "card (arrangements_with p q (1 + int c)) = tails_count (p - 1) q c + tails_count (q - 1) p c"
proof -
  have "card ((#) 1 ` tails_of 1 (p - 1) q c \<union> (#) (- 1) ` tails_of (- 1) (q - 1) p c) =
    card ((#) 1 ` tails_of 1 (p - 1) q c) + card ((#) (- 1 :: int) ` tails_of (- 1) (q - 1) p c)"
    using finite_tails_of by (intro card_Un_disjoint) auto
  then show ?thesis by (simp add: arrangements_split [OF assms] card_image card_tails_of)
qed

lemma card_runs_even:
  assumes "0 < p" "0 < q" "0 < k"
  shows "card (arrangements_with p q (2 * int k)) = 2 * ((p - 1) choose (k - 1)) * ((q - 1) choose (k - 1))"
proof -
  obtain j where k: "k = Suc j" using assms(3) by (cases k) auto
  have "2 * int k = 1 + int (2 * j + 1)" by (simp add: k)
  then have "card (arrangements_with p q (2 * int k)) = tails_count (p - 1) q (2 * j + 1) + tails_count (q - 1) p (2 * j + 1)"
    by (simp only: card_arrangements_with [OF assms(1,2)])
  then show ?thesis using assms(1,2) by (simp add: tails_count_def k)
qed

lemma card_runs_odd:
  assumes "0 < p" "0 < q" "0 < k"
  shows "card (arrangements_with p q (2 * int k + 1)) =
    ((p - 1) choose k) * ((q - 1) choose (k - 1)) + ((p - 1) choose (k - 1)) * ((q - 1) choose k)"
proof -
  have "2 * int k + 1 = 1 + int (2 * k)" by simp
  then have "card (arrangements_with p q (2 * int k + 1)) = tails_count (p - 1) q (2 * k) + tails_count (q - 1) p (2 * k)"
    by (simp only: card_arrangements_with [OF assms(1,2)])
  then show ?thesis using assms by (simp add: tails_count_def)
qed

lemma runs_cases:
  assumes "2 \<le> (r :: int)"
  obtains k where "0 < k" "r = 2 * int k" | k where "0 < k" "r = 2 * int k + 1"
proof (cases "even r")
  case True
  then obtain m where "r = 2 * m" by auto
  then show thesis using that(1) [of "nat m"] assms by simp
next
  case False
  then obtain m where "r = 2 * m + 1" by (elim oddE)
  then show thesis using that(2) [of "nat m"] assms by simp
qed

lemma length_arrangements:
  assumes "s \<in> arrangements p q"
  shows "length s = p + q"
proof -
  have "length xs = count_list xs 1 + count_list xs (- 1)" if "set xs \<subseteq> {1, - 1}" for xs :: "int list"
    using that by (induction xs) auto
  then show ?thesis using assms by (auto simp: arrangements_def)
qed

lemma finite_arrangements: "finite (arrangements p q)"
proof -
  have "arrangements p q \<subseteq> {s. set s \<subseteq> {1, - 1} \<and> length s = p + q}"
    using length_arrangements by (auto simp: arrangements_def)
  then show ?thesis by (rule finite_subset) (simp add: finite_lists_length_eq)
qed

text \<open>The number of runs lies in the range of the table, and every number of the range occurs.\<close>

lemma observed_runs_ge_2:
  assumes "s \<in> arrangements p q" "0 < p" "0 < q"
  shows "2 \<le> observed_runs s"
proof (rule ccontr)
  assume n: "\<not> 2 \<le> observed_runs s"
  obtain x t where s: "s = x # t" using assms by (cases s) (auto simp: arrangements_def)
  then have "observed_runs s = 1 + int 0" using n by (simp add: observed_runs_Cons)
  then have "s \<in> arrangements_with p q (1 + int 0)" using assms(1) by (simp add: arrangements_with_def)
  then have "card (arrangements_with p q (1 + int 0)) \<noteq> 0"
    using finite_arrangements [of p q] by (auto simp: arrangements_with_def card_eq_0_iff)
  moreover have "card (arrangements_with p q (1 + int 0)) = 0"
    unfolding card_arrangements_with [OF assms(2,3)] using assms(2,3) by (simp add: tails_count_def)
  ultimately show False by simp
qed

lemma arrangements_with_range:
  assumes "0 < p" "0 < q" "2 \<le> r"
  shows "0 < card (arrangements_with p q r) \<longleftrightarrow> r \<le> max_runs (int p) (int q)"
  using assms(3)
proof (cases rule: runs_cases)
  case (1 k)
  have "0 < card (arrangements_with p q r) \<longleftrightarrow> k - 1 \<le> p - 1 \<and> k - 1 \<le> q - 1"
    unfolding 1(2) card_runs_even [OF assms(1,2) 1(1)] by (simp add: zero_less_binomial_iff)
  then show ?thesis using assms 1 by (auto simp: max_runs_def)
next
  case (2 k)
  have "0 < card (arrangements_with p q r) \<longleftrightarrow> k \<le> p - 1 \<and> k - 1 \<le> q - 1 \<or> k - 1 \<le> p - 1 \<and> k \<le> q - 1"
    unfolding 2(2) card_runs_odd [OF assms(1,2) 2(1)] by (simp add: zero_less_binomial_iff)
  then show ?thesis using assms 2 by (auto simp: max_runs_def)
qed

lemma observed_runs_le_max:
  assumes "s \<in> arrangements p q" "0 < p" "0 < q"
  shows "observed_runs s \<le> max_runs (int p) (int q)"
proof -
  have "s \<in> arrangements_with p q (observed_runs s)" using assms(1) by (simp add: arrangements_with_def)
  moreover have "finite (arrangements_with p q (observed_runs s))" using finite_arrangements by (simp add: arrangements_with_def)
  ultimately have "0 < card (arrangements_with p q (observed_runs s))" by (auto simp: card_gt_0_iff)
  then show ?thesis using arrangements_with_range [OF assms(2,3) observed_runs_ge_2 [OF assms]] by simp
qed

lemma arrangements_Cons:
  assumes "0 < p" "0 < q"
  shows "arrangements p q = (#) 1 ` arrangements (p - 1) q \<union> (#) (- 1) ` arrangements p (q - 1)"
proof (intro equalityI subsetI)
  fix s assume s: "s \<in> arrangements p q"
  then obtain x t where x: "s = x # t" using assms by (cases s) (auto simp: arrangements_def)
  have "x = 1 \<or> x = - 1" using s x by (auto simp: arrangements_def)
  then show "s \<in> (#) 1 ` arrangements (p - 1) q \<union> (#) (- 1) ` arrangements p (q - 1)"
    using s by (auto simp: x arrangements_def)
next
  fix s assume "s \<in> (#) 1 ` arrangements (p - 1) q \<union> (#) (- 1) ` arrangements p (q - 1)"
  then show "s \<in> arrangements p q" using assms by (auto simp: arrangements_def)
qed

lemma arrangements_one_kind:
  "arrangements p 0 = {replicate p 1}" "arrangements 0 q = {replicate q (- 1)}"
proof -
  have a: "s = replicate (length s) b" if "set s \<subseteq> {b, - b}" "count_list s (- b) = 0" "b \<noteq> 0" for s and b :: int
    using that by (induction s) (auto split: if_splits)
  have c: "count_list (replicate n b) b = n" "b \<noteq> d \<Longrightarrow> count_list (replicate n b) d = 0" for n and b d :: int
    by (induction n) auto
  have "s = replicate p 1" if "s \<in> arrangements p 0" for s
    using a [of s 1] that c(1) [of "length s" 1] by (auto simp: arrangements_def)
  moreover have "s = replicate q (- 1)" if "s \<in> arrangements 0 q" for s
    using a [of s "- 1"] that c(1) [of "length s" "- 1"] by (auto simp: arrangements_def insert_commute)
  moreover have "replicate p 1 \<in> arrangements p 0" "replicate q (- 1) \<in> arrangements 0 q" by (auto simp: arrangements_def c)
  ultimately show "arrangements p 0 = {replicate p 1}" "arrangements 0 q = {replicate q (- 1)}" by blast+
qed

lemma card_arrangements: "card (arrangements p q) = (p + q) choose p"
proof (induction "p + q" arbitrary: p q)
  case (Suc n)
  show ?case
  proof (cases "p = 0 \<or> q = 0")
    case False
    then obtain p' q' where pq: "p = Suc p'" "q = Suc q'" by (metis not0_implies_Suc)
    have "card (arrangements p q) = card ((#) 1 ` arrangements p' q) + card ((#) (- 1 :: int) ` arrangements p q')"
      using arrangements_Cons [of p q] finite_arrangements by (simp add: pq) (subst card_Un_disjoint, auto)
    also have "\<dots> = (p' + q choose p') + (p + q' choose p)" using Suc pq by (simp add: card_image)
    finally show ?thesis by (simp add: pq)
  qed (auto simp: arrangements_one_kind)
qed (simp add: arrangements_one_kind)

text \<open>The exact conditional p-value: the share of the arrangements whose number of runs is no more probable than \<open>r\<close>.\<close>

definition less_likely :: "nat \<Rightarrow> nat \<Rightarrow> int \<Rightarrow> int list" where
  "less_likely p q r =
    filter (\<lambda>i. card (arrangements_with p q i) \<le> card (arrangements_with p q r)) [2..max_runs (int p) (int q)]"

definition exact_pvalue :: "nat \<Rightarrow> nat \<Rightarrow> int \<Rightarrow> rat" where
  "exact_pvalue p q r =
    of_nat (card {s \<in> arrangements p q. card (arrangements_with p q (observed_runs s)) \<le> card (arrangements_with p q r)}) /
    of_nat (card (arrangements p q))"

lemma exact_pvalue_sum:
  assumes "0 < p" "0 < q"
  shows "exact_pvalue p q r = (\<Sum>i\<leftarrow>less_likely p q r. of_nat (card (arrangements_with p q i))) / of_nat ((p + q) choose p)"
proof -
  let ?I = "set (less_likely p q r)"
  have "{s \<in> arrangements p q. card (arrangements_with p q (observed_runs s)) \<le> card (arrangements_with p q r)} =
    (\<Union>i\<in>?I. arrangements_with p q i)"
    using observed_runs_ge_2 [OF _ assms] observed_runs_le_max [OF _ assms] by (auto simp: less_likely_def arrangements_with_def)
  moreover have "card (\<Union>i\<in>?I. arrangements_with p q i) = (\<Sum>i\<in>?I. card (arrangements_with p q i))"
    using finite_arrangements by (intro card_UN_disjoint) (auto simp: arrangements_with_def)
  moreover have "\<dots> = (\<Sum>i\<leftarrow>less_likely p q r. card (arrangements_with p q i))"
    by (rule sum_list_distinct_conv_sum_set [symmetric]) (simp add: less_likely_def)
  moreover have "(of_nat (sum_list ns) :: rat) = (\<Sum>n\<leftarrow>ns. of_nat n)" for ns by (induction ns) simp_all
  ultimately show ?thesis unfolding exact_pvalue_def by (simp add: card_arrangements comp_def)
qed

subsection \<open>The computed p-value\<close>

text \<open>What one addition of the loop loses to rounding.\<close>

definition term_ok :: "float64 \<Rightarrow> float64 \<Rightarrow> bool" where
  "term_ok T c \<longleftrightarrow> f_finite c \<and> 2 powi (- 1000) \<le> f_val c / f_val T \<and> f_val c / f_val T \<le> 2"

lemma p_sum_term:
  assumes T: "f_finite T" "0 < f_val T" and c: "term_ok T c"
  shows "f_finite (f_div c T)" "near 1 (f_val c / f_val T) (f_val (f_div c T))"
    "2 powi (- 1000) \<le> f_val (f_div c T)" "f_val (f_div c T) \<le> 2"
proof -
  have c': "f_finite c" "2 powi (- 1000) \<le> f_val c / f_val T" "f_val c / f_val T \<le> 2" using c by (simp_all add: term_ok_def)
  have big: "(2 :: rat) \<le> 2 powi 1023" using powi_2_mono [of 1 1023] by simp
  have "0 < f_val c / f_val T" using less_le_trans [OF powi_2_pos c'(2)] .
  then have t: "f_finite (f_div c T) \<and> f_val (f_div c T) = rnd (f_val c / f_val T)"
    using T c' by (intro f_div_val) (simp_all add: order_trans [OF _ big])
  then show "f_finite (f_div c T)" by simp
  show "near 1 (f_val c / f_val T) (f_val (f_div c T))"
    unfolding t [THEN conjunct2] by (rule near_rnd, rule order_trans [OF powi_2_mono c'(2)]) simp
  show "2 powi (- 1000) \<le> f_val (f_div c T)" unfolding t [THEN conjunct2] by (rule rnd_ge_powi [OF c'(2)]) simp
  show "f_val (f_div c T) \<le> 2" unfolding t [THEN conjunct2] using rnd_mono [OF c'(3)] rnd_of_int [of 2] by simp
qed

lemma p_sum_step:
  assumes T: "f_finite T" "0 < f_val T" and c: "term_ok T c"
    and acc: "f_finite acc" "0 \<le> f_val acc" "f_val acc \<le> of_int (2 * int m)" "m < 1000"
  shows "f_finite (f_add acc (f_div c T))" "0 \<le> f_val (f_add acc (f_div c T))"
    "f_val (f_add acc (f_div c T)) \<le> of_int (2 * int (Suc m))"
    "f_val acc + f_val c / f_val T \<le> f_val (f_add acc (f_div c T)) * fq ^ 2"
proof -
  define t where "t = f_div c T"
  note t = p_sum_term [OF T c, folded t_def]
  have s: "0 \<le> f_val acc + f_val t" "f_val acc + f_val t \<le> of_int (2 * int (Suc m))"
    using acc t(4) less_le_trans [OF powi_2_pos t(3)] by simp_all
  have m: "2 * int (Suc m) \<le> 2 ^ 53" using acc(4) by simp
  have "of_int (2 * int (Suc m)) \<le> (of_int 2048 :: rat)" unfolding of_int_le_iff using acc(4) by simp
  also have "\<dots> \<le> 2 powi 1023" using powi_2_mono [of 11 1023] by simp
  finally have "\<bar>f_val acc + f_val t\<bar> \<le> 2 powi 1023" using s by simp
  from f_add_val [OF acc(1) t(1) this] have a: "f_finite (f_add acc t)" "f_val (f_add acc t) = rnd (f_val acc + f_val t)" by simp_all
  have "2 powi (- 1022) \<le> f_val acc + f_val t" using order_trans [OF powi_2_mono t(3), of "- 1022"] acc(2) by simp
  then have an: "near 1 (f_val acc + f_val t) (f_val (f_add acc t))" unfolding a(2) by (rule near_rnd)
  show "f_finite (f_add acc (f_div c T))" using a(1) by (simp add: t_def)
  show "0 \<le> f_val (f_add acc (f_div c T))" "f_val (f_add acc (f_div c T)) \<le> of_int (2 * int (Suc m))"
    using an rnd_small [OF _ m, of "f_val acc + f_val t"] s by (simp_all add: near_def a(2) flip: t_def)
  have "f_val acc * 1 \<le> f_val acc * fq" by (rule mult_left_mono [OF _ acc(2)]) simp
  moreover have "f_val c / f_val T \<le> f_val t * fq" using t(2) by (simp add: near_def)
  ultimately have "f_val acc + f_val c / f_val T \<le> (f_val acc + f_val t) * fq" by (simp add: distrib_right)
  also have "\<dots> \<le> f_val (f_add acc t) * fq * fq" using an by (intro mult_right_mono) (simp_all add: near_def)
  finally show "f_val acc + f_val c / f_val T \<le> f_val (f_add acc (f_div c T)) * fq ^ 2"
    by (simp add: t_def power2_eq_square mult.assoc)
qed

text \<open>What the whole sum loses.\<close>

definition exact_sum :: "float64 \<Rightarrow> float64 \<Rightarrow> (int \<times> float64) list \<Rightarrow> rat" where
  "exact_sum limit T cs = (\<Sum>(r, c)\<leftarrow>filter (\<lambda>(r, c). f_val c \<le> f_val limit) cs. f_val c / f_val T)"

lemma exact_sum_nonneg: "\<forall>(r, c)\<in>set cs. term_ok T c \<Longrightarrow> 0 \<le> exact_sum limit T cs"
proof -
  assume cs: "\<forall>(r, c)\<in>set cs. term_ok T c"
  have "0 \<le> f_val c / f_val T" if "(r, c) \<in> set cs" for r c
    using cs that less_imp_le [OF powi_2_pos [of "- 1000"]] unfolding term_ok_def by (metis (no_types, lifting) case_prodD order_trans)
  then show ?thesis unfolding exact_sum_def by (intro sum_list_nonneg) auto
qed

lemma p_sum_lower:
  assumes T: "f_finite T" "0 < f_val T" and l: "f_finite limit" and cs: "\<forall>(r, c)\<in>set cs. term_ok T c"
    and acc: "f_finite acc" "0 \<le> f_val acc" "f_val acc \<le> of_int (2 * int m)" "m + length cs \<le> 1000"
  shows "f_finite (p_sum limit T acc cs) \<and>
    f_val acc + exact_sum limit T cs \<le> f_val (p_sum limit T acc cs) * fq ^ (2 * length cs)"
  using cs acc
proof (induction cs arbitrary: acc m)
  case Nil
  then show ?case by (simp add: exact_sum_def)
next
  case (Cons x cs)
  obtain r c where x: "x = (r, c)" by (cases x)
  have c: "term_ok T c" "\<forall>(r, c)\<in>set cs. term_ok T c" using Cons.prems(1) by (simp_all add: x)
  define S where "S = exact_sum limit T cs"
  have S: "0 \<le> S" unfolding S_def by (rule exact_sum_nonneg [OF c(2)])
  have fc: "f_finite c" using c(1) by (simp add: term_ok_def)
  show ?case
  proof (cases "f_val c \<le> f_val limit")
    case False
    define P where "P = f_val (p_sum limit T acc cs)"
    have i: "f_finite (p_sum limit T acc cs)" "f_val acc + S \<le> P * fq ^ (2 * length cs)"
      using Cons.IH [OF c(2) Cons.prems(2,3,4)] Cons.prems(5) by (simp_all add: P_def S_def)
    have "0 \<le> P * fq ^ (2 * length cs)" using i(2) S Cons.prems(3) by linarith
    then have "0 \<le> P" using zero_less_power [OF fq_gt(2), of "2 * length cs"] by (metis mult_neg_pos not_le)
    then have "P * fq ^ (2 * length cs) \<le> P * fq ^ (2 * length (x # cs))" by (intro mult_left_mono power_increasing) simp_all
    then show ?thesis using i False l fc by (simp add: x f_leq_val P_def S_def exact_sum_def)
  next
    case True
    define a where "a = f_add acc (f_div c T)"
    have "m < 1000" using Cons.prems(5) by simp
    note a = p_sum_step [OF T c(1) Cons.prems(2,3,4) this, folded a_def]
    define P where "P = f_val (p_sum limit T a cs)"
    have i: "f_finite (p_sum limit T a cs)" "f_val a + S \<le> P * fq ^ (2 * length cs)"
      using Cons.IH [OF c(2) a(1,2,3)] Cons.prems(5) by (simp_all add: P_def S_def)
    have "S * 1 \<le> S * fq ^ 2" by (rule mult_left_mono [OF one_le_power S]) simp
    then have "f_val acc + f_val c / f_val T + S \<le> (f_val a + S) * fq ^ 2" using a(4) by (simp add: distrib_right)
    also have "\<dots> \<le> P * fq ^ (2 * length cs) * fq ^ 2" using i(2) by (rule mult_right_mono) simp
    also have "\<dots> = P * fq ^ (2 * length (x # cs))" by (simp add: power_add [symmetric] mult.assoc power2_eq_square)
    finally show ?thesis using i(1) True l fc by (simp add: x f_leq_val P_def S_def exact_sum_def a_def [symmetric] add.assoc)
  qed
qed

text \<open>The accuracy asked of the logarithms and the exponential: the counts come within 2200 roundings of the exact ones
  (\<open>RunsAccuracy\<close> derives this from the accuracy of the two functions).\<close>

definition exp_near :: "(float64 \<Rightarrow> float64) \<Rightarrow> float64 \<Rightarrow> nat \<Rightarrow> bool" where
  "exp_near mexp l n \<longleftrightarrow> f_finite (mexp l) \<and> near 2200 (of_nat n) (f_val (mexp l))"

definition runs_accurate :: "(float64 \<Rightarrow> float64) \<Rightarrow> (float64 \<Rightarrow> float64) \<Rightarrow> nat \<Rightarrow> nat \<Rightarrow> bool" where
  "runs_accurate mexp lgamma p q \<longleftrightarrow>
    exp_near mexp (logComb lgamma (int p + int q) (int p)) ((p + q) choose p) \<and>
    (\<forall>i<p. \<forall>j<q.
       exp_near mexp (f_add (f_add (f_lit Ln2) (logComb lgamma (int p - 1) (int i))) (logComb lgamma (int q - 1) (int j)))
         (2 * ((p - 1) choose i) * ((q - 1) choose j)) \<and>
       exp_near mexp (f_add (logComb lgamma (int p - 1) (int i)) (logComb lgamma (int q - 1) (int j)))
         (((p - 1) choose i) * ((q - 1) choose j)))"

lemma fq_power_2: "n \<le> 2 ^ 40 \<Longrightarrow> fq ^ n \<le> 2"
proof -
  assume n: "n \<le> 2 ^ 40"
  define x :: rat where "x = 1 / (2 ^ 52 + 1)"
  have f: "fq = 1 / (1 - x)" by (simp add: fq_def x_def)
  have e: "fq ^ n = 1 / (1 - x) ^ n" by (simp only: f power_divide power_one)
  have "(of_nat n :: rat) \<le> of_nat (2 ^ 40)" using n by (simp only: of_nat_le_iff)
  then have "of_nat n * x \<le> 2 ^ 40 * x" by (intro mult_right_mono) (simp_all add: x_def)
  also have "\<dots> \<le> 1 / 2" by (simp add: x_def)
  finally have h: "of_nat n * x \<le> 1 / 2" .
  have "1 + of_nat n * (- x) \<le> (1 + (- x)) ^ n" by (rule Bernoulli_inequality) (simp add: x_def)
  then have "1 / 2 \<le> (1 - x) ^ n" using h by simp
  then show ?thesis unfolding e by (simp add: divide_le_eq)
qed

lemma near_bounds:
  assumes "near k x y" "k \<le> 2 ^ 40"
  shows "y \<le> 2 * x" "x \<le> 2 * y"
proof -
  have p: "0 < x" "0 < y" "y \<le> x * fq ^ k" "x \<le> y * fq ^ k" using assms(1) by (simp_all add: near_def)
  have "x * fq ^ k \<le> x * 2" "y * fq ^ k \<le> y * 2" using fq_power_2 [OF assms(2)] p(1,2) by (simp_all add: mult_left_mono)
  then show "y \<le> 2 * x" "x \<le> 2 * y" using p by linarith+
qed

lemma f_add_near:
  assumes "f_finite a" "f_finite b" "near k x (f_val a)" "near k y (f_val b)" "k \<le> 2 ^ 40" "1 \<le> x" "1 \<le> y" "x \<le> 2 ^ 64" "y \<le> 2 ^ 64"
  shows "f_finite (f_add a b) \<and> near (Suc k) (x + y) (f_val (f_add a b))"
proof -
  have n: "near k (x + y) (f_val a + f_val b)" by (rule near_add [OF assms(3,4)])
  have l: "1 \<le> f_val a + f_val b" using near_bounds [OF assms(3,5)] near_bounds [OF assms(4,5)] assms(6,7) by linarith
  have h: "f_val a + f_val b \<le> 2 ^ 66" using near_bounds [OF assms(3,5)] near_bounds [OF assms(4,5)] assms(8,9) by simp
  have "(2 :: rat) ^ 66 \<le> 2 powi 1023" using powi_2_mono [of 66 1023] by simp
  then have v: "f_finite (f_add a b)" "f_val (f_add a b) = rnd (f_val a + f_val b)"
    using f_add_val [OF assms(1,2)] l h by simp_all
  have "2 powi (- 1022) \<le> (2 :: rat) powi 0" by (rule powi_2_mono) simp
  then have "near 1 (f_val a + f_val b) (f_val (f_add a b))" unfolding v(2) using l by (intro near_rnd) simp
  from near_trans [OF n this] show ?thesis using v(1) by simp
qed

lemma f_add_zero_near:
  assumes "f_finite a" "near k x (f_val a)" "k \<le> 2 ^ 40" "1 \<le> x" "x \<le> 2 ^ 64"
  shows "f_finite (f_add a (Fin 0)) \<and> near (Suc k) x (f_val (f_add a (Fin 0)))"
    and "f_finite (f_add (Fin 0) a) \<and> near (Suc k) x (f_val (f_add (Fin 0) a))"
proof -
  have b: "1 \<le> 2 * f_val a" "f_val a \<le> 2 ^ 65" using near_bounds [OF assms(2,3)] assms(4,5) by simp_all
  have "(2 :: rat) ^ 65 \<le> 2 powi 1023" using powi_2_mono [of 65 1023] by simp
  then have v: "f_finite (f_add a (Fin 0))" "f_val (f_add a (Fin 0)) = rnd (f_val a)"
     "f_finite (f_add (Fin 0) a)" "f_val (f_add (Fin 0) a) = rnd (f_val a)"
    using f_add_val [OF assms(1), of "Fin 0"] f_add_val [OF _ assms(1), of "Fin 0"] b by simp_all
  have "2 powi (- 1022) \<le> (2 :: rat) powi (- 1)" by (rule powi_2_mono) simp
  then have "near 1 (f_val a) (rnd (f_val a))" using b by (intro near_rnd) (simp add: power_int_def)
  from near_trans [OF assms(2) this]
  show "f_finite (f_add a (Fin 0)) \<and> near (Suc k) x (f_val (f_add a (Fin 0)))"
    "f_finite (f_add (Fin 0) a) \<and> near (Suc k) x (f_val (f_add (Fin 0) a))" using v by simp_all
qed

lemma card_runs_le:
  "card (arrangements_with p q r) \<le> (p + q) choose p"
  unfolding card_arrangements [symmetric] by (rule card_mono) (auto simp: arrangements_with_def finite_arrangements)

lemma binomial_le_pow: "p + q \<le> 64 \<Longrightarrow> (of_nat ((p + q) choose p) :: rat) \<le> 2 ^ 64"
proof -
  assume "p + q \<le> 64"
  then have "(p + q) choose p \<le> 2 ^ 64" using binomial_le_pow2 [of "p + q" p] power_increasing [of "p + q" 64 "2 :: nat"] by simp
  then have "(of_nat ((p + q) choose p) :: rat) \<le> of_nat (2 ^ 64)" by (simp only: of_nat_le_iff)
  then show ?thesis by simp
qed

lemma card_runs_pow: "p + q \<le> 64 \<Longrightarrow> (of_nat (card (arrangements_with p q r)) :: rat) \<le> 2 ^ 64"
  by (rule order_trans [OF _ binomial_le_pow [of p q]]) (simp_all add: card_runs_le)

text \<open>The entry of the table for every number of runs that occurs.\<close>

lemma exp_nearD: "exp_near mexp l n \<Longrightarrow> f_finite (mexp l)" "exp_near mexp l n \<Longrightarrow> near 2200 (of_nat n) (f_val (mexp l))"
  by (simp_all add: exp_near_def)

lemma runs_accurateD:
  assumes "runs_accurate mexp lgamma p q" "i < p" "j < q"
  shows "exp_near mexp (f_add (f_add (f_lit Ln2) (logComb lgamma (int p - 1) (int i))) (logComb lgamma (int q - 1) (int j)))
      (2 * ((p - 1) choose i) * ((q - 1) choose j))"
    and "exp_near mexp (f_add (logComb lgamma (int p - 1) (int i)) (logComb lgamma (int q - 1) (int j)))
      (((p - 1) choose i) * ((q - 1) choose j))"
  using assms by (auto simp: runs_accurate_def)

lemma run_count_near:
  assumes a: "runs_accurate mexp lgamma p q" and pq: "0 < p" "0 < q" "p + q \<le> 64"
    and r: "2 \<le> r" "r \<le> max_runs (int p) (int q)"
  shows "f_finite (run_count mexp lgamma (int p) (int q) r) \<and>
    near 2201 (of_nat (card (arrangements_with p q r))) (f_val (run_count mexp lgamma (int p) (int q) r))"
  using r(1)
proof (cases rule: runs_cases)
  case (1 k)
  have k: "k - 1 < p" "k - 1 < q" "int k - 1 = int (k - 1)" using r 1 pq by (auto simp: max_runs_def split: if_splits)
  have d: "r mod 2 = 0" "r div 2 = int k" using 1 by simp_all
  have e: "run_count mexp lgamma (int p) (int q) r =
    mexp (f_add (f_add (f_lit Ln2) (logComb lgamma (int p - 1) (int (k - 1)))) (logComb lgamma (int q - 1) (int (k - 1))))"
    unfolding run_count_def d Let_def k(3) using k(1,2) by simp
  show ?thesis
    using runs_accurateD(1) [OF a k(1,2)] near_mono [of 2200 _ _ 2201]
    unfolding e by (simp only: 1(2) card_runs_even [OF pq(1,2) 1(1)]) (simp add: exp_near_def)
next
  case (2 k)
  have k: "k - 1 < p" "k - 1 < q" "int k - 1 = int (k - 1)" "k < p \<or> k < q" using r 2 pq by (auto simp: max_runs_def split: if_splits)
  have d: "r mod 2 \<noteq> 0" "(r - 1) div 2 = int k" using 2 by simp_all
  let ?x = "((p - 1) choose k) * ((q - 1) choose (k - 1))" and ?y = "((p - 1) choose (k - 1)) * ((q - 1) choose k)"
  define t1 where "t1 = mexp (f_add (logComb lgamma (int p - 1) (int k)) (logComb lgamma (int q - 1) (int (k - 1))))"
  define t2 where "t2 = mexp (f_add (logComb lgamma (int p - 1) (int (k - 1))) (logComb lgamma (int q - 1) (int k)))"
  have e: "run_count mexp lgamma (int p) (int q) r = f_add (if k < p then t1 else Fin 0) (if k < q then t2 else Fin 0)"
    unfolding run_count_def d using k 2(1) d(1) by (simp add: Let_def t1_def t2_def) auto
  have c: "card (arrangements_with p q r) = ?x + ?y" unfolding 2(2) by (rule card_runs_odd [OF pq(1,2) 2(1)])
  have "(of_nat (?x + ?y) :: rat) \<le> 2 ^ 64" using card_runs_pow [OF pq(3), of r] unfolding c .
  then have b: "(of_nat ?x :: rat) \<le> 2 ^ 64" "(of_nat ?y :: rat) \<le> 2 ^ 64"
    using of_nat_0_le_iff [of ?x, where ?'a = rat] of_nat_0_le_iff [of ?y, where ?'a = rat] unfolding of_nat_add by linarith+
  have ge: "(1 :: rat) \<le> of_nat n" if "n \<noteq> 0" for n using that by (cases n) simp_all
  have x: "f_finite t1 \<and> near 2200 (of_nat ?x) (f_val t1) \<and> (1 :: rat) \<le> of_nat ?x" if "k < p"
  proof -
    have "?x \<noteq> 0" using that k(2) by (auto simp: binomial_eq_0_iff)
    then show ?thesis using runs_accurateD(2) [OF a that k(2)] ge [of ?x] unfolding t1_def exp_near_def by blast
  qed
  have y: "f_finite t2 \<and> near 2200 (of_nat ?y) (f_val t2) \<and> (1 :: rat) \<le> of_nat ?y" if "k < q"
  proof -
    have "?y \<noteq> 0" using that k(1) by (auto simp: binomial_eq_0_iff)
    then show ?thesis using runs_accurateD(2) [OF a k(1) that] ge [of ?y] unfolding t2_def exp_near_def by blast
  qed
  have z: "?x = 0" if "\<not> k < p" using that pq(1) by auto
  have w: "?y = 0" if "\<not> k < q" using that pq(2) by auto
  consider "k < p" "k < q" | "k < p" "\<not> k < q" | "\<not> k < p" "k < q" using k(4) by blast
  then show ?thesis
  proof cases
    case 1
    then show ?thesis unfolding e c using f_add_near [of t1 t2 2200 "of_nat ?x" "of_nat ?y"] x y b by simp
  next
    case 2
    then show ?thesis unfolding e c w [OF 2(2)] using f_add_zero_near(1) [of t1 2200 "of_nat ?x"] x b by simp
  next
    case 3
    then show ?thesis unfolding e c z [OF 3(1)] using f_add_zero_near(2) [of t2 2200 "of_nat ?y"] y b by simp
  qed
qed

text \<open>The signs of the residuals.\<close>

lemma collect_signs_spec:
  assumes "collect_signs d rs (s0, int p0, int q0) = (s, a, b)" "s0 \<in> arrangements p0 q0"
  obtains p q where "a = int p" "b = int q" "s \<in> arrangements p q" "p + q \<le> p0 + q0 + length rs"
  using assms
proof (induction rs arbitrary: s0 p0 q0 thesis)
  case Nil
  then show ?case by (auto simp: of_nat_eq_iff)
next
  case (Cons r rs)
  consider "f_less d r" | "\<not> f_less d r" "f_less r (f_uminus d)" | "\<not> f_less d r" "\<not> f_less r (f_uminus d)" by blast
  then show ?case
  proof cases
    case 1
    have m: "s0 @ [1] \<in> arrangements (Suc p0) q0" using Cons.prems(3) by (auto simp: arrangements_def)
    have e: "collect_signs d rs (s0 @ [1], int (Suc p0), int q0) = (s, a, b)" using Cons.prems(2) 1 by (simp add: add.commute)
    show ?thesis by (rule Cons.IH [OF _ e m], rule Cons.prems(1)) auto
  next
    case 2
    have m: "s0 @ [- 1] \<in> arrangements p0 (Suc q0)" using Cons.prems(3) by (auto simp: arrangements_def)
    have e: "collect_signs d rs (s0 @ [- 1], int p0, int (Suc q0)) = (s, a, b)" using Cons.prems(2) 2 by (simp add: add.commute)
    show ?thesis by (rule Cons.IH [OF _ e m], rule Cons.prems(1)) auto
  next
    case 3
    then have e: "collect_signs d rs (s0, int p0, int q0) = (s, a, b)" using Cons.prems(2) by simp
    show ?thesis by (rule Cons.IH [OF _ e Cons.prems(3)], rule Cons.prems(1)) auto
  qed
qed

lemma runs_tolerance: "fq ^ 4403 \<le> rnd (1 + 1 / 10 ^ 12)"
proof -
  define x :: rat where "x = 1 / (2 ^ 52 + 1)"
  have f: "fq = 1 / (1 - x)" by (simp add: fq_def x_def)
  have e: "fq ^ 4403 = 1 / (1 - x) ^ 4403" by (simp only: f power_divide power_one)
  have "1 + of_nat 4403 * (- x) \<le> (1 + (- x)) ^ 4403" by (rule Bernoulli_inequality) (simp add: x_def)
  then have b: "1 - 4403 * x \<le> (1 - x) ^ 4403" "0 < 1 - 4403 * x" by (simp_all add: x_def)
  then have "1 / (1 - x) ^ 4403 \<le> 1 / (1 - 4403 * x)" by (intro divide_left_mono) simp_all
  also have "\<dots> \<le> rnd (1 + 1 / 10 ^ 12)"
  proof -
    have "rnd (1 + 1 / 10 ^ 12) = 4503599627375000 / 2 ^ 52" by code_simp
    then show ?thesis by (simp add: x_def)
  qed
  finally show ?thesis unfolding e .
qed

lemma f_Min_one: "f_finite b \<Longrightarrow> f_finite (f_Min (Fin 1) b) \<and> f_val (f_Min (Fin 1) b) = min 1 (f_val b)"
  by (cases b) (auto simp: f_Min_def f_less_def)

text \<open>Under these laws every number of runs in range has its entry, and the table is read in any order.\<close>

lemma runs_table_full:
  assumes "runs_accurate mexp lgamma p q" "0 < p" "0 < q" "p + q \<le> 64"
  shows "runs_table mexp lgamma (int p) (int q) =
    map (\<lambda>r. (r, run_count mexp lgamma (int p) (int q) r)) [2..max_runs (int p) (int q)]"
  unfolding runs_table_def using run_count_near [OF assms] by (intro filter_True) (auto simp: f_less_val near_def)

lemma table_count_full:
  "2 \<le> r \<Longrightarrow> r \<le> hi \<Longrightarrow> table_count (map (\<lambda>r. (r, f r)) [2..hi]) r = f r"
proof -
  have m: "map_of (map (\<lambda>r. (r, f r)) xs) r = (if r \<in> set xs then Some (f r) else None)" for xs :: "int list"
    by (induction xs) auto
  assume "2 \<le> r" "r \<le> hi"
  then show ?thesis by (simp add: table_count_def m)
qed

lemma sum_filter_mset:
  assumes "mset xs = mset ys"
  shows "(\<Sum>x\<leftarrow>filter P xs. f x :: rat) = (\<Sum>x\<leftarrow>filter P ys. f x)"
proof -
  have "(\<Sum>x\<leftarrow>filter P zs. f x) = \<Sum>\<^sub># (image_mset f (filter_mset P (mset zs)))" for zs by (induction zs) auto
  then show ?thesis using assms by simp
qed

text \<open>A number of runs no more probable than the observed one passes the comparison of the loop.\<close>

lemma tolerance_covers:
  assumes r: "near 2201 x c" and o: "near 2201 y b" "f_finite b'" "f_val b' = b" and le: "x \<le> y" and y: "1 \<le> y" "y \<le> 2 ^ 64"
  shows "f_finite (f_mul b' (f_lit (1 + 1 / 10 ^ 12))) \<and> c \<le> f_val (f_mul b' (f_lit (1 + 1 / 10 ^ 12)))"
proof -
  define L where "L = rnd (1 + 1 / 10 ^ 12)"
  have big: "(2 :: rat) ^ 67 \<le> 2 powi 1023" using powi_2_mono [of 67 1023] by simp
  have "(2 :: rat) \<le> 2 powi 1023" using powi_2_mono [of 1 1023] by simp
  then have "\<bar>1 + 1 / 10 ^ 12 :: rat\<bar> \<le> 2 powi 1023" by simp
  then have l: "f_finite (f_lit (1 + 1 / 10 ^ 12))" "f_val (f_lit (1 + 1 / 10 ^ 12)) = L" using f_lit_val by (simp_all add: L_def)
  have L: "fq ^ 4403 \<le> L" "L \<le> 2" "1 \<le> L"
    using runs_tolerance rnd_mono [of "1 + 1 / 10 ^ 12" 2] rnd_mono [of 1 "1 + 1 / 10 ^ 12"] rnd_of_int [of 2] rnd_of_int [of 1]
    by (simp_all add: L_def)
  have b: "0 < b" "b \<le> 2 ^ 65" "1 / 2 \<le> b" using near_bounds [OF o(1)] y o(1) by (simp_all add: near_def)
  have bL: "1 / 2 \<le> b * L" "b * L \<le> 2 ^ 65 * 2" using b L mult_mono [of "1 / 2" b 1 L] mult_mono [of b "2 ^ 65" L 2] by simp_all
  then have "\<bar>f_val b' * f_val (f_lit (1 + 1 / 10 ^ 12))\<bar> \<le> 2 powi 1023" using big unfolding l(2) o(3) by simp
  from f_mul_val [OF o(2) l(1) this]
  have v: "f_finite (f_mul b' (f_lit (1 + 1 / 10 ^ 12)))" "f_val (f_mul b' (f_lit (1 + 1 / 10 ^ 12))) = rnd (b * L)"
    unfolding l(2) o(3) by simp_all
  have "2 powi (- 1022) \<le> (2 :: rat) powi (- 1)" by (rule powi_2_mono) simp
  then have "near 1 (b * L) (rnd (b * L))" using bL by (intro near_rnd) (simp add: power_int_def)
  then have m: "b * L \<le> rnd (b * L) * fq" by (simp add: near_def)
  have "c * fq \<le> x * fq ^ 2201 * fq" using r by (intro mult_right_mono) (simp_all add: near_def)
  also have "\<dots> \<le> y * fq ^ 2201 * fq" using le by (intro mult_right_mono) simp_all
  also have "\<dots> \<le> b * fq ^ 2201 * fq ^ 2201 * fq" using o(1) by (intro mult_right_mono) (simp_all add: near_def)
  also have "\<dots> = b * fq ^ 4403" by (simp add: mult.assoc power_add [symmetric] flip: power_Suc2)
  also have "\<dots> \<le> b * L" using L b by (intro mult_left_mono) simp_all
  finally have "c * fq \<le> rnd (b * L) * fq" using m by linarith
  then have "c \<le> rnd (b * L)" by simp
  then show ?thesis unfolding v(2) using v(1) by blast
qed

lemma exact_pvalue_bounds: "0 \<le> exact_pvalue p q r" "exact_pvalue p q r \<le> 1"
proof -
  show "0 \<le> exact_pvalue p q r" by (simp add: exact_pvalue_def)
  have "card {s \<in> arrangements p q. card (arrangements_with p q (observed_runs s)) \<le> card (arrangements_with p q r)} \<le> card (arrangements p q)"
    by (rule card_mono) (auto simp: finite_arrangements)
  from of_nat_mono [OF this, where ?'a = rat] show "exact_pvalue p q r \<le> 1"
    unfolding exact_pvalue_def by (auto simp: divide_le_eq_1)
qed

text \<open>The number of arrangements with so many runs, and the exponentials the code divides.\<close>

definition run_weight :: "nat \<Rightarrow> nat \<Rightarrow> int \<Rightarrow> rat" where
  "run_weight p q r = of_nat (card (arrangements_with p q r))"

definition total_weight :: "nat \<Rightarrow> nat \<Rightarrow> rat" where
  "total_weight p q = of_nat ((p + q) choose p)"

definition total_perms :: "(float64 \<Rightarrow> float64) \<Rightarrow> (float64 \<Rightarrow> float64) \<Rightarrow> nat \<Rightarrow> nat \<Rightarrow> float64" where
  "total_perms mexp lgamma p q = mexp (logComb lgamma (int p + int q) (int p))"

definition runs_limit :: "(float64 \<Rightarrow> float64) \<Rightarrow> (float64 \<Rightarrow> float64) \<Rightarrow> nat \<Rightarrow> nat \<Rightarrow> int \<Rightarrow> float64" where
  "runs_limit mexp lgamma p q r = f_mul (run_count mexp lgamma (int p) (int q) r) (f_lit (1 + 1 / 10 ^ 12))"

definition in_range :: "nat \<Rightarrow> nat \<Rightarrow> int \<Rightarrow> bool" where
  "in_range p q r \<longleftrightarrow> 0 < p \<and> 0 < q \<and> p + q \<le> 64 \<and> 2 \<le> r \<and> r \<le> max_runs (int p) (int q)"

lemma run_weight_bounds:
  assumes "in_range p q r"
  shows "1 \<le> run_weight p q r" "run_weight p q r \<le> 2 ^ 64" "run_weight p q r \<le> total_weight p q"
proof -
  have r: "0 < p" "0 < q" "p + q \<le> 64" "2 \<le> r" "r \<le> max_runs (int p) (int q)" using assms by (simp_all add: in_range_def)
  have "1 \<le> card (arrangements_with p q r)" using arrangements_with_range [OF r(1,2,4)] r(5) by simp
  from of_nat_mono [OF this, where ?'a = rat] show "1 \<le> run_weight p q r" by (simp add: run_weight_def)
  show "run_weight p q r \<le> 2 ^ 64" unfolding run_weight_def by (rule card_runs_pow [OF r(3)])
  show "run_weight p q r \<le> total_weight p q" unfolding run_weight_def total_weight_def by (rule of_nat_mono [OF card_runs_le])
qed

lemma run_count_weight:
  assumes "runs_accurate mexp lgamma p q" "in_range p q r"
  shows "f_finite (run_count mexp lgamma (int p) (int q) r)"
    "near 2201 (run_weight p q r) (f_val (run_count mexp lgamma (int p) (int q) r))"
  using run_count_near [OF assms(1), of r] assms(2) by (simp_all add: in_range_def run_weight_def)

lemma total_perms_near:
  "runs_accurate mexp lgamma p q \<Longrightarrow> f_finite (total_perms mexp lgamma p q)"
  "runs_accurate mexp lgamma p q \<Longrightarrow> near 2200 (total_weight p q) (f_val (total_perms mexp lgamma p q))"
  by (simp_all add: runs_accurate_def exp_near_def total_perms_def total_weight_def)

lemma runs_limit_covers:
  assumes "runs_accurate mexp lgamma p q" "in_range p q r" "in_range p q r0" "run_weight p q r \<le> run_weight p q r0"
  shows "f_finite (runs_limit mexp lgamma p q r0) \<and>
    f_val (run_count mexp lgamma (int p) (int q) r) \<le> f_val (runs_limit mexp lgamma p q r0)"
  unfolding runs_limit_def
  by (rule tolerance_covers [OF run_count_weight(2) [OF assms(1,2)] run_count_weight(2) [OF assms(1,3)] run_count_weight(1) [OF assms(1,3)]])
    (use assms(4) run_weight_bounds [OF assms(3)] in simp_all)

text \<open>The quotient of the code against the share of the arrangements.\<close>

lemma share_near:
  assumes "runs_accurate mexp lgamma p q" "in_range p q r"
  shows "near 4401 (run_weight p q r / total_weight p q)
    (f_val (run_count mexp lgamma (int p) (int q) r) / f_val (total_perms mexp lgamma p q))"
  using near_divide [OF run_count_weight(2) [OF assms] total_perms_near(2) [OF assms(1)]] by simp

lemma share_term_ok:
  assumes "runs_accurate mexp lgamma p q" "in_range p q r"
  shows "term_ok (total_perms mexp lgamma p q) (run_count mexp lgamma (int p) (int q) r)"
proof -
  define x where "x = run_weight p q r / total_weight p q"
  define y where "y = f_val (run_count mexp lgamma (int p) (int q) r) / f_val (total_perms mexp lgamma p q)"
  note w = run_weight_bounds [OF assms(2)]
  have "total_weight p q \<le> 2 ^ 64"
    unfolding total_weight_def using assms(2) by (intro binomial_le_pow) (simp add: in_range_def)
  then have l: "1 / 2 ^ 64 \<le> x" unfolding x_def using w by (intro frac_le) simp_all
  have "2 powi (- 1000) \<le> (2 :: rat) powi (- 65)" by (rule powi_2_mono) simp
  also have "\<dots> = 1 / 2 ^ 64 / 2" by (simp add: power_int_def power_one_over)
  finally have "2 powi (- 1000) \<le> x / 2" using l by simp
  moreover have "x \<le> 1" using w by (simp add: x_def)
  moreover have "y \<le> 2 * x" "x \<le> 2 * y" using near_bounds [OF share_near [OF assms]] by (simp_all add: x_def y_def)
  moreover have "a \<le> y \<and> y \<le> 2" if "a \<le> x / 2" "x \<le> 1" "y \<le> 2 * x" "x \<le> 2 * y" for a x y :: rat using that by simp
  ultimately have "2 powi (- 1000) \<le> y \<and> y \<le> 2" by blast
  then show ?thesis using run_count_weight(1) [OF assms] by (simp add: term_ok_def y_def)
qed

lemma sum_list_quotient: "(\<Sum>x\<leftarrow>xs. f x) / (d :: rat) = (\<Sum>x\<leftarrow>xs. f x / d)"
  by (induction xs) (simp_all add: add_divide_distrib)

text \<open>The entries that pass the comparison make up at least the exact p-value.\<close>

lemma exact_le_sum:
  assumes a: "runs_accurate mexp lgamma p q" and r0: "in_range p q r0"
    and cs: "mset cs = mset (map (\<lambda>r. (r, run_count mexp lgamma (int p) (int q) r)) [2..max_runs (int p) (int q)])"
  shows "exact_pvalue p q r0 \<le> exact_sum (runs_limit mexp lgamma p q r0) (total_perms mexp lgamma p q) cs * fq ^ 4401"
proof -
  define cnt T limit where "cnt r = f_val (run_count mexp lgamma (int p) (int q) r)"
    and "T = f_val (total_perms mexp lgamma p q)" and "limit = f_val (runs_limit mexp lgamma p q r0)" for r
  have pq: "0 < p" "0 < q" using r0 by (simp_all add: in_range_def)
  have "exact_pvalue p q r0 =
    (\<Sum>r\<leftarrow>[2..max_runs (int p) (int q)]. if run_weight p q r \<le> run_weight p q r0 then run_weight p q r / total_weight p q else 0)"
    unfolding exact_pvalue_sum [OF pq] less_likely_def total_weight_def run_weight_def
    by (simp add: sum_list_map_filter' sum_list_quotient if_distrib [of "\<lambda>x. x / _"] cong: if_cong)
  also have "\<dots> \<le> (\<Sum>r\<leftarrow>[2..max_runs (int p) (int q)]. (if cnt r \<le> limit then cnt r / T else 0) * fq ^ 4401)"
  proof (rule sum_list_mono)
    fix r assume "r \<in> set [2..max_runs (int p) (int q)]"
    then have r: "in_range p q r" using r0 by (simp add: in_range_def)
    have "run_weight p q r / total_weight p q \<le> cnt r / T * fq ^ 4401" "0 < cnt r / T"
      using share_near [OF a r] by (simp_all add: near_def cnt_def T_def)
    then show "(if run_weight p q r \<le> run_weight p q r0 then run_weight p q r / total_weight p q else 0)
        \<le> (if cnt r \<le> limit then cnt r / T else 0) * fq ^ 4401"
      using runs_limit_covers [OF a r r0] by (auto simp: cnt_def limit_def)
  qed
  also have "\<dots> = exact_sum (runs_limit mexp lgamma p q r0) (total_perms mexp lgamma p q) cs * fq ^ 4401"
    unfolding exact_sum_def sum_filter_mset [OF cs] sum_list_mult_const
    by (simp add: sum_list_map_filter' comp_def cnt_def T_def limit_def cong: if_cong)
  finally show ?thesis .
qed

lemma p_sum_not_below_exact:
  assumes a: "runs_accurate mexp lgamma p q" and r0: "in_range p q r0"
    and cs: "mset cs = mset (map (\<lambda>r. (r, run_count mexp lgamma (int p) (int q) r)) [2..max_runs (int p) (int q)])"
  defines "P \<equiv> p_sum (runs_limit mexp lgamma p q r0) (total_perms mexp lgamma p q) (Fin 0) cs"
  shows "f_finite P" "exact_pvalue p q r0 \<le> f_val P * fq ^ 4600"
proof -
  let ?T = "total_perms mexp lgamma p q" and ?l = "runs_limit mexp lgamma p q r0"
  have "set cs = (\<lambda>r. (r, run_count mexp lgamma (int p) (int q) r)) ` {2..max_runs (int p) (int q)}"
    by (subst set_mset_mset [symmetric], subst cs) simp
  then have ok: "\<forall>(r, c)\<in>set cs. term_ok ?T c" using share_term_ok [OF a] r0 by (auto simp: in_range_def)
  have "length cs = length [2..max_runs (int p) (int q)]" by (subst size_mset [symmetric], subst cs) simp
  moreover have "max_runs (int p) (int q) \<le> int p + int q + 1" by (auto simp: max_runs_def min_def)
  moreover have "p + q \<le> 64" using r0 by (simp add: in_range_def)
  ultimately have len: "length cs \<le> 64" by (simp add: nat_le_iff)
  have s: "f_finite P \<and> f_val (Fin 0) + exact_sum ?l ?T cs \<le> f_val P * fq ^ (2 * length cs)"
    unfolding P_def
    by (rule p_sum_lower [where m = 0])
      (use total_perms_near [OF a] runs_limit_covers [OF a r0 r0] ok len in \<open>simp_all add: near_def\<close>)
  then show "f_finite P" by simp
  have "exact_sum ?l ?T cs * fq ^ 4401 \<le> f_val P * fq ^ (2 * length cs) * fq ^ 4401"
    using s by (intro mult_right_mono) simp_all
  with exact_le_sum [OF a r0 cs] have 1: "exact_pvalue p q r0 \<le> f_val P * fq ^ (2 * length cs + 4401)"
    unfolding power_add mult.assoc by (rule order_trans)
  then have "0 \<le> f_val P * fq ^ (2 * length cs + 4401)" using exact_pvalue_bounds(1) [of p q r0] by linarith
  then have "0 \<le> f_val P" using zero_less_power [OF fq_gt(2), of "2 * length cs + 4401"] by (metis mult_neg_pos not_le)
  then have "f_val P * fq ^ (2 * length cs + 4401) \<le> f_val P * fq ^ 4600"
    using len by (intro mult_left_mono power_increasing) simp_all
  then show "exact_pvalue p q r0 \<le> f_val P * fq ^ 4600" using 1 by (rule order_trans [rotated])
qed

lemma signs_in_range:
  assumes "collect_signs d rs ([], 0, 0) = (signs, int p, int q)" "0 < p" "0 < q" "length rs \<le> 64"
  shows "signs \<in> arrangements p q" "in_range p q (observed_runs signs)"
proof -
  obtain p' q' where "int p = int p'" "int q = int q'" "signs \<in> arrangements p' q'" "p' + q' \<le> 0 + 0 + length rs"
    by (rule collect_signs_spec [of d rs "[]" 0 0 signs "int p" "int q"]) (use assms(1) in \<open>simp_all add: arrangements_def\<close>)
  then show "signs \<in> arrangements p q" "in_range p q (observed_runs signs)"
    using observed_runs_ge_2 [of signs p q] observed_runs_le_max [of signs p q] assms by (simp_all add: in_range_def)
qed

text \<open>The p-value, when the counts have this accuracy.\<close>

lemma runs_pvalue_given_counts:
  assumes sg: "collect_signs (runs_deadband maxAbsModelVal) residuals ([], 0, 0) = (signs, int p, int q)"
    and pq: "0 < p" "0 < q" and n: "length residuals \<le> 64"
    and a: "runs_accurate mexp lgamma p q" and it: "\<And>t. mset (iterate t) = mset t"
  shows "let P = ComputeRunsPValue mexp lgamma iterate residuals maxAbsModelVal
    in f_finite P \<and> f_val P \<le> 1 \<and> exact_pvalue p q (observed_runs signs) \<le> f_val P * fq ^ 4600"
proof -
  define r0 cs where "r0 = observed_runs signs"
    and "cs = iterate (map (\<lambda>r. (r, run_count mexp lgamma (int p) (int q) r)) [2..max_runs (int p) (int q)])"
  define P where "P = p_sum (runs_limit mexp lgamma p q r0) (total_perms mexp lgamma p q) (Fin 0) cs"
  have s: "signs \<in> arrangements p q" and r0: "in_range p q r0"
    using signs_in_range [OF sg pq n] by (simp_all add: r0_def)
  have r: "p + q \<le> 64" "2 \<le> r0" "r0 \<le> max_runs (int p) (int q)" using r0 by (simp_all add: in_range_def)
  have R: "ComputeRunsPValue mexp lgamma iterate residuals maxAbsModelVal = f_Min (Fin 1) P"
    using pq length_arrangements [OF s] table_count_full [OF r(2,3), of "run_count mexp lgamma (int p) (int q)"]
    by (simp add: ComputeRunsPValue_def sg Let_def runs_table_full [OF a pq r(1)] r0_def [symmetric] cs_def [symmetric]
        total_perms_def runs_limit_def P_def)
  note P = p_sum_not_below_exact [OF a r0, of cs, folded P_def]
  have c: "mset cs = mset (map (\<lambda>r. (r, run_count mexp lgamma (int p) (int q) r)) [2..max_runs (int p) (int q)])"
    by (simp add: cs_def it)
  have 1: "exact_pvalue p q r0 \<le> 1 * fq ^ 4600"
    using order_trans [OF exact_pvalue_bounds(2) one_le_power [OF fq_gt(3)], of p q r0 4600] by (simp only: mult_1_left)
  have "exact_pvalue p q r0 \<le> min 1 (f_val P) * fq ^ 4600"
    unfolding min_def using P(2) [OF c] 1 by (simp only: split: if_split) blast
  then show ?thesis using f_Min_one [OF P(1) [OF c]] by (simp add: R Let_def r0_def)
qed

subsection \<open>Constants and small integers\<close>

lemma quantum_val:
  "f_finite EstimateQuantumSec" "2 powi (- 30) \<le> f_val EstimateQuantumSec" "f_val EstimateQuantumSec \<le> 1 / 1024"
proof -
  have b: "2 powi (- 30) \<le> (1 / 10 ^ 9 :: rat)" "(1 / 10 ^ 9 :: rat) \<le> 2 powi (- 10)" by (simp_all add: power_int_def power_divide)
  have "\<bar>1 / 10 ^ 9 :: rat\<bar> \<le> 2 powi 1023" using powi_2_mono [of 0 1023] by simp
  note v = f_lit_val [OF this]
  show "f_finite EstimateQuantumSec" using v(1) by (simp add: EstimateQuantumSec_def)
  show "2 powi (- 30) \<le> f_val EstimateQuantumSec" unfolding EstimateQuantumSec_def v(2) by (rule rnd_ge_powi [OF b(1)]) simp
  have "rnd (1 / 10 ^ 9) \<le> 2 powi (- 10)" using rnd_large_bound [of "1 / 10 ^ 9" "- 10"] b(2) by simp
  then show "f_val EstimateQuantumSec \<le> 1 / 1024" unfolding EstimateQuantumSec_def v(2) by (simp add: power_int_def power_divide)
qed

lemma f_of_int_small: "\<bar>n\<bar> \<le> 2 ^ 53 \<Longrightarrow> f_of_int n = Fin (of_int n)"
proof -
  assume n: "\<bar>n\<bar> \<le> 2 ^ 53"
  have "sint (of_int n :: 64 word) = n" using n by (intro sint_of_int64) (simp_all add: in_i64_def abs_le_iff)
  moreover have "(of_int (f64_of_int n) :: rat) = of_int n" using n rnd_of_int rnd_int by metis
  ultimately show ?thesis by (simp add: f_of_int_def f_of_i64_def)
qed

end
