(* ===== verification/RunsAccuracy.thy ===== *)
theory RunsAccuracy
  imports Runs
begin

text \<open>
  The accuracy of the counts of the runs test (\<open>source/estimate.go\<close>, \<open>logComb\<close> and the table of \<open>ComputeRunsPValue\<close>),
  derived from that of \<open>math.Exp\<close> and \<open>math.Lgamma\<close> alone: the error of a log-binomial, of the sums with \<open>Ln2\<close>, and
  of their exponentials. The property of the p-value rests on it. Two executable functions show that
  the accuracy asked for can be had.
\<close>

subsection \<open>Errors of sums\<close>

text \<open>The real number of a float64, and how far it may be from the one it stands for.\<close>

definition rv :: "float64 \<Rightarrow> real" where
  "rv a = real_of_rat (f_val a)"

definition approx :: "real \<Rightarrow> real \<Rightarrow> float64 \<Rightarrow> bool" where
  "approx e x a \<longleftrightarrow> f_finite a \<and> \<bar>rv a - x\<bar> \<le> e"

lemma real_of_rat_abs: "real_of_rat \<bar>x\<bar> = \<bar>real_of_rat x\<bar>"
  by (simp add: abs_if of_rat_minus)

lemma rnd_error_below:
  assumes "\<bar>real_of_rat z\<bar> < 2 ^ k"
  shows "\<bar>real_of_rat (rnd z) - real_of_rat z\<bar> \<le> 2 ^ k / 2 ^ 54"
proof (cases "z = 0")
  case False
  have "real_of_rat \<bar>z\<bar> < real_of_rat (2 ^ k)" using assms by (simp only: real_of_rat_abs of_rat_power of_rat_numeral_eq)
  then have "\<bar>z\<bar> < 2 powi (int k)" by (simp add: of_rat_less)
  from binade_small [OF this False] have "max (binade z - 52) (- 1074) \<le> int k - 53" by simp
  then have "ulp z \<le> 2 powi (int k - 53)" unfolding ulp_def by (rule powi_2_mono)
  also have "\<dots> = 2 ^ k * 2 powi (- 53)" using powi_2_add [of "int k" "- 53"] by simp
  also have "(2 :: rat) powi (- 53) = 1 / 2 ^ 53" by (simp add: power_int_def power_one_over)
  finally have "ulp z \<le> 2 ^ k / 2 ^ 53" by simp
  then have "\<bar>rnd z - z\<bar> \<le> 2 ^ k / 2 ^ 54" using rnd_error [of z] by simp
  then have "real_of_rat \<bar>rnd z - z\<bar> \<le> real_of_rat (2 ^ k / 2 ^ 54)" by (simp only: of_rat_less_eq)
  then show ?thesis by (simp add: real_of_rat_abs of_rat_diff of_rat_divide of_rat_power)
qed simp

lemma approx_uminus: "approx e x a \<Longrightarrow> approx e (- x) (f_uminus a)"
  by (auto simp: approx_def rv_def float_val of_rat_minus)

lemma approx_add:
  assumes a: "approx e x a" and b: "approx f y b" and s: "\<bar>x + y\<bar> + e + f < 2 ^ k" and k: "k \<le> 1000"
  shows "approx (e + f + 2 ^ k / 2 ^ 54) (x + y) (f_add a b)"
proof -
  have ab: "f_finite a" "f_finite b" "\<bar>rv a - x\<bar> \<le> e" "\<bar>rv b - y\<bar> \<le> f" using a b by (simp_all add: approx_def)
  have z: "\<bar>real_of_rat (f_val a + f_val b)\<bar> < 2 ^ k" using ab(3,4) s by (simp add: rv_def of_rat_add)
  then have "real_of_rat \<bar>f_val a + f_val b\<bar> < real_of_rat (2 ^ k)" by (simp only: real_of_rat_abs of_rat_power of_rat_numeral_eq)
  then have "\<bar>f_val a + f_val b\<bar> \<le> 2 powi (int k)" by (simp add: of_rat_less)
  also have "\<dots> \<le> 2 powi 1023" using k by (intro powi_2_mono) simp
  finally have "\<bar>f_val a + f_val b\<bar> \<le> 2 powi 1023" .
  note v = f_add_val [OF ab(1,2) this, THEN conjunct1] f_add_val [OF ab(1,2) this, THEN conjunct2]
  have "\<bar>rv (f_add a b) - (rv a + rv b)\<bar> \<le> 2 ^ k / 2 ^ 54"
    using rnd_error_below [OF z] by (simp add: rv_def v of_rat_add)
  then show ?thesis using ab v(1) unfolding approx_def by linarith
qed

lemma approx_sub:
  assumes "approx e x a" "approx f y b" "\<bar>x - y\<bar> + e + f < 2 ^ k" "k \<le> 1000"
  shows "approx (e + f + 2 ^ k / 2 ^ 54) (x - y) (f_sub a b)"
  using approx_add [OF assms(1) approx_uminus [OF assms(2)], of k] assms(3,4) by (simp add: f_sub_def)

lemma approx_mono: "approx e x a \<Longrightarrow> e \<le> f \<Longrightarrow> approx f x a"
  by (simp add: approx_def)

lemma approx_zero: "0 \<le> e \<Longrightarrow> approx e 0 (Fin 0)"
  by (simp add: approx_def rv_def)

subsection \<open>The logarithm of two\<close>

lemma exp_Taylor:
  fixes x :: real
  assumes "0 \<le> x" "x \<le> 1"
  shows "(\<Sum>m<18. x ^ m / fact m) \<le> exp x" "exp x \<le> (\<Sum>m<18. x ^ m / fact m) + 3 / fact 18"
proof -
  obtain t where t: "\<bar>t\<bar> \<le> \<bar>x\<bar>" "exp x = (\<Sum>m<18. x ^ m / fact m) + exp t / fact 18 * x ^ 18"
    using Maclaurin_exp_le [of x 18] by blast
  have "exp t \<le> exp 1" using t(1) assms by simp
  then have "exp t \<le> 3" using exp_le by linarith
  moreover have "0 \<le> exp t" by simp
  moreover have "0 \<le> x ^ 18" "x ^ 18 \<le> 1" using assms by (simp_all add: power_le_one)
  ultimately have "0 \<le> exp t * x ^ 18" "exp t * x ^ 18 \<le> 3 * 1" using mult_mono [of "exp t" 3 "x ^ 18" 1] by simp_all
  then have "0 \<le> exp t / fact 18 * x ^ 18" "exp t / fact 18 * x ^ 18 \<le> 3 / fact 18"
    by (simp_all add: divide_right_mono)
  then show "(\<Sum>m<18. x ^ m / fact m) \<le> exp x" "exp x \<le> (\<Sum>m<18. x ^ m / fact m) + 3 / fact 18"
    unfolding t(2) by linarith+
qed

text \<open>The Taylor polynomial in Horner form, with its coefficients counted from \<open>k\<close>.\<close>

fun horner :: "real \<Rightarrow> nat \<Rightarrow> nat \<Rightarrow> real" where
  "horner x k 0 = 1"
| "horner x k (Suc n) = 1 + x / (real k + 1) * horner x (Suc k) n"

lemma horner_term: "x ^ Suc m * fact k / fact (k + Suc m) = x / (real k + 1) * (x ^ m * fact (Suc k) / fact (Suc k + m))"
proof -
  have "(fact (Suc k) :: real) = (real k + 1) * fact k" by (simp add: algebra_simps)
  then have "x / (real k + 1) * (x ^ m * fact (Suc k)) = x ^ Suc m * fact k" by (simp add: field_simps del: fact_Suc)
  moreover have "(fact (k + Suc m) :: real) = fact (Suc k + m)" by (simp only: add_Suc_right add_Suc)
  ultimately show ?thesis by (simp only: times_divide_eq_right)
qed

lemma horner_sum: "(\<Sum>m<Suc n. x ^ m * fact k / fact (k + m)) = horner x k n"
proof (induction n arbitrary: k)
  case (Suc n)
  have "(\<Sum>m<Suc (Suc n). x ^ m * fact k / fact (k + m)) = 1 + (\<Sum>m<Suc n. x ^ Suc m * fact k / fact (k + Suc m))"
    by (subst sum.lessThan_Suc_shift) simp
  also have "\<dots> = 1 + (\<Sum>m<Suc n. x / (real k + 1) * (x ^ m * fact (Suc k) / fact (Suc k + m)))"
    by (intro arg_cong [where f = "(+) 1"] sum.cong refl) (rule horner_term)
  also have "\<dots> = 1 + x / (real k + 1) * horner x (Suc k) n" unfolding Suc.IH [symmetric] by (simp only: sum_distrib_left)
  finally show ?case by simp
qed simp

lemma horner_Taylor: "(\<Sum>m<18. x ^ m / fact m) = horner x 0 17"
  using horner_sum [of x 0 17] by (simp add: numeral_eq_Suc)

lemma horner_upper:
  "horner x k' n' \<le> d \<Longrightarrow> 0 \<le> x \<Longrightarrow> k' = Suc k \<Longrightarrow> n = Suc n' \<Longrightarrow> 1 + x / (real k + 1) * d \<le> c \<Longrightarrow> horner x k n \<le> c"
  using mult_left_mono [of "horner x (Suc k) n'" d "x / (real k + 1)"] by simp

lemma horner_lower:
  "d \<le> horner x k' n' \<Longrightarrow> 0 \<le> x \<Longrightarrow> k' = Suc k \<Longrightarrow> n = Suc n' \<Longrightarrow> c \<le> 1 + x / (real k + 1) * d \<Longrightarrow> c \<le> horner x k n"
  using mult_left_mono [of d "horner x (Suc k) n'" "x / (real k + 1)"] by simp

lemma horner_below_ln2: "horner (693147180559940 / 10 ^ 15) 0 17 \<le> 19999999999999893810 / 10 ^ 19"
proof -
  define x :: real where "x = 693147180559940 / 10 ^ 15"
  have x: "0 \<le> x" by (simp add: x_def)
  have "horner x 17 0 \<le> 1" by simp
  then have "horner x 16 1 \<le> 10407733635623494118 / 10 ^ 19"
    by (rule horner_upper [OF _ x]) (simp_all add: x_def)
  then have "horner x 15 2 \<le> 10450880701596954929 / 10 ^ 19"
    by (rule horner_upper [OF _ x]) (simp_all add: x_def)
  then have "horner x 14 3 \<le> 10482933232845347797 / 10 ^ 19"
    by (rule horner_upper [OF _ x]) (simp_all add: x_def)
  then have "horner x 13 4 \<le> 10519015401024632132 / 10 ^ 19"
    by (rule horner_upper [OF _ x]) (simp_all add: x_def)
  then have "horner x 12 5 \<le> 10560863528268216182 / 10 ^ 19"
    by (rule horner_upper [OF _ x]) (simp_all add: x_def)
  then have "horner x 11 6 \<le> 10610019398241451188 / 10 ^ 19"
    by (rule horner_upper [OF _ x]) (simp_all add: x_def)
  then have "horner x 10 7 \<le> 10668573184688848465 / 10 ^ 19"
    by (rule horner_upper [OF _ x]) (simp_all add: x_def)
  then have "horner x 9 8 \<le> 10739489142356445536 / 10 ^ 19"
    by (rule horner_upper [OF _ x]) (simp_all add: x_def)
  then have "horner x 8 9 \<le> 10827116291075384259 / 10 ^ 19"
    by (rule horner_upper [OF _ x]) (simp_all add: x_def)
  then have "horner x 7 10 \<le> 10938098141344187158 / 10 ^ 19"
    by (rule horner_upper [OF _ x]) (simp_all add: x_def)
  then have "horner x 6 11 \<le> 11083101698194377631 / 10 ^ 19"
    by (rule horner_upper [OF _ x]) (simp_all add: x_def)
  then have "horner x 5 12 \<le> 11280370115660419319 / 10 ^ 19"
    by (rule horner_upper [OF _ x]) (simp_all add: x_def)
  then have "horner x 4 13 \<le> 11563791348268524787 / 10 ^ 19"
    by (rule horner_upper [OF _ x]) (simp_all add: x_def)
  then have "horner x 3 14 \<le> 12003852342408938792 / 10 ^ 19"
    by (rule horner_upper [OF _ x]) (simp_all add: x_def)
  then have "horner x 2 15 \<le> 12773478802332862471 / 10 ^ 19"
    by (rule horner_upper [OF _ x]) (simp_all add: x_def)
  then have "horner x 1 16 \<le> 14426950408889591382 / 10 ^ 19"
    by (rule horner_upper [OF _ x]) (simp_all add: x_def)
  then have "horner x 0 17 \<le> 19999999999999893810 / 10 ^ 19"
    by (rule horner_upper [OF _ x]) (simp_all add: x_def)
  then show ?thesis by (simp add: x_def)
qed

lemma horner_above_ln2: "20000000000000093808 / 10 ^ 19 \<le> horner (693147180559950 / 10 ^ 15) 0 17"
proof -
  define x :: real where "x = 693147180559950 / 10 ^ 15"
  have x: "0 \<le> x" by (simp add: x_def)
  have "1 \<le> horner x 17 0" by simp
  then have "10407733635623500000 / 10 ^ 19 \<le> horner x 16 1"
    by (rule horner_lower [OF _ x]) (simp_all add: x_def)
  then have "10450880701596961688 / 10 ^ 19 \<le> horner x 15 2"
    by (rule horner_lower [OF _ x]) (simp_all add: x_def)
  then have "10482933232845355075 / 10 ^ 19 \<le> horner x 14 3"
    by (rule horner_lower [OF _ x]) (simp_all add: x_def)
  then have "10519015401024639979 / 10 ^ 19 \<le> horner x 13 4"
    by (rule horner_lower [OF _ x]) (simp_all add: x_def)
  then have "10560863528268224691 / 10 ^ 19 \<le> horner x 12 5"
    by (rule horner_lower [OF _ x]) (simp_all add: x_def)
  then have "10610019398241460480 / 10 ^ 19 \<le> horner x 11 6"
    by (rule horner_lower [OF _ x]) (simp_all add: x_def)
  then have "10668573184688858695 / 10 ^ 19 \<le> horner x 10 7"
    by (rule horner_lower [OF _ x]) (simp_all add: x_def)
  then have "10739489142356456913 / 10 ^ 19 \<le> horner x 9 8"
    by (rule horner_lower [OF _ x]) (simp_all add: x_def)
  then have "10827116291075397067 / 10 ^ 19 \<le> horner x 8 9"
    by (rule horner_lower [OF _ x]) (simp_all add: x_def)
  then have "10938098141344201801 / 10 ^ 19 \<le> horner x 7 10"
    by (rule horner_lower [OF _ x]) (simp_all add: x_def)
  then have "11083101698194394705 / 10 ^ 19 \<le> horner x 6 11"
    by (rule horner_lower [OF _ x]) (simp_all add: x_def)
  then have "11280370115660439762 / 10 ^ 19 \<le> horner x 5 12"
    by (rule horner_lower [OF _ x]) (simp_all add: x_def)
  then have "11563791348268550180 / 10 ^ 19 \<le> horner x 4 13"
    by (rule horner_lower [OF _ x]) (simp_all add: x_def)
  then have "12003852342408972101 / 10 ^ 19 \<le> horner x 3 14"
    by (rule horner_lower [OF _ x]) (simp_all add: x_def)
  then have "12773478802332910179 / 10 ^ 19 \<le> horner x 2 15"
    by (rule horner_lower [OF _ x]) (simp_all add: x_def)
  then have "14426950408889671783 / 10 ^ 19 \<le> horner x 1 16"
    by (rule horner_lower [OF _ x]) (simp_all add: x_def)
  then have "20000000000000093808 / 10 ^ 19 \<le> horner x 0 17"
    by (rule horner_lower [OF _ x]) (simp_all add: x_def)
  then show ?thesis by (simp add: x_def)
qed

text \<open>The constant of package math against the logarithm of two.\<close>

lemma Ln2_close: "\<bar>real_of_rat Ln2 - ln 2\<bar> \<le> 1 / 2 ^ 46"
proof -
  define a b :: real where "a = 693147180559940 / 10 ^ 15" and "b = 693147180559950 / 10 ^ 15"
  have ab: "0 \<le> a" "a \<le> 1" "0 \<le> b" "b \<le> 1" by (simp_all add: a_def b_def)
  have "horner a 0 17 + 3 / fact 18 \<le> 2" using horner_below_ln2 by (simp add: a_def fact_numeral)
  then have "exp a \<le> 2" using exp_Taylor(2) [OF ab(1,2)] unfolding horner_Taylor by linarith
  moreover have "2 \<le> horner b 0 17" using horner_above_ln2 by (simp add: b_def)
  then have "2 \<le> exp b" using exp_Taylor(1) [OF ab(3,4)] unfolding horner_Taylor by linarith
  ultimately have "a \<le> ln 2" "ln 2 \<le> b" by (simp_all add: ln_ge_iff) (metis exp_gt_zero ln_exp ln_le_cancel_iff zero_less_numeral)
  moreover have "real_of_rat Ln2 = 693147180559945309417232121458176568 / 10 ^ 36" by (simp add: Ln2_def of_rat_divide)
  ultimately show ?thesis unfolding abs_le_iff by (simp add: a_def b_def)
qed

subsection \<open>What the code relies on\<close>

text \<open>\<open>Exp\<close> returns the exponential of its argument and \<open>Lgamma\<close> the logarithm of the Gamma function, the logarithm of a
  factorial at the integers the code asks for: with a relative error of at most \<open>2^-50\<close>, and of \<open>2^-50\<close> absolutely where
  the logarithm is small. Nothing is asked of \<open>logComb\<close>.\<close>

definition Exp_accurate :: "(float64 \<Rightarrow> float64) \<Rightarrow> bool" where
  "Exp_accurate mexp \<longleftrightarrow> (\<forall>a. f_finite a \<and> \<bar>rv a\<bar> \<le> 64 \<longrightarrow> approx (exp (rv a) / 2 ^ 50) (exp (rv a)) (mexp a))"

definition Lgamma_accurate :: "(float64 \<Rightarrow> float64) \<Rightarrow> bool" where
  "Lgamma_accurate lgamma \<longleftrightarrow>
    (\<forall>n. 1 \<le> n \<and> n \<le> 64 \<longrightarrow> approx ((ln (fact n) + 1) / 2 ^ 50) (ln (fact n)) (lgamma (Fin (of_nat (n + 1)))))"

subsection \<open>The logarithms\<close>

lemma lgamma_close:
  assumes "Lgamma_accurate lgamma" "1 \<le> n" "n \<le> 64"
  shows "approx ((ln (fact n) + 1) / 2 ^ 50) (ln (fact n)) (lgamma (f_of_int (int n + 1)))"
proof -
  have "f_of_int (int n + 1) = Fin (of_nat (n + 1))" using f_of_int_small [of "int n + 1"] assms(3) by simp
  then show ?thesis using assms by (simp add: Lgamma_accurate_def)
qed

lemma ln_fact_nonneg: "0 \<le> ln (fact n :: real)"
  by (simp add: ln_ge_zero fact_ge_1)

lemma ln_fact_le:
  assumes "n \<le> 64"
  shows "ln (fact n :: real) \<le> 225"
proof -
  have "(5 / 2 :: real) \<le> exp 1" using exp_lower_Taylor_quadratic [of 1] by simp
  then have "(5 / 2 :: real) ^ 225 \<le> exp 1 ^ 225" by (rule power_mono) simp
  also have "\<dots> = exp 225" by (simp flip: exp_of_nat_mult)
  finally have e: "(5 / 2 :: real) ^ 225 \<le> exp 225" .
  have "(fact n :: real) \<le> fact 64" using assms by (rule fact_mono)
  also have "\<dots> \<le> (5 / 2) ^ 225" by (simp add: fact_numeral power_divide)
  also note e
  finally show ?thesis by (metis fact_gt_zero exp_gt_zero ln_exp ln_le_cancel_iff)
qed

lemma ln_choose:
  assumes "k \<le> n"
  shows "ln (real (n choose k)) = ln (fact n) - ln (fact k) - ln (fact (n - k))"
proof -
  have "real (n choose k) = fact n / (fact k * fact (n - k))" using assms by (rule binomial_fact)
  then show ?thesis by (simp add: ln_div ln_mult)
qed

lemma ln_choose_bounds:
  assumes "k \<le> n"
  shows "0 \<le> ln (real (n choose k))" "ln (real (n choose k)) \<le> real n * ln 2"
proof -
  have c: "1 \<le> n choose k" using assms by (simp add: Suc_le_eq)
  then show "0 \<le> ln (real (n choose k))" by simp
  have "real (n choose k) \<le> real (2 ^ n)" using binomial_le_pow2 [of n k] by (simp only: of_nat_le_iff)
  then have "ln (real (n choose k)) \<le> ln (2 ^ n)" using c assms by (subst ln_le_cancel_iff) simp_all
  then show "ln (real (n choose k)) \<le> real n * ln 2" by (simp add: ln_realpow)
qed

lemma ln_2_le: "ln (2 :: real) \<le> 695 / 1000" "693 / 1000 \<le> ln (2 :: real)"
  using Ln2_close unfolding abs_le_iff by (simp_all add: Ln2_def of_rat_divide)

lemma ln_fact_add: "ln (fact m) + ln (fact n) \<le> ln (fact (m + n) :: real)"
  using ln_choose [of m "m + n"] ln_choose_bounds(1) [of m "m + n"] by simp

lemma logComb_close:
  assumes "Lgamma_accurate lgamma" "k \<le> n" "n \<le> 64"
  shows "approx (ln (fact n) / 2 ^ 49 + 23 / 2 ^ 50) (ln (real (n choose k))) (logComb lgamma (int n) (int k))"
proof (cases "k = 0 \<or> k = n")
  case True
  then have "logComb lgamma (int n) (int k) = Fin 0" "n choose k = 1" by (auto simp: logComb_def)
  then show ?thesis using ln_fact_nonneg [of n] by (simp add: approx_zero)
next
  case False
  define a b c where "a = ln (fact n :: real)" and "b = ln (fact k :: real)" and "c = ln (fact (n - k) :: real)"
  have k: "1 \<le> k" "1 \<le> n - k" "1 \<le> n" "k \<le> 64" "n - k \<le> 64" using False assms(2,3) by auto
  have abc: "0 \<le> b" "0 \<le> c" "b + c \<le> a" "a \<le> 225"
    using ln_fact_nonneg ln_fact_add [of k "n - k"] assms(2) ln_fact_le [OF assms(3)] by (simp_all add: a_def b_def c_def)
  have v: "a - b - c \<le> real n * ln 2" using ln_choose_bounds(2) [OF assms(2)] by (simp add: ln_choose [OF assms(2)] a_def b_def c_def)
  have "real n * ln 2 \<le> 64 * (695 / 1000)" using assms(3) ln_2_le by (intro mult_mono) simp_all
  with v have w: "a - b - c \<le> 64 * (695 / 1000)" by linarith
  note l = lgamma_close [OF assms(1) k(3) assms(3), folded a_def] lgamma_close [OF assms(1) k(1,4), folded b_def]
    lgamma_close [OF assms(1) k(2,5), folded c_def]
  have s: "approx ((a + 1) / 2 ^ 50 + (b + 1) / 2 ^ 50 + 2 ^ 8 / 2 ^ 54) (a - b) (f_sub (lgamma (f_of_int (int n + 1))) (lgamma (f_of_int (int k + 1))))"
    by (rule approx_sub [OF l(1,2)]) (use abc in \<open>simp_all add: add_divide_distrib\<close>)
  have t: "approx ((a + 1) / 2 ^ 50 + (b + 1) / 2 ^ 50 + 2 ^ 8 / 2 ^ 54 + (c + 1) / 2 ^ 50 + 2 ^ 6 / 2 ^ 54) (a - b - c) (logComb lgamma (int n) (int k))"
  proof -
    have e: "logComb lgamma (int n) (int k) =
      f_sub (f_sub (lgamma (f_of_int (int n + 1))) (lgamma (f_of_int (int k + 1)))) (lgamma (f_of_int (int (n - k) + 1)))"
      using False assms(2) by (simp add: logComb_def of_nat_diff)
    show ?thesis unfolding e by (rule approx_sub [OF s l(3)]) (use abc w in \<open>simp_all add: abs_if add_divide_distrib\<close>)
  qed
  show ?thesis unfolding ln_choose [OF assms(2)]
    by (rule approx_mono [OF t [unfolded a_def b_def c_def]]) (use abc in \<open>simp add: a_def b_def c_def add_divide_distrib\<close>)
qed

subsection \<open>The exponentials\<close>

lemma exp_close:
  assumes e: "Exp_accurate mexp" and l: "approx d (ln (real n)) l" and n: "1 \<le> n" "ln (real n) \<le> 63"
    and d: "0 \<le> d" "d \<le> 2100 / 2 ^ 52"
  shows "exp_near mexp l n"
proof -
  define N v m E where "N = real n" and "v = rv l" and "m = rv (mexp l)" and "E = exp (v - ln (real n))"
  have N: "1 \<le> N" "0 \<le> ln N" using n(1) by (simp_all add: N_def)
  have v: "f_finite l" "\<bar>v - ln N\<bar> \<le> d" using l by (simp_all add: approx_def v_def N_def)
  then have "\<bar>v\<bar> \<le> 64" using N(2) n(2) d by (auto simp: N_def abs_le_iff)
  then have "approx (exp v / 2 ^ 50) (exp v) (mexp l)" using e v(1) by (simp add: Exp_accurate_def v_def)
  then have m: "f_finite (mexp l)" "\<bar>m - exp v\<bar> \<le> exp v / 2 ^ 50" by (simp_all add: approx_def m_def)
  have "exp v = N * E" using N(1) by (simp add: E_def N_def exp_diff)
  have E: "1 - d \<le> E" "E * (1 - d) \<le> 1"
  proof -
    have "1 + (v - ln N) \<le> E" unfolding E_def N_def by (rule exp_ge_add_one_self)
    then show "1 - d \<le> E" using v(2) by linarith
    have "1 + - (v - ln N) \<le> exp (- (v - ln N))" by (rule exp_ge_add_one_self)
    then have "1 - d \<le> exp (- (v - ln N))" using v(2) by linarith
    then have "E * (1 - d) \<le> E * exp (- (v - ln N))" by (intro mult_left_mono) (simp_all add: E_def)
    also have "\<dots> = 1" by (simp add: E_def N_def flip: exp_add)
    finally show "E * (1 - d) \<le> 1" .
  qed
  have f: "1 + 2200 / 2 ^ 52 \<le> real_of_rat (fq ^ 2200)"
  proof -
    have "1 + of_nat 2200 * (1 / 2 ^ 52) \<le> (1 + 1 / 2 ^ 52 :: real) ^ 2200" by (rule Bernoulli_inequality) simp
    moreover have f: "real_of_rat fq = 1 + 1 / 2 ^ 52" by (simp add: fq_def of_rat_divide of_rat_add)
    ultimately show ?thesis unfolding of_rat_power f by simp
  qed
  define F where "F = real_of_rat (fq ^ 2200)"
  have E': "E \<le> 1 + 2104 / 2 ^ 52" "1 - 2100 / 2 ^ 52 \<le> E"
  proof -
    show "1 - 2100 / 2 ^ 52 \<le> E" using E(1) d(2) by linarith
    have "0 \<le> E" by (simp add: E_def)
    then have "E * (1 - 2100 / 2 ^ 52) \<le> E * (1 - d)" using d(2) by (intro mult_left_mono) simp_all
    then have "E * (1 - 2100 / 2 ^ 52) \<le> 1" using E(2) by linarith
    then show "E \<le> 1 + 2104 / 2 ^ 52" by simp
  qed
  have "m - exp v \<le> exp v / 2 ^ 50" "exp v - m \<le> exp v / 2 ^ 50" using m(2) by linarith+
  then have M: "m \<le> N * E * (1 + 1 / 2 ^ 50)" "N * (E * (1 - 1 / 2 ^ 50)) \<le> m"
    using \<open>exp v = N * E\<close> by (simp_all add: algebra_simps)
  from M(1) have "m \<le> N * E * (1 + 1 / 2 ^ 50)" .
  also have "\<dots> = N * (E * (1 + 1 / 2 ^ 50))" by simp
  also have "\<dots> \<le> N * F" using E' f N by (intro mult_left_mono) (simp_all add: F_def)
  finally have up: "m \<le> N * F" .
  note lo = M(2)
  have "1 - 2104 / 2 ^ 52 \<le> E * (1 - 1 / 2 ^ 50)" using E'(2) by simp
  then have lo': "N * (1 - 2104 / 2 ^ 52) \<le> m" using lo N by (intro order_trans [OF mult_left_mono lo]) simp_all
  have m0: "0 < m" using less_le_trans [OF _ lo'] N by simp
  have "N * 1 \<le> N * ((1 - 2104 / 2 ^ 52) * (1 + 2200 / 2 ^ 52))" using N by (intro mult_left_mono) simp_all
  also have "\<dots> \<le> m * (1 + 2200 / 2 ^ 52)" unfolding mult.assoc [symmetric] using lo' by (rule mult_right_mono) simp
  also have "\<dots> \<le> m * F" using f m0 by (intro mult_left_mono) (simp_all add: F_def)
  finally have down: "N \<le> m * F" by simp
  have r: "N = real_of_rat (of_nat n)" "m = real_of_rat (f_val (mexp l))" by (simp_all add: N_def m_def rv_def)
  have "near 2200 (of_nat n) (f_val (mexp l))"
    using up down m0 n(1) unfolding near_def F_def r of_rat_mult [symmetric] of_rat_less_eq by simp
  then show ?thesis using m(1) by (simp add: exp_near_def)
qed

lemma Ln2_approx: "approx (1 / 2 ^ 46 + 1 / 2 ^ 54) (ln 2) (f_lit Ln2)"
proof -
  have "(1 :: rat) \<le> 2 powi 1023" using powi_2_mono [of 0 1023] by simp
  then have v: "f_finite (f_lit Ln2)" "f_val (f_lit Ln2) = rnd Ln2" using f_lit_val [of Ln2] by (simp_all add: Ln2_def)
  have "\<bar>real_of_rat Ln2\<bar> < 2 ^ 0" by (simp add: Ln2_def of_rat_divide)
  from rnd_error_below [OF this] have "\<bar>real_of_rat (rnd Ln2) - ln 2\<bar> \<le> 1 / 2 ^ 46 + 1 / 2 ^ 54"
    using Ln2_close unfolding power_0 by linarith
  then show ?thesis using v by (simp add: approx_def rv_def)
qed

lemma runs_accurate:
  assumes e: "Exp_accurate mexp" and g: "Lgamma_accurate lgamma" and pq: "0 < p" "0 < q" "p + q \<le> 64"
  shows "runs_accurate mexp lgamma p q"
proof -
  have "approx (ln (fact (p + q)) / 2 ^ 49 + 23 / 2 ^ 50) (ln (real ((p + q) choose p))) (logComb lgamma (int (p + q)) (int p))"
    by (rule logComb_close [OF g]) (use pq in simp_all)
  then have t: "exp_near mexp (logComb lgamma (int p + int q) (int p)) ((p + q) choose p)"
    unfolding of_nat_add
  proof (rule exp_close [OF e])
    have "real (p + q) * ln 2 \<le> 64 * (695 / 1000)" using pq(3) ln_2_le by (intro mult_mono) simp_all
    then show "ln (real (p + q choose p)) \<le> 63" using ln_choose_bounds(2) [of p "p + q"] by simp
  qed (use ln_fact_nonneg [of "p + q"] ln_fact_le [OF pq(3)] in \<open>simp_all add: Suc_le_eq\<close>)
  have c: "exp_near mexp (f_add (f_add (f_lit Ln2) (logComb lgamma (int p - 1) (int i))) (logComb lgamma (int q - 1) (int j)))
         (2 * ((p - 1) choose i) * ((q - 1) choose j))"
    "exp_near mexp (f_add (logComb lgamma (int p - 1) (int i)) (logComb lgamma (int q - 1) (int j)))
         (((p - 1) choose i) * ((q - 1) choose j))" if ij: "i < p" "j < q" for i j
  proof -
    have i: "i \<le> p - 1" "p - 1 \<le> 64" "j \<le> q - 1" "q - 1 \<le> 64" "int p - 1 = int (p - 1)" "int q - 1 = int (q - 1)" using ij pq by auto
    define a b x y where "a = ln (fact (p - 1) :: real)" and "b = ln (fact (q - 1) :: real)"
      and "x = ln (real ((p - 1) choose i))" and "y = ln (real ((q - 1) choose j))"
    have pos: "1 \<le> (p - 1) choose i" "1 \<le> (q - 1) choose j" using i by (simp_all add: Suc_le_eq)
    have "p - 1 + (q - 1) \<le> 64" using pq by simp
    from order_trans [OF ln_fact_add ln_fact_le [OF this]] have "a + b \<le> 225" by (simp only: a_def b_def)
    moreover have "0 \<le> a" "0 \<le> b" using ln_fact_nonneg by (simp_all add: a_def b_def)
    moreover have "x + y \<le> 62 * (695 / 1000)"
    proof -
      have "x + y \<le> real (p - 1) * ln 2 + real (q - 1) * ln 2"
        unfolding x_def y_def by (intro add_mono ln_choose_bounds i)
      also have "\<dots> = real (p - 1 + (q - 1)) * ln 2" by (simp add: distrib_right)
      also have "\<dots> \<le> 62 * (695 / 1000)" using pq ln_2_le by (intro mult_mono) simp_all
      finally show ?thesis .
    qed
    moreover have "0 \<le> x" "0 \<le> y" using ln_choose_bounds(1) i by (simp_all add: x_def y_def)
    ultimately have n: "a + b \<le> 225" "0 \<le> a" "0 \<le> b" "x + y \<le> 62 * (695 / 1000)" "0 \<le> x" "0 \<le> y" .
    note A = logComb_close [OF g i(1,2), folded i(5) a_def x_def] and B = logComb_close [OF g i(3,4), folded i(6) b_def y_def]
    have u: "approx (a / 2 ^ 49 + 23 / 2 ^ 50 + (b / 2 ^ 49 + 23 / 2 ^ 50) + 2 ^ 6 / 2 ^ 54) (x + y)
        (f_add (logComb lgamma (int p - 1) (int i)) (logComb lgamma (int q - 1) (int j)))"
      by (rule approx_add [OF A B]) (use n in simp_all)
    have w: "approx (1 / 2 ^ 46 + 1 / 2 ^ 54 + (a / 2 ^ 49 + 23 / 2 ^ 50) + 2 ^ 6 / 2 ^ 54) (ln 2 + x) (f_add (f_lit Ln2) (logComb lgamma (int p - 1) (int i)))"
      by (rule approx_add [OF Ln2_approx A]) (use n ln_2_le in simp_all)
    have z: "approx (1 / 2 ^ 46 + 1 / 2 ^ 54 + (a / 2 ^ 49 + 23 / 2 ^ 50) + 2 ^ 6 / 2 ^ 54 + (b / 2 ^ 49 + 23 / 2 ^ 50) + 2 ^ 6 / 2 ^ 54) (ln 2 + x + y)
        (f_add (f_add (f_lit Ln2) (logComb lgamma (int p - 1) (int i))) (logComb lgamma (int q - 1) (int j)))"
      by (rule approx_add [OF w B]) (use n ln_2_le in simp_all)
    have X: "ln (real (((p - 1) choose i) * ((q - 1) choose j))) = x + y"
      using pos i by (simp add: x_def y_def ln_mult)
    have Z: "ln (real (2 * ((p - 1) choose i) * ((q - 1) choose j))) = ln 2 + x + y"
      using pos i by (simp add: x_def y_def ln_mult)
    show "exp_near mexp (f_add (f_add (f_lit Ln2) (logComb lgamma (int p - 1) (int i))) (logComb lgamma (int q - 1) (int j)))
         (2 * ((p - 1) choose i) * ((q - 1) choose j))"
      by (rule exp_close [OF e z [folded Z]]) (use n pos ln_2_le Z in simp_all)
    show "exp_near mexp (f_add (logComb lgamma (int p - 1) (int i)) (logComb lgamma (int q - 1) (int j)))
         (((p - 1) choose i) * ((q - 1) choose j))"
      by (rule exp_close [OF e u [folded X]]) (use n pos X in simp_all)
  qed
  show ?thesis unfolding runs_accurate_def using t c by blast
qed

subsection \<open>The p-value\<close>

text \<open>C34: The p-value of the runs test is finite, at most 1 and, up to 4600 roundings, never below the exact conditional one:
  the share of the arrangements of the observed positive and negative signs whose number of runs is no more probable than
  the observed number. It is so for any residuals with both signs among at most 64, any order of the map of counts, and
  any \<open>Exp\<close> and \<open>Lgamma\<close> whose results are correct up to \<open>2^-50\<close> (\<open>Exp_accurate\<close>, \<open>Lgamma_accurate\<close>); the errors of the log-binomials, of their
  sums and of the whole summation are those of the code. A track is never taken for inconsistent on rounding
  alone.\<close>

theorem runs_pvalue_not_below_exact:
  assumes "collect_signs (runs_deadband maxAbsModelVal) residuals ([], 0, 0) = (signs, int p, int q)"
    and pq: "0 < p" "0 < q" and n: "length residuals \<le> 64"
    and "Exp_accurate mexp" "Lgamma_accurate lgamma" and "\<And>t. mset (iterate t) = mset t"
  shows "let P = ComputeRunsPValue mexp lgamma iterate residuals maxAbsModelVal
    in f_finite P \<and> f_val P \<le> 1 \<and> exact_pvalue p q (observed_runs signs) \<le> f_val P * fq ^ 4600"
proof -
  have "p + q \<le> 64" using signs_in_range(2) [OF assms(1) pq n] by (simp add: in_range_def)
  from runs_accurate [OF assms(5,6) pq this] show ?thesis by (intro runs_pvalue_given_counts [OF assms(1) pq n]) (simp_all add: assms(7))
qed

subsection \<open>A concrete run\<close>


text \<open>The Taylor polynomial of the exponential at a small argument, raised to a power, and the logarithm found by bisection.\<close>

definition exp_taylor :: "rat \<Rightarrow> rat" where
  "exp_taylor a = (\<Sum>m<24. (a / 256) ^ m / fact m) ^ 256"

fun ln_search :: "rat \<Rightarrow> rat \<Rightarrow> rat \<Rightarrow> nat \<Rightarrow> rat" where
  "ln_search N lo hi 0 = lo"
| "ln_search N lo hi (Suc k) =
    (let m = (lo + hi) / 2 in if exp_taylor m \<le> N then ln_search N m hi k else ln_search N lo m k)"

definition sample_exp :: "float64 \<Rightarrow> float64" where
  "sample_exp a = Fin (exp_taylor (f_val a))"

definition sample_lgamma :: "float64 \<Rightarrow> float64" where
  "sample_lgamma x = Fin (ln_search (fact (nat \<lfloor>f_val x\<rfloor> - 1)) 0 256 70)"

lemma taylor_ratio:
  fixes t :: real
  assumes "\<bar>t\<bar> \<le> 1"
  shows "\<bar>(\<Sum>m<24. t ^ m / fact m) / exp t - 1\<bar> \<le> 1 / 2 ^ 68"
proof -
  obtain s where s: "\<bar>s\<bar> \<le> \<bar>t\<bar>" "exp t = (\<Sum>m<24. t ^ m / fact m) + exp s / fact 24 * t ^ 24"
    using Maclaurin_exp_le [of t 24] by blast
  have "exp s \<le> exp 1" using s(1) assms by simp
  then have e: "exp s \<le> 3" using exp_le by linarith
  have "\<bar>t\<bar> ^ 24 \<le> 1" using assms by (intro power_le_one) simp_all
  then have "\<bar>exp s / fact 24 * t ^ 24\<bar> \<le> 3 / fact 24 * 1"
    unfolding abs_mult power_abs by (intro mult_mono) (use e in \<open>simp_all add: divide_right_mono\<close>)
  then have d: "\<bar>(\<Sum>m<24. t ^ m / fact m) - exp t\<bar> \<le> 3 / fact 24" using s(2) by linarith
  have "exp (- t) \<le> exp 1" using assms by simp
  then have "exp (- t) \<le> 3" using exp_le by linarith
  then have "1 / exp t \<le> 3" by (simp add: exp_minus inverse_eq_divide)
  moreover have "(\<Sum>m<24. t ^ m / fact m) / exp t - 1 = ((\<Sum>m<24. t ^ m / fact m) - exp t) * (1 / exp t)"
    by (simp add: diff_divide_distrib)
  moreover have "\<bar>(\<Sum>m<24. t ^ m / fact m) - exp t\<bar> * (1 / exp t) \<le> 3 / fact 24 * 3"
    by (intro mult_mono d calculation) simp_all
  ultimately have "\<bar>(\<Sum>m<24. t ^ m / fact m) / exp t - 1\<bar> \<le> 3 / fact 24 * 3" by (simp only: abs_mult) simp
  then show ?thesis by (rule order_trans) (simp add: fact_numeral)
qed

lemma of_rat_fact: "real_of_rat (fact n) = fact n"
  by (metis of_nat_fact of_rat_of_nat_eq)

lemma exp_taylor_close:
  assumes "\<bar>real_of_rat a\<bar> \<le> 256"
  shows "\<bar>real_of_rat (exp_taylor a) - exp (real_of_rat a)\<bar> \<le> exp (real_of_rat a) / 2 ^ 59"
proof -
  define t R where "t = real_of_rat a / 256" and "R = (\<Sum>m<24. t ^ m / fact m) / exp t"
  have t: "\<bar>t\<bar> \<le> 1" using assms by (simp add: t_def)
  note r = taylor_ratio [OF t, folded R_def]
  then have r': "- (1 / 2 ^ 68) \<le> R - 1" "R - 1 \<le> 1 / 2 ^ 68" by linarith+
  have "real_of_rat (\<Sum>m<24. (a / 256) ^ m / fact m) = (\<Sum>m<24. t ^ m / fact m)"
    by (simp add: t_def of_rat_sum of_rat_divide of_rat_power of_rat_fact)
  also have "\<dots> = R * exp t" by (simp add: R_def)
  finally have "real_of_rat (exp_taylor a) = R ^ 256 * exp t ^ 256" by (simp add: exp_taylor_def of_rat_power power_mult_distrib)
  also have "exp t ^ 256 = exp (real_of_rat a)" by (simp add: t_def flip: exp_of_nat_mult)
  finally have v: "real_of_rat (exp_taylor a) - exp (real_of_rat a) = (R ^ 256 - 1) * exp (real_of_rat a)" by (simp add: left_diff_distrib)
  have l: "1 - 1 / 2 ^ 60 \<le> R ^ 256"
  proof -
    have "1 + of_nat 256 * (R - 1) \<le> (1 + (R - 1)) ^ 256" by (rule Bernoulli_inequality) (use r'(1) in simp)
    then show ?thesis using r'(1) by simp
  qed
  have u: "R ^ 256 \<le> 1 + 1 / 2 ^ 59"
  proof -
    have "R \<le> 1 + 1 / 2 ^ 68" "0 \<le> R" using r' by simp_all
    then have "R ^ 256 \<le> exp (1 / 2 ^ 68) ^ 256" by (intro power_mono order_trans [OF _ exp_ge_add_one_self])
    also have "\<dots> = exp (1 / 2 ^ 60)" by (simp flip: exp_of_nat_mult)
    also have "\<dots> \<le> 1 + 1 / 2 ^ 60 + (1 / 2 ^ 60)\<^sup>2" by (rule exp_bound) simp_all
    also have "\<dots> \<le> 1 + 1 / 2 ^ 59" by (simp add: power2_eq_square)
    finally show ?thesis .
  qed
  have "\<bar>R ^ 256 - 1\<bar> \<le> 1 / 2 ^ 59" using l u unfolding abs_le_iff by simp
  then have "\<bar>R ^ 256 - 1\<bar> * exp (real_of_rat a) \<le> 1 / 2 ^ 59 * exp (real_of_rat a)" by (rule mult_right_mono) simp
  then show ?thesis unfolding v abs_mult by simp
qed

lemma sample_exp_accurate: "Exp_accurate sample_exp"
  unfolding Exp_accurate_def
proof (intro allI impI)
  fix a assume "f_finite a \<and> \<bar>rv a\<bar> \<le> 64"
  then have "\<bar>real_of_rat (exp_taylor (f_val a)) - exp (rv a)\<bar> \<le> exp (rv a) / 2 ^ 59"
    using exp_taylor_close [of "f_val a"] by (simp add: rv_def)
  also have "\<dots> \<le> exp (rv a) / 2 ^ 50" by (intro divide_left_mono) simp_all
  finally show "approx (exp (rv a) / 2 ^ 50) (exp (rv a)) (sample_exp a)" by (simp add: approx_def sample_exp_def rv_def)
qed

lemma ln_search_brackets:
  assumes "0 \<le> lo" "hi \<le> 256" "exp_taylor lo \<le> N" "N < exp_taylor hi" "0 \<le> w" "hi = lo + w"
  shows "0 \<le> ln_search N lo hi k \<and> ln_search N lo hi k + w / 2 ^ k \<le> 256 \<and>
    exp_taylor (ln_search N lo hi k) \<le> N \<and> N < exp_taylor (ln_search N lo hi k + w / 2 ^ k)"
  using assms
proof (induction k arbitrary: lo hi w)
  case (Suc k)
  have m: "(lo + hi) / 2 = lo + w / 2" "hi = (lo + hi) / 2 + w / 2" "0 \<le> w / 2" "0 \<le> (lo + hi) / 2" "(lo + hi) / 2 \<le> 256"
    using Suc.prems by (simp_all add: field_simps)
  show ?case
  proof (cases "exp_taylor ((lo + hi) / 2) \<le> N")
    case True
    from Suc.IH [OF m(4) Suc.prems(2) True Suc.prems(4) m(3,2)] show ?thesis using True by (simp add: Let_def)
  next
    case False
    then have "N < exp_taylor ((lo + hi) / 2)" by simp
    from Suc.IH [OF Suc.prems(1) m(5) Suc.prems(3) this m(3,1)] show ?thesis using False by (simp add: Let_def)
  qed
qed simp

lemma sample_lgamma_accurate: "Lgamma_accurate sample_lgamma"
  unfolding Lgamma_accurate_def
proof (intro allI impI)
  fix n :: nat assume n: "1 \<le> n \<and> n \<le> 64"
  define x where "x = ln_search (fact n) 0 256 70"
  define r h F where "r = real_of_rat x" and "h = real_of_rat (x + 256 / 2 ^ 70)" and "F = (fact n :: real)"
  have F: "0 < F" "ln F \<le> 225" "0 \<le> ln F" using ln_fact_le ln_fact_nonneg n by (simp_all add: F_def)
  have "(\<Sum>m<Suc 23. (0 / 256) ^ m / fact m) = (1 :: rat)" by (subst sum.lessThan_Suc_shift) simp
  then have z: "exp_taylor 0 \<le> fact n" by (simp add: exp_taylor_def fact_ge_1)
  have "F = exp (ln F)" using F(1) by simp
  also have "\<dots> \<le> exp 225" using F(2) by simp
  finally have "F \<le> exp 225" .
  moreover have "exp 225 * (1 + 31) \<le> exp 225 * exp (31 :: real)" by (intro mult_left_mono exp_ge_add_one_self) simp
  then have "exp 225 * 32 \<le> exp (256 :: real)" by (simp flip: exp_add)
  moreover have "\<bar>real_of_rat (exp_taylor 256) - exp 256\<bar> \<le> exp 256 / 2 ^ 59" using exp_taylor_close [of 256] by simp
  then have "exp 256 / 2 \<le> real_of_rat (exp_taylor 256)" unfolding abs_le_iff by simp
  moreover have "0 < exp (225 :: real)" by simp
  ultimately have "F < real_of_rat (exp_taylor 256)" by linarith
  then have "fact n < exp_taylor 256" unfolding F_def of_rat_fact [symmetric] by (simp only: of_rat_less)
  from ln_search_brackets [OF _ _ z this, of 256 70, folded x_def]
  have b: "0 \<le> x" "x + 256 / 2 ^ 70 \<le> 256" "exp_taylor x \<le> fact n" "fact n < exp_taylor (x + 256 / 2 ^ 70)" by simp_all
  have r: "0 \<le> r" "h = r + 256 / 2 ^ 70" "h \<le> 256"
    using of_rat_less_eq [where 'a = real, THEN iffD2, OF b(1)] of_rat_less_eq [where 'a = real, THEN iffD2, OF b(2)]
    by (simp_all add: r_def h_def of_rat_add of_rat_divide of_rat_power)
  have t: "real_of_rat (exp_taylor x) \<le> F" "F \<le> real_of_rat (exp_taylor (x + 256 / 2 ^ 70))"
    using b(3,4) unfolding F_def of_rat_fact [symmetric] by (simp_all add: of_rat_less_eq del: of_rat_add)
  have "r \<le> ln F + 1 / 2 ^ 58"
  proof -
    have "\<bar>real_of_rat (exp_taylor x) - exp r\<bar> \<le> exp r / 2 ^ 59" using exp_taylor_close [of x] r by (simp add: r_def)
    then have "exp r - exp r / 2 ^ 59 \<le> F" using t(1) by linarith
    then have "exp r * (1 - 1 / 2 ^ 59) \<le> exp (ln F)" using F(1) by (simp add: right_diff_distrib)
    then have "exp r * (1 - 1 / 2 ^ 59) * (1 + 1 / 2 ^ 58) \<le> exp (ln F) * (1 + 1 / 2 ^ 58)" by (rule mult_right_mono) simp
    moreover have "exp r * 1 \<le> exp r * ((1 - 1 / 2 ^ 59) * (1 + 1 / 2 ^ 58))" by (rule mult_left_mono) simp_all
    moreover have "exp (ln F) * (1 + 1 / 2 ^ 58) \<le> exp (ln F) * exp (1 / 2 ^ 58)" by (intro mult_left_mono exp_ge_add_one_self) simp
    ultimately have "exp r \<le> exp (ln F + 1 / 2 ^ 58)" unfolding exp_add by (simp only: mult_1_right mult.assoc)
    then show ?thesis by (simp only: exp_le_cancel_iff)
  qed
  moreover have "ln F \<le> h + 1 / 2 ^ 59"
  proof -
    have "\<bar>real_of_rat (exp_taylor (x + 256 / 2 ^ 70)) - exp h\<bar> \<le> exp h / 2 ^ 59"
      using exp_taylor_close [of "x + 256 / 2 ^ 70"] r unfolding h_def [symmetric] by simp
    then have "F \<le> exp h + exp h / 2 ^ 59" using t(2) by linarith
    then have "exp (ln F) \<le> exp h * (1 + 1 / 2 ^ 59)" using F(1) by (simp add: distrib_left)
    also have "\<dots> \<le> exp h * exp (1 / 2 ^ 59)" by (intro mult_left_mono exp_ge_add_one_self) simp
    finally show ?thesis by (simp only: exp_le_cancel_iff flip: exp_add)
  qed
  ultimately have "\<bar>r - ln F\<bar> \<le> 1 / 2 ^ 50" unfolding r(2) abs_le_iff by simp
  also have "\<dots> \<le> (ln F + 1) / 2 ^ 50" using F(3) by (intro divide_right_mono) simp_all
  finally have "\<bar>r - ln F\<bar> \<le> (ln F + 1) / 2 ^ 50" .
  moreover have "sample_lgamma (Fin (of_nat (n + 1))) = Fin x" by (simp add: sample_lgamma_def x_def nat_add_distrib)
  ultimately show "approx ((ln (fact n) + 1) / 2 ^ 50) (ln (fact n)) (sample_lgamma (Fin (of_nat (n + 1))))"
    by (simp add: approx_def rv_def r_def F_def)
qed

definition sample_residuals :: "float64 list" where
  "sample_residuals = [Fin (1 / 64), Fin (- 1 / 64), Fin (1 / 64)]"

lemma sample_signs: "collect_signs (runs_deadband (Fin 0)) sample_residuals ([], 0, 0) = ([1, - 1, 1], int 2, int 1)"
proof -
  have q: "0 < f_val EstimateQuantumSec" using less_le_trans [OF powi_2_pos quantum_val(2)] .
  have "\<bar>8 * MachineEpsilon\<bar> \<le> 2 powi 1023" using powi_2_mono [of 0 1023] by (simp add: MachineEpsilon_def)
  from f_lit_val(1) [OF this] have l: "f_finite (f_lit (8 * MachineEpsilon))" .
  have "f_finite (f_mul (f_lit (8 * MachineEpsilon)) (Fin 0)) \<and> f_val (f_mul (f_lit (8 * MachineEpsilon)) (Fin 0)) = rnd 0"
    using f_mul_val [OF l, of "Fin 0"] powi_2_pos [of 1023] by (simp del: powi_2_pos)
  then have "runs_deadband (Fin 0) = EstimateQuantumSec"
    using f_less_val [OF _ quantum_val(1)] q by (simp add: runs_deadband_def Let_def)
  then show ?thesis using quantum_val q f_less_val [OF quantum_val(1)] f_less_val [of _ "f_uminus EstimateQuantumSec"]
    by (simp add: sample_residuals_def float_val)
qed

theorem runs_pvalue_not_below_exact_witness:
  "exact_pvalue 2 1 3 \<le> f_val (ComputeRunsPValue sample_exp sample_lgamma rev sample_residuals (Fin 0)) * fq ^ 4600"
proof -
  have "observed_runs [1, - 1, 1] = 3" by (simp add: observed_runs_def)
  then show ?thesis
    using runs_pvalue_not_below_exact [OF sample_signs _ _ _ sample_exp_accurate sample_lgamma_accurate, of rev]
    by (simp add: Let_def sample_residuals_def)
qed

end
