(* ===== verification/Track.thy ===== *)
theory Track
  imports RunsAccuracy
begin

text \<open>
  The estimate track of package source (\<open>source/estimate.go\<close>): the bounded history of samples, the weighted regression of
  \<open>fitSamples\<close> operation by operation in float64, and the pruning loop of \<open>Fit\<close>. The runs test is in theory Runs.
  \<open>sort.Float64s\<close> is an insertion sort in its order, NaN first; values that compare equal differ at most in the sign of
  zero, which no result depends on.
\<close>

subsection \<open>Samples\<close>

record EstimateSample =
  es_RawMid :: RawNanos
  es_PhaseErrorSlowPositive :: float64
  es_RoundTripDelay :: float64
  es_RootDelay :: float64
  es_RootDispersion :: float64

record RegressionResult =
  rr_PhaseEstimate :: float64
  rr_RateErrorEstimate :: float64
  rr_PhaseStandardError :: float64
  rr_RateStandardError :: float64
  rr_ResidualStandardDeviation :: float64
  rr_ResidualRunsPValue :: float64
  rr_SampleCount :: nat

datatype fit_error = ErrNotEnoughSamples | ErrSingularDesignMatrix

type_synonym EstimateTrack = "EstimateSample list"

definition MaxSamplesPerSource :: nat where "MaxSamplesPerSource = 64"
definition MinRegressionSamples :: nat where "MinRegressionSamples = 3"
definition DefaultRunsAlpha :: float64 where "DefaultRunsAlpha = f_lit (5 / 100)"

definition NewEstimateTrack :: EstimateTrack where
  "NewEstimateTrack = []"

definition AddSample :: "EstimateTrack \<Rightarrow> EstimateSample \<Rightarrow> EstimateTrack" where
  "AddSample samples s =
    (if 0 < length samples \<and> es_RawMid s \<le> es_RawMid (samples ! (length samples - 1)) then samples
     else let samples' = samples @ [s]
          in if MaxSamplesPerSource < length samples' then drop (length samples' - MaxSamplesPerSource) samples' else samples')"

subsection \<open>The weighted regression\<close>

text \<open>\<open>sort.Float64s\<close>: ascending, NaN first.\<close>

definition f_before :: "float64 \<Rightarrow> float64 \<Rightarrow> bool" where
  "f_before a b \<longleftrightarrow> f_less a b \<or> a = NaN \<and> b \<noteq> NaN"

fun f_insert :: "float64 \<Rightarrow> float64 list \<Rightarrow> float64 list" where
  "f_insert a [] = [a]"
| "f_insert a (b # bs) = (if f_before b a then b # f_insert a bs else a # b # bs)"

definition f_sort :: "float64 list \<Rightarrow> float64 list" where
  "f_sort as = foldr f_insert as []"

definition sample_distance :: "EstimateSample \<Rightarrow> float64" where
  "sample_distance s =
    f_add (f_add (es_RootDispersion s) (f_div (es_RootDelay s) (Fin 2))) (f_div (es_RoundTripDelay s) (Fin 2))"

text \<open>The weight of one distance.\<close>

definition weight_of :: "float64 \<Rightarrow> float64 \<Rightarrow> float64 \<Rightarrow> float64" where
  "weight_of m scale di =
    (let diff0 = f_sub di m;
         diff = (if f_less diff0 (Fin 0) then Fin 0 else diff0);
         dv = f_add (Fin 1) (f_div diff scale)
     in f_div (Fin 1) (f_mul dv dv))"

definition sample_weights :: "EstimateSample list \<Rightarrow> float64 list" where
  "sample_weights samples =
    (let d = map sample_distance samples; dSorted = f_sort d;
         m = dSorted ! 0; q = dSorted ! (length samples div 2);
         scale0 = f_div (f_sub q m) (f_lit (7 / 10));
         scale = (if f_less scale0 EstimateQuantumSec then EstimateQuantumSec else scale0)
     in map (weight_of m scale) d)"

record RegressionSums =
  sumW :: float64
  sumWX :: float64
  sumWY :: float64
  sumWXX :: float64
  sumWXY :: float64

definition regression_sums :: "(float64 \<times> float64 \<times> float64) list \<Rightarrow> RegressionSums" where
  "regression_sums = foldl (\<lambda>s (w, x, y).
     \<lparr> sumW = f_add (sumW s) w,
       sumWX = f_add (sumWX s) (f_mul w x),
       sumWY = f_add (sumWY s) (f_mul w y),
       sumWXX = f_add (sumWXX s) (f_mul (f_mul w x) x),
       sumWXY = f_add (sumWXY s) (f_mul (f_mul w x) y) \<rparr>)
     \<lparr> sumW = Fin 0, sumWX = Fin 0, sumWY = Fin 0, sumWXX = Fin 0, sumWXY = Fin 0 \<rparr>"

fun residual_loop :: "float64 \<Rightarrow> float64 \<Rightarrow> (float64 \<times> float64 \<times> float64) list \<Rightarrow> float64 list \<times> float64 \<times> float64
    \<Rightarrow> float64 list \<times> float64 \<times> float64" where
  "residual_loop intercept slope [] acc = acc"
| "residual_loop intercept slope ((w, x, y) # pts) (residuals, sumWRes2, maxAbsModel) =
    (let fitted = f_add intercept (f_mul slope x); res = f_sub y fitted
     in residual_loop intercept slope pts
          (residuals @ [res], f_add sumWRes2 (f_mul (f_mul w res) res),
           if f_less maxAbsModel (f_Abs fitted) then f_Abs fitted else maxAbsModel))"

definition sample_points :: "EstimateSample list \<Rightarrow> (float64 \<times> float64 \<times> float64) list" where
  "sample_points samples =
    (let newestRaw = es_RawMid (samples ! (length samples - 1))
     in zip (sample_weights samples)
          (map (\<lambda>s. (f_div (f_of_i64 (es_RawMid s - newestRaw)) (Fin (10 ^ 9)), es_PhaseErrorSlowPositive s)) samples))"

definition fitSamples ::
  "(float64 \<Rightarrow> float64) \<Rightarrow> (float64 \<Rightarrow> float64) \<Rightarrow> iteration \<Rightarrow> EstimateSample list \<Rightarrow> fit_error + RegressionResult" where
  "fitSamples mexp lgamma iterate samples =
    (let n = length samples
     in if n < MinRegressionSamples then Inl ErrNotEnoughSamples
        else let pts = sample_points samples; s = regression_sums pts;
                 delta = f_sub (f_mul (sumW s) (sumWXX s)) (f_mul (sumWX s) (sumWX s))
             in if f_less (f_Abs delta) (f_lit (1 / 10 ^ 18)) then Inl ErrSingularDesignMatrix
                else let intercept = f_div (f_sub (f_mul (sumWXX s) (sumWY s)) (f_mul (sumWX s) (sumWXY s))) delta;
                         slope = f_div (f_sub (f_mul (sumW s) (sumWXY s)) (f_mul (sumWX s) (sumWY s))) delta;
                         (residuals, sumWRes2, maxAbsModel) = residual_loop intercept slope pts ([], Fin 0, Fin 0);
                         dof = f_of_int (int n - 2);
                         resStd = f_Sqrt (f_div sumWRes2 (f_mul (sumW s) (f_div dof (f_of_int (int n)))))
                     in Inr \<lparr> rr_PhaseEstimate = intercept, rr_RateErrorEstimate = slope,
                              rr_PhaseStandardError = f_mul (f_Sqrt (f_div (sumWXX s) delta)) resStd,
                              rr_RateStandardError = f_mul (f_Sqrt (f_div (sumW s) delta)) resStd,
                              rr_ResidualStandardDeviation = resStd,
                              rr_ResidualRunsPValue = ComputeRunsPValue mexp lgamma iterate residuals maxAbsModel,
                              rr_SampleCount = n \<rparr>)"

text \<open>The pruning loop; \<open>iterate k\<close> is the order of the map in the \<open>k\<close>-th fit.\<close>

fun fit_loop :: "(float64 \<Rightarrow> float64) \<Rightarrow> (float64 \<Rightarrow> float64) \<Rightarrow> (nat \<Rightarrow> iteration) \<Rightarrow> nat \<Rightarrow> EstimateSample list
    \<Rightarrow> fit_error + RegressionResult" where
  "fit_loop mexp lgamma iterate k currentSamples =
    (if MinRegressionSamples \<le> length currentSamples
     then case fitSamples mexp lgamma (iterate k) currentSamples of
            Inl err \<Rightarrow> Inl err
          | Inr res \<Rightarrow>
              if f_leq DefaultRunsAlpha (rr_ResidualRunsPValue res) \<or> length currentSamples = MinRegressionSamples
              then Inr res
              else fit_loop mexp lgamma iterate (Suc k) (drop 1 currentSamples)
     else fitSamples mexp lgamma (iterate k) currentSamples)"

declare fit_loop.simps [simp del]

definition Fit :: "(float64 \<Rightarrow> float64) \<Rightarrow> (float64 \<Rightarrow> float64) \<Rightarrow> (nat \<Rightarrow> iteration) \<Rightarrow> EstimateTrack
    \<Rightarrow> fit_error + RegressionResult" where
  "Fit mexp lgamma iterate samples =
    (if length samples < MinRegressionSamples then Inl ErrNotEnoughSamples
     else fit_loop mexp lgamma iterate 0 samples)"

subsection \<open>The samples kept\<close>

text \<open>The samples whose stamp exceeds every earlier one.\<close>

definition record_samples :: "EstimateSample list \<Rightarrow> EstimateSample list" where
  "record_samples xs =
    map ((!) xs) (filter (\<lambda>i. \<forall>j<i. es_RawMid (xs ! j) < es_RawMid (xs ! i)) [0..<length xs])"

lemma record_samples_snoc:
  "record_samples (xs @ [s]) = record_samples xs @ (if \<forall>x\<in>set xs. es_RawMid x < es_RawMid s then [s] else [])"
proof -
  have "map ((!) (xs @ [s])) (filter (\<lambda>i. \<forall>j<i. es_RawMid ((xs @ [s]) ! j) < es_RawMid ((xs @ [s]) ! i)) [0..<length xs]) =
    map ((!) xs) (filter (\<lambda>i. \<forall>j<i. es_RawMid (xs ! j) < es_RawMid (xs ! i)) [0..<length xs])"
    by (intro map_cong filter_cong) (auto simp: nth_append)
  moreover have "(\<forall>j<length xs. es_RawMid ((xs @ [s]) ! j) < es_RawMid s) \<longleftrightarrow> (\<forall>x\<in>set xs. es_RawMid x < es_RawMid s)"
    by (auto simp: nth_append in_set_conv_nth intro: nth_mem)
  ultimately show ?thesis by (simp add: record_samples_def)
qed

lemma record_samples_last:
  "(record_samples xs = [] \<longleftrightarrow> xs = []) \<and> (xs \<noteq> [] \<longrightarrow> (\<forall>x\<in>set xs. es_RawMid x \<le> es_RawMid (last (record_samples xs))))"
proof (induction xs rule: rev_induct)
  case (snoc s xs)
  show ?case
  proof (cases "\<forall>x\<in>set xs. es_RawMid x < es_RawMid s")
    case True
    then show ?thesis by (auto simp: record_samples_snoc less_imp_le)
  next
    case False
    then obtain x where "x \<in> set xs" "es_RawMid s \<le> es_RawMid x" by (auto simp: not_less)
    moreover from this have "es_RawMid x \<le> es_RawMid (last (record_samples xs))" "xs \<noteq> []" using snoc by auto
    ultimately show ?thesis using snoc False by (auto simp: record_samples_snoc)
  qed
qed (simp add: record_samples_def)

lemma record_samples_sorted: "sorted_wrt (\<lambda>a b. es_RawMid a < es_RawMid b) (record_samples xs)"
proof (induction xs rule: rev_induct)
  case (snoc s xs)
  have "set (record_samples xs) \<subseteq> set xs" by (auto simp: record_samples_def)
  then show ?case using snoc by (auto simp: record_samples_snoc sorted_wrt_append)
qed (simp add: record_samples_def)

lemma last_drop_nonempty: "k < length xs \<Longrightarrow> last (drop k xs) = last xs"
  by simp

lemma AddSample_step:
  "AddSample (drop (length (record_samples xs) - MaxSamplesPerSource) (record_samples xs)) s =
    drop (length (record_samples (xs @ [s])) - MaxSamplesPerSource) (record_samples (xs @ [s]))"
proof -
  define R where "R = record_samples xs"
  define D where "D = drop (length R - MaxSamplesPerSource) R"
  have D: "D = [] \<longleftrightarrow> xs = []" "D \<noteq> [] \<Longrightarrow> last D = last R"
    using record_samples_last [of xs] by (auto simp: D_def R_def MaxSamplesPerSource_def simp flip: length_greater_0_conv)
  have c: "D \<noteq> [] \<and> es_RawMid s \<le> es_RawMid (last D) \<longleftrightarrow> \<not> (\<forall>x\<in>set xs. es_RawMid x < es_RawMid s)"
  proof (cases "xs = []")
    case False
    then have "R \<noteq> []" using record_samples_last [of xs] by (simp add: R_def)
    then have "last R \<in> set xs" using last_in_set [of R] by (auto simp: R_def record_samples_def)
    then show ?thesis using D False record_samples_last [of xs] unfolding R_def [symmetric] by (fastforce simp: not_less)
  qed (use D in simp)
  show ?thesis
  proof (cases "\<forall>x\<in>set xs. es_RawMid x < es_RawMid s")
    case False
    then have "D \<noteq> []" "es_RawMid s \<le> es_RawMid (last D)" using c by blast+
    then have "AddSample D s = D" by (simp add: AddSample_def last_conv_nth)
    then show ?thesis by (simp only: record_samples_snoc if_not_P [OF False] append_Nil2 R_def [symmetric] D_def [symmetric])
  next
    case True
    then have "AddSample D s = drop (length (D @ [s]) - MaxSamplesPerSource) (D @ [s])"
      using c by (auto simp: AddSample_def Let_def last_conv_nth MaxSamplesPerSource_def)
    also have "\<dots> = drop (length (R @ [s]) - MaxSamplesPerSource) (R @ [s])"
      by (auto simp: D_def MaxSamplesPerSource_def intro!: arg_cong [where f = "\<lambda>n. drop n R"])
    finally show ?thesis using True by (simp add: record_samples_snoc R_def [symmetric] D_def [symmetric])
  qed
qed

text \<open>C36: Feeding any samples to a new track leaves the last 64 of those whose raw stamp exceeded every earlier one, in
  strictly ascending order of their stamps: late and duplicate samples are ignored, and the oldest ones make room.\<close>

theorem track_keeps_newest_records:
  "let t = foldl AddSample NewEstimateTrack xs
   in t = drop (length (record_samples xs) - MaxSamplesPerSource) (record_samples xs) \<and>
      length t \<le> MaxSamplesPerSource \<and> sorted_wrt (\<lambda>a b. es_RawMid a < es_RawMid b) t"
proof -
  have "foldl AddSample NewEstimateTrack xs = drop (length (record_samples xs) - MaxSamplesPerSource) (record_samples xs)"
  proof (induction xs rule: rev_induct)
    case Nil
    show ?case by (simp add: NewEstimateTrack_def record_samples_def)
  next
    case (snoc s xs)
    then show ?case by (simp add: AddSample_step)
  qed
  then show ?thesis using record_samples_sorted [of xs] by (simp add: sorted_wrt_drop MaxSamplesPerSource_def)
qed

subsection \<open>Pruning\<close>

lemma fitSamples_cases:
  "fitSamples mexp lgamma iterate ss = Inl err \<Longrightarrow> err = (if length ss < 3 then ErrNotEnoughSamples else ErrSingularDesignMatrix)"
  "fitSamples mexp lgamma iterate ss = Inr res \<Longrightarrow> 3 \<le> length ss \<and> rr_SampleCount res = length ss"
  by (auto simp: fitSamples_def Let_def MinRegressionSamples_def split: if_splits prod.splits)

text \<open>The fit of these samples makes the loop drop the oldest one.\<close>

definition fit_rejected ::
  "(float64 \<Rightarrow> float64) \<Rightarrow> (float64 \<Rightarrow> float64) \<Rightarrow> iteration \<Rightarrow> EstimateSample list \<Rightarrow> bool" where
  "fit_rejected mexp lgamma it ss =
    (case fitSamples mexp lgamma it ss of Inl _ \<Rightarrow> False | Inr res \<Rightarrow> \<not> f_leq DefaultRunsAlpha (rr_ResidualRunsPValue res))"

definition fit_final ::
  "(float64 \<Rightarrow> float64) \<Rightarrow> (float64 \<Rightarrow> float64) \<Rightarrow> iteration \<Rightarrow> EstimateSample list \<Rightarrow> bool" where
  "fit_final mexp lgamma it ss = (length ss = 3 \<or> \<not> fit_rejected mexp lgamma it ss)"

lemma fit_loop_step:
  assumes "3 \<le> length ss"
  shows "fit_loop mexp lgamma iterate k ss =
    (if fit_final mexp lgamma (iterate k) ss then fitSamples mexp lgamma (iterate k) ss
     else fit_loop mexp lgamma iterate (Suc k) (drop 1 ss))"
  using assms by (subst fit_loop.simps) (auto simp: MinRegressionSamples_def fit_final_def fit_rejected_def split: sum.splits)

lemma fit_loop_spec:
  assumes "3 \<le> length ss"
  shows "\<exists>j. j + 3 \<le> length ss \<and> fit_loop mexp lgamma iterate k ss = fitSamples mexp lgamma (iterate (k + j)) (drop j ss) \<and>
    (\<forall>i<j. fit_rejected mexp lgamma (iterate (k + i)) (drop i ss)) \<and> fit_final mexp lgamma (iterate (k + j)) (drop j ss)"
  using assms
proof (induction "length ss" arbitrary: k ss)
  case (Suc n)
  show ?case
  proof (cases "fit_final mexp lgamma (iterate k) ss")
    case True
    then show ?thesis using Suc(3) by (intro exI [of _ 0]) (simp add: fit_loop_step)
  next
    case False
    then have l: "4 \<le> length ss" "fit_rejected mexp lgamma (iterate k) ss" using Suc(3) by (auto simp: fit_final_def)
    have "n = length (drop 1 ss)" "3 \<le> length (drop 1 ss)" using Suc(2) l by simp_all
    from Suc(1) [OF this, of "Suc k"] obtain j where j: "j + 3 \<le> length (drop 1 ss)"
      "fit_loop mexp lgamma iterate (Suc k) (drop 1 ss) = fitSamples mexp lgamma (iterate (k + Suc j)) (drop (Suc j) ss)"
      "\<forall>i<j. fit_rejected mexp lgamma (iterate (k + Suc i)) (drop (Suc i) ss)"
      "fit_final mexp lgamma (iterate (k + Suc j)) (drop (Suc j) ss)" by auto
    have "fit_rejected mexp lgamma (iterate (k + i)) (drop i ss)" if "i < Suc j" for i using j(3) l(2) that by (cases i) simp_all
    then show ?thesis using j l False Suc(3) by (intro exI [of _ "Suc j"]) (simp add: fit_loop_step)
  qed
qed simp

text \<open>C35: A fit of at least three samples drops the oldest sample as long as the runs test rejects the residuals, and never
  below three: the result is the fit of the longest final part of the track that is not rejected, or of the last three
  samples. Its only error is a singular design matrix, and a result counts the samples it used.\<close>

theorem Fit_drops_oldest_until_accepted:
  assumes "3 \<le> length samples"
  shows "\<exists>j. j + 3 \<le> length samples \<and> Fit mexp lgamma iterate samples = fitSamples mexp lgamma (iterate j) (drop j samples) \<and>
    (\<forall>i<j. fit_rejected mexp lgamma (iterate i) (drop i samples)) \<and> fit_final mexp lgamma (iterate j) (drop j samples) \<and>
    (case Fit mexp lgamma iterate samples of
       Inl err \<Rightarrow> err = ErrSingularDesignMatrix
     | Inr res \<Rightarrow> rr_SampleCount res = length samples - j)"
proof -
  obtain j where j: "j + 3 \<le> length samples" "fit_loop mexp lgamma iterate 0 samples = fitSamples mexp lgamma (iterate j) (drop j samples)"
    "\<forall>i<j. fit_rejected mexp lgamma (iterate i) (drop i samples)" "fit_final mexp lgamma (iterate j) (drop j samples)"
    using fit_loop_spec [OF assms, of mexp lgamma iterate 0] by auto
  have f: "Fit mexp lgamma iterate samples = fitSamples mexp lgamma (iterate j) (drop j samples)"
    using assms j(2) by (simp add: Fit_def MinRegressionSamples_def)
  have "case fitSamples mexp lgamma (iterate j) (drop j samples) of
      Inl err \<Rightarrow> err = ErrSingularDesignMatrix | Inr res \<Rightarrow> rr_SampleCount res = length samples - j"
    using fitSamples_cases [of mexp lgamma "iterate j" "drop j samples"] j(1) by (auto split: sum.splits)
  then show ?thesis using j f by auto
qed

lemma Fit_few_samples: "length samples < 3 \<Longrightarrow> Fit mexp lgamma iterate samples = Inl ErrNotEnoughSamples"
  by (simp add: Fit_def MinRegressionSamples_def)

subsection \<open>Weights\<close>

lemma f_insert_mset: "mset (f_insert a bs) = add_mset a (mset bs)"
  by (induction bs) simp_all

lemma f_sort_mset: "mset (f_sort as) = mset as"
  by (induction as) (simp_all add: f_sort_def f_insert_mset)

lemma f_before_val: "f_finite a \<Longrightarrow> f_finite b \<Longrightarrow> f_before a b \<longleftrightarrow> f_val a < f_val b"
  by (auto simp: f_before_def f_less_val)

lemma f_insert_sorted:
  assumes "sorted (map f_val bs)" "f_finite a" "list_all f_finite bs"
  shows "sorted (map f_val (f_insert a bs))"
  using assms
proof (induction bs)
  case (Cons b bs)
  have "set (f_insert a bs) = insert a (set bs)" by (metis f_insert_mset set_mset_mset set_mset_add_mset_insert)
  then show ?case using Cons by (auto simp: f_before_val not_less)
qed simp

lemma f_sort_sorted: "list_all f_finite as \<Longrightarrow> sorted (map f_val (f_sort as)) \<and> list_all f_finite (f_sort as)"
proof (induction as)
  case (Cons a as)
  have "list_all f_finite (f_insert a (f_sort as))"
    using Cons f_insert_mset [of a "f_sort as", THEN arg_cong, of set_mset] by (simp add: list_all_iff)
  then show ?case using Cons f_insert_sorted [of "f_sort as" a] by (simp add: f_sort_def)
qed (simp add: f_sort_def)

lemma f_sort_bounds:
  assumes "list_all f_finite as" "i < length as"
  shows "f_sort as ! i \<in> set as" "\<And>a. a \<in> set as \<Longrightarrow> f_val (f_sort as ! 0) \<le> f_val a"
proof -
  have l: "length (f_sort as) = length as" "set (f_sort as) = set as"
    using f_sort_mset [of as] by (metis size_mset) (metis f_sort_mset set_mset_mset)
  show "f_sort as ! i \<in> set as" using assms(2) l by (metis nth_mem)
  fix a assume "a \<in> set as"
  then obtain j where j: "j < length (f_sort as)" "a = f_sort as ! j" using l by (metis in_set_conv_nth)
  have "sorted (map f_val (f_sort as))" using f_sort_sorted [OF assms(1)] by simp
  then have "map f_val (f_sort as) ! 0 \<le> map f_val (f_sort as) ! j" using j(1) by (intro sorted_nth_mono) simp_all
  moreover have "0 < length (f_sort as)" using j(1) by (rule le_less_trans [OF le0])
  ultimately show "f_val (f_sort as ! 0) \<le> f_val a" using j by simp
qed

lemma seven_tenths: "f_finite (f_lit (7 / 10))" "1 / 2 \<le> f_val (f_lit (7 / 10))"
proof -
  have "\<bar>7 / 10 :: rat\<bar> \<le> 2 powi 1023" using powi_2_mono [of 0 1023] by simp
  note v = f_lit_val [OF this]
  show "f_finite (f_lit (7 / 10))" by (rule v(1))
  have "2 powi (- 1) \<le> rnd (7 / 10)" by (rule rnd_ge_powi) (simp_all add: power_int_def)
  then show "1 / 2 \<le> f_val (f_lit (7 / 10))" unfolding v(2) by (simp add: power_int_def)
qed

lemma weight_of_unit:
  assumes d: "f_within 400 di" and m: "f_within 400 m" "f_val m \<le> f_val di"
    and s: "f_finite scale" "2 powi (- 30) \<le> f_val scale"
  shows "f_finite (weight_of m scale di) \<and> 0 < f_val (weight_of m scale di) \<and> f_val (weight_of m scale di) \<le> 1 \<and>
    (f_val di = f_val m \<longrightarrow> f_val (weight_of m scale di) = 1)"
proof -
  define diff0 where "diff0 = f_sub di m"
  have w: "f_within 401 diff0" "f_val diff0 = rnd (f_val di - f_val m)"
    using f_within_add [of 400 di "f_uminus m"] d m by (simp_all add: diff0_def f_sub_def float_val)
  have n: "0 \<le> f_val diff0" unfolding w(2) using m(2) by (intro rnd_nonneg) simp
  have diff: "(if f_less diff0 (Fin 0) then Fin 0 else diff0) = diff0" using w(1) n by (simp add: f_less_val f_within_def)
  have sp: "0 < f_val scale" using less_le_trans [OF powi_2_pos s(2)] .
  have "f_val diff0 / f_val scale \<le> 2 powi 401 / 2 powi (- 30)" using w(1) n s(2) by (intro frac_le) (simp_all add: f_within_def)
  also have "\<dots> = 2 powi 431" using powi_2_add [of 431 "- 30"] by (simp only: divide_eq_eq) simp
  finally have qb: "f_val diff0 / f_val scale \<le> 2 powi 431" .
  have q0: "0 \<le> f_val diff0 / f_val scale" using n sp by simp
  have "f_finite (f_div diff0 scale) \<and> f_val (f_div diff0 scale) = rnd (f_val diff0 / f_val scale)"
    by (rule f_div_val) (use w s sp q0 order_trans [OF qb powi_2_mono [of 431 1023]] in \<open>simp_all add: f_within_def\<close>)
  moreover have "\<bar>rnd (f_val diff0 / f_val scale)\<bar> \<le> 2 powi 431" by (rule rnd_large_bound) (use q0 qb in simp_all)
  ultimately have q: "f_within 431 (f_div diff0 scale)" "0 \<le> f_val (f_div diff0 scale)"
    "f_val (f_div diff0 scale) = rnd (f_val diff0 / f_val scale)"
    using rnd_nonneg [OF q0] by (simp_all add: f_within_def)
  define dv where "dv = f_add (Fin 1) (f_div diff0 scale)"
  have one: "f_within 431 (Fin 1)" using powi_2_mono [of 0 431] by (simp add: f_within_def)
  have dv: "f_within 432 dv" "f_val dv = rnd (1 + f_val (f_div diff0 scale))"
    using f_within_add [OF one q(1)] by (simp_all add: dv_def)
  have dv1: "1 \<le> f_val dv" unfolding dv(2) using rnd_mono [of 1 "1 + f_val (f_div diff0 scale)"] rnd_of_int [of 1] q(2) by simp
  define sq where "sq = f_mul dv dv"
  have sq: "f_within 864 sq" "f_val sq = rnd (f_val dv * f_val dv)" using f_within_mul [OF dv(1) dv(1)] by (simp_all add: sq_def)
  have "1 \<le> f_val dv * f_val dv" using mult_mono [of 1 "f_val dv" 1 "f_val dv"] dv1 by simp
  then have sq1: "1 \<le> f_val sq" unfolding sq(2) using rnd_mono [of 1 "f_val dv * f_val dv"] rnd_of_int [of 1] by simp
  have inv: "1 / f_val sq \<le> 1" "0 < 1 / f_val sq" using sq1 by simp_all
  have lo: "2 powi (- 864) \<le> 1 / f_val sq"
  proof -
    have "1 / 2 powi 864 \<le> 1 / f_val sq" using sq(1) sq1 by (intro divide_left_mono) (simp_all add: f_within_def)
    then show ?thesis by (simp add: power_int_def power_one_over)
  qed
  have W: "weight_of m scale di = f_div (Fin 1) sq" by (simp add: weight_of_def Let_def diff0_def [symmetric] diff dv_def [symmetric] sq_def [symmetric])
  have "f_finite (f_div (Fin 1) sq) \<and> f_val (f_div (Fin 1) sq) = rnd (f_val (Fin 1) / f_val sq)"
  proof (rule f_div_val)
    have "\<bar>f_val (Fin 1) / f_val sq\<bar> \<le> 1" using inv by simp
    also have "\<dots> \<le> 2 powi 1023" using powi_2_mono [of 0 1023] by simp
    finally show "\<bar>f_val (Fin 1) / f_val sq\<bar> \<le> 2 powi 1023" .
  qed (use sq(1) sq1 in \<open>simp_all add: f_within_def\<close>)
  then have v: "f_finite (weight_of m scale di)" "f_val (weight_of m scale di) = rnd (1 / f_val sq)" by (simp_all add: W)
  have "2 powi (- 864) \<le> rnd (1 / f_val sq)" by (rule rnd_ge_powi [OF lo]) simp
  then have "0 < rnd (1 / f_val sq)" using less_le_trans [OF powi_2_pos] by blast
  moreover have "rnd (1 / f_val sq) \<le> 1" using rnd_mono [OF inv(1)] rnd_of_int [of 1] by simp
  moreover have "rnd (1 / f_val sq) = 1" if "f_val di = f_val m"
    using that rnd_of_int [of 1] by (simp add: sq(2) dv(2) q(3) w(2))
  ultimately show ?thesis using v by simp
qed

text \<open>While the distances stay within \<open>2^400\<close> seconds, every weight of the regression is a finite number above 0 and at
  most 1, and a sample of the least distance weighs exactly 1.\<close>

theorem sample_weights_unit:
  assumes "i < length samples" "\<forall>s\<in>set samples. f_within 400 (sample_distance s)"
  shows "f_finite (sample_weights samples ! i) \<and> 0 < f_val (sample_weights samples ! i) \<and> f_val (sample_weights samples ! i) \<le> 1 \<and>
    ((\<forall>s\<in>set samples. f_val (sample_distance (samples ! i)) \<le> f_val (sample_distance s)) \<longrightarrow> f_val (sample_weights samples ! i) = 1)"
proof -
  define d where "d = map sample_distance samples"
  define m q where "m = f_sort d ! 0" and "q = f_sort d ! (length samples div 2)"
  define scale0 where "scale0 = f_div (f_sub q m) (f_lit (7 / 10))"
  define scale where "scale = (if f_less scale0 EstimateQuantumSec then EstimateQuantumSec else scale0)"
  have fin: "list_all f_finite d" using assms(2) by (auto simp: d_def list_all_iff f_within_def)
  have l: "0 < length d" "length samples div 2 < length d" using assms(1) by (auto simp: d_def)
  have "m \<in> set d" "q \<in> set d" using f_sort_bounds(1) [OF fin l(1)] f_sort_bounds(1) [OF fin l(2)] by (simp_all add: m_def q_def)
  then have mq: "f_within 400 m" "f_within 400 q" using assms(2) by (auto simp: d_def)
  have least: "f_val m \<le> f_val a" if "a \<in> set d" for a using f_sort_bounds(2) [OF fin l(1) that] by (simp add: m_def)
  have s: "f_within 401 (f_sub q m)" using f_within_add [of 400 q "f_uminus m"] mq by (simp add: f_sub_def)
  have "\<bar>f_val (f_sub q m) / f_val (f_lit (7 / 10))\<bar> \<le> 2 powi 401 / (1 / 2)"
    unfolding abs_divide using s seven_tenths(2) by (intro frac_le) (simp_all add: f_within_def)
  also have "\<dots> \<le> 2 powi 1023" using powi_2_mono [of 402 1023] by simp
  finally have "f_finite scale0" unfolding scale0_def
    using f_div_val [of "f_sub q m" "f_lit (7 / 10)"] s seven_tenths by (simp add: f_within_def)
  then have sc: "f_finite scale" "2 powi (- 30) \<le> f_val scale"
    using quantum_val f_less_val [of scale0 EstimateQuantumSec] by (auto simp: scale_def)
  have w: "sample_weights samples ! i = weight_of m scale (d ! i)"
    using assms(1) by (simp add: sample_weights_def Let_def d_def m_def q_def scale0_def scale_def weight_of_def)
  have di: "d ! i \<in> set d" using assms(1) by (simp add: d_def)
  then have "f_within 400 (d ! i)" using assms(2) by (auto simp: d_def)
  note U = weight_of_unit [OF this mq(1) least [OF di] sc]
  have "f_val (d ! i) = f_val m" if "\<forall>s\<in>set samples. f_val (sample_distance (samples ! i)) \<le> f_val (sample_distance s)"
  proof -
    have "f_val (d ! i) \<le> f_val m" using that \<open>m \<in> set d\<close> assms(1) by (auto simp: d_def)
    then show ?thesis using least [OF di] by simp
  qed
  then show ?thesis using U unfolding w by blast
qed

definition sample_track :: EstimateTrack where
  "sample_track = map (\<lambda>i. \<lparr> es_RawMid = of_int (10 ^ 9 * i), es_PhaseErrorSlowPositive = Fin (1 / 2), es_RoundTripDelay = Fin 0,
     es_RootDelay = Fin 0, es_RootDispersion = Fin 0 \<rparr>) [1, 2, 3]"

theorem Fit_drops_oldest_until_accepted_witness:
  "\<exists>j. j + 3 \<le> length sample_track \<and>
    Fit sample_exp sample_lgamma (\<lambda>_. id) sample_track = fitSamples sample_exp sample_lgamma id (drop j sample_track)"
  using Fit_drops_oldest_until_accepted [of sample_track sample_exp sample_lgamma "\<lambda>_. id"] by (auto simp: sample_track_def)

theorem sample_weights_unit_witness: "f_val (sample_weights sample_track ! 1) = 1"
proof -
  have "f_add (f_add (Fin 0) (f_div (Fin 0) (Fin 2))) (f_div (Fin 0) (Fin 2)) = Fin 0" by code_simp
  then have d: "\<forall>s\<in>set sample_track. sample_distance s = Fin 0" by (simp add: sample_track_def sample_distance_def)
  have "1 < length sample_track" "\<forall>s\<in>set sample_track. f_within 400 (sample_distance s)"
    using d by (auto simp: f_within_def) (simp add: sample_track_def)
  note U = sample_weights_unit [OF this]
  have "sample_track ! 1 \<in> set sample_track" using \<open>1 < length sample_track\<close> by (rule nth_mem)
  then show ?thesis using U d by simp
qed

end
