(* ===== verification/Telemetry.thy ===== *)
theory Telemetry
  imports CoreTypes
begin

text \<open>
  The counters of package telemetry (\<open>telemetry/telemetry.go\<close>). Each operation is one atomic access or one critical
  section of the lock, so a history of concurrent calls is a sequence of them.
\<close>

record HealthState =
  AcquisitionHealthy :: bool
  SecurityHealthy :: bool
  EstimateHealthy :: bool
  AssuranceHealthy :: bool
  PublicClockHealthy :: bool

record Metrics =
  NowCallsTotal :: u64
  CommitWaitSuccess :: u64
  CommitWaitFail :: u64
  PublicationGen :: u64
  LastPastWatermark :: i64
  LastSymmetricEpsNs :: u64
  Health :: HealthState

definition GlobalMetrics :: Metrics where
  "GlobalMetrics =
    \<lparr> NowCallsTotal = 0, CommitWaitSuccess = 0, CommitWaitFail = 0, PublicationGen = 0, LastPastWatermark = 0,
      LastSymmetricEpsNs = 0,
      Health = \<lparr> AcquisitionHealthy = True, SecurityHealthy = True, EstimateHealthy = False, AssuranceHealthy = False,
                 PublicClockHealthy = True \<rparr> \<rparr>"

definition RecordNowCall :: "Metrics \<Rightarrow> Metrics" where
  "RecordNowCall m = m\<lparr> NowCallsTotal := NowCallsTotal m + 1 \<rparr>"

definition UpdateAssuranceWatermark :: "Metrics \<Rightarrow> GstInstant \<Rightarrow> Metrics" where
  "UpdateAssuranceWatermark m wm = m\<lparr> LastPastWatermark := wm \<rparr>"

definition UpdateSymmetricEpsilon :: "Metrics \<Rightarrow> ErrorNs \<Rightarrow> Metrics" where
  "UpdateSymmetricEpsilon m eps = m\<lparr> LastSymmetricEpsNs := eps \<rparr>"

definition SetHealth :: "Metrics \<Rightarrow> HealthState \<Rightarrow> Metrics" where
  "SetHealth m h = m\<lparr> Health := h \<rparr>"

definition GetHealth :: "Metrics \<Rightarrow> HealthState" where
  "GetHealth m = Health m"

datatype metrics_call = NowCall | Watermark GstInstant | Epsilon ErrorNs | NewHealth HealthState

fun metrics_step :: "Metrics \<Rightarrow> metrics_call \<Rightarrow> Metrics" where
  "metrics_step m NowCall = RecordNowCall m"
| "metrics_step m (Watermark wm) = UpdateAssuranceWatermark m wm"
| "metrics_step m (Epsilon eps) = UpdateSymmetricEpsilon m eps"
| "metrics_step m (NewHealth h) = SetHealth m h"

text \<open>In any interleaving the counter has counted every \<open>Now\<close> call, up to its wrap at \<open>2^64\<close>, and the health served is the
  one set last.\<close>

fun last_health :: "HealthState \<Rightarrow> metrics_call list \<Rightarrow> HealthState" where
  "last_health h [] = h"
| "last_health h (NewHealth h' # cs) = last_health h' cs"
| "last_health h (_ # cs) = last_health h cs"

lemma metrics_count_calls: "NowCallsTotal (foldl metrics_step m cs) = NowCallsTotal m + of_nat (count_list cs NowCall)"
proof (induction cs arbitrary: m)
  case (Cons c cs)
  then show ?case
    by (cases c) (simp_all add: RecordNowCall_def UpdateAssuranceWatermark_def UpdateSymmetricEpsilon_def SetHealth_def)
qed simp

lemma metrics_health_last: "GetHealth (foldl metrics_step m cs) = last_health (GetHealth m) cs"
proof (induction cs arbitrary: m)
  case (Cons c cs)
  then show ?case
    by (cases c)
      (simp_all add: GetHealth_def RecordNowCall_def UpdateAssuranceWatermark_def UpdateSymmetricEpsilon_def SetHealth_def)
qed simp

end
