(* ===== verification/Spec2Isabelle.thy ===== *)
theory Spec2Isabelle
  imports Sync Scheduler Track Telemetry
begin

text \<open>
  Verification of gstime, a trusted-time library in Go: a clock service that serves intervals
  guaranteed to contain true time, synchronized from NTP and NTS servers.

  \<^bold>\<open>Parts and interaction.\<close> A raw counter (\<open>clock/raw*.go\<close>), watched by a continuity guard
  (\<open>clock/continuity.go\<close>), is the only local time base. A round of queries measures servers
  (\<open>ntp/\<close>, authenticated by \<open>nts/\<close> with the AEADs of \<open>internal/siv/\<close>); each measurement is an
  interval of POSIX time that the leap history (\<open>core/leap.go\<close>) turns into continuous instants. The
  intervals of a fault domain are intersected and the domains' intervals are combined into an
  N-F consensus hull (\<open>source/assurance.go\<close>). The assurance clock (\<open>assurance/assurance.go\<close>)
  anchors the hull to the raw counter, widens it with the counter's rate bounds as time passes, and
  runs the synced, holdover, desync status machine. Writers publish immutable snapshots through a guard
  (\<open>publish/\<close>); the service (\<open>service.go\<close>) reads the latest one to answer \<open>Now\<close>, \<open>After\<close>,
  \<open>Before\<close>, \<open>PastWatermark\<close>, \<open>CommitWait\<close>, \<open>NowUtc\<close> and the monotonic public clock
  (\<open>clock/public.go\<close>). Configuration (\<open>config/config.go\<close>) sets the limits. The sync engine (\<open>sync.go\<close>)
  runs the rounds: a worker that queries all sources, brings their intervals to one reading, and publishes
  the consensus or starts a holdover.

  \<^bold>\<open>Theories.\<close> Each opens with its own description.
  \<^item> \<open>Prelude\<close>: Go integers as machine words, signed reading, truncating division, panics.
  \<^item> \<open>CoreTypes\<close>: \<open>core/types.go\<close>, and the error values of all packages with \<open>errors.Is\<close>.
  \<^item> \<open>FixedPoint\<close>: \<open>core/fixedpoint.go\<close>, the Q16.48 products and 128-bit arithmetic.
  \<^item> \<open>Float64\<close>: the rounding of integers to float64 that integer code relies on; \<open>Floats\<close>: the type float64 of Go
    with its operations, conversions and functions of package \<open>math\<close>, and the arithmetic of rounding errors.
  \<^item> \<open>Rates\<close>: the ppm conversions of \<open>core/fixedpoint.go\<close>.
  \<^item> \<open>Smear\<close>: segments, plans and the planner of \<open>clock/public.go\<close>, on the error analysis of \<open>SmearError\<close>.
  \<^item> \<open>Bytes\<close>: \<open>encoding/binary\<close> and slices; the locale \<open>field_codec\<close> of a fixed-width field, interpreted by all
    the integer encodings (here and in \<open>Siv\<close>) and used by every codec.
  \<^item> \<open>Assurance\<close>: \<open>PropagateAnchor\<close> and the status machine, as a record \<open>AssuranceState\<close> and
    one definition per method; \<open>assurance_step\<close> and \<open>truthful_run\<close> are its step relations.
  \<^item> \<open>Consensus\<close>: \<open>source/assurance.go\<close>.
  \<^item> \<open>Clock\<close>: raw backends, guard, estimate mapping, public clock; the guard and the public clock
    also at the granularity of their atomic operations.
  \<^item> \<open>Runs\<close>, \<open>RunsAccuracy\<close>, \<open>Track\<close>: \<open>source/estimate.go\<close>, the runs test, the errors of its logarithms, and the estimate
    track with its regression.
  \<^item> \<open>Scheduler\<close>, \<open>Telemetry\<close>: \<open>ntp/scheduler.go\<close>, \<open>telemetry/telemetry.go\<close>.
  \<^item> \<open>Publish\<close>: snapshots and the publication guard.
  \<^item> \<open>Leap\<close>: the calendar of package \<open>time\<close>, the leap-history codec, the conversions.
  \<^item> \<open>Service\<close>: the clock service. Each call of the raw clock is an argument of the operation that makes it;
    a waiting loop takes the list of its turns; \<open>service_run\<close> are the runs of the service.
  \<^item> \<open>Ntp\<close>, \<open>Measurement\<close>: \<open>ntp/packet.go\<close>, \<open>ntp/extension.go\<close>; \<open>ntp/measurement.go\<close>,
    \<open>ntp/slot.go\<close>.
  \<^item> \<open>Siv\<close>: CMAC, AES-SIV-CMAC and AES-GCM-SIV over an arbitrary block cipher; the locale \<open>siv_aead\<close> states
    what the packet code needs of an AEAD and is interpreted by both.
  \<^item> \<open>NtsKe\<close>, \<open>NtsPacket\<close>: key exchange records and response reader, cookie jar; request building and
    response verification.
  \<^item> \<open>Config\<close>: limits and canonical JSON.
  \<^item> \<open>Query\<close>: the default querier of \<open>sync.go\<close>, from a datagram to a measurement in continuous time;
    \<open>query_env\<close>, \<open>tls_env\<close> and \<open>crypto_env\<close> are what its calls return.
  \<^item> \<open>Sync\<close>: the engine of \<open>sync.go\<close>: construction, a round, the worker's life cycle (\<open>sync_step\<close>), and
    \<open>engine_run\<close>, the runs of an engine together with the clients of its service.

  \<^bold>\<open>What the lemmas show.\<close> True time is a function \<open>\<tau>\<close> of the true raw coordinate; \<open>reads\<close> says that
  a reading is within its error bound, \<open>rate_ok\<close> that the oscillator stays within the scale
  envelope, and \<open>encloses\<close> that an interval contains an instant. The safety chain: a measurement contains true time
  (\<open>Measurement\<close>), the consensus of domains of which at most F lie contains it (\<open>Consensus\<close>),
  propagation and the status machine keep it (\<open>Assurance\<close>), and so do publication and every read of
  the service (\<open>Service\<close>); \<open>synchronized_clock_serves_true_time\<close> joins the links for a running engine
  (\<open>Sync\<close>), and \<open>measured_response_contains_true_time\<close> and \<open>nts_answers_are_authenticated\<close> say what
  the answers it starts from are worth (\<open>Query\<close>). Beside it: exact characterisations (coverage sweep, era unfolding), codecs proved
  to be bijections between their wire format and their values, the CMAC and the carry-less product equal to their
  specifications, single use of cookies, linearizability of the public clock, termination of the
  waits, and the errors. The floating-point code is verified in exact binary64: a smear plan ends at its target
  (\<open>smear_plan_reaches_target\<close>), the directed ppm conversions are directed below 1024 ppm (\<open>RateFromPpm_directed\<close>), the
  p-value of the runs test is never materially below the exact one (\<open>runs_pvalue_not_below_exact\<close>), and the poll
  scheduler stays within its bounds whatever it is fed (\<open>poll_stays_between_bounds\<close>).

  \<^bold>\<open>Bounds.\<close> Machine integers wrap as in Go; where a theorem needs magnitudes it states them.
  Loops are structural recursions on the remaining input or terminate by a proved measure; only
  the waiting loops and the engine's polling loop, which the environment drives, are functions of a finite list
  of turns, and \<open>CommitWait_returns\<close> and \<open>loop_returns\<close> show that they end once the context is done.

  \<^bold>\<open>Floating point.\<close> Finite values are rationals, every operation rounds to nearest even, and NaN, infinities and signed
  zeros are values of their own. Products are not fused with sums and conversions are those of amd64; on
  architectures where the compiler fuses, results may differ in the last place. The transcendental functions \<open>Exp\<close>,
  \<open>Lgamma\<close> and \<open>Log2\<close> are arguments: the property of the runs test asks of the first two that each is correct up to \<open>2^-50\<close>
  where the code calls it (\<open>Exp_accurate\<close>, \<open>Lgamma_accurate\<close>) and derives from it that the exponentials of log-binomials
  come within 2200 roundings of the integers they stand for; the scheduler asks nothing.

  \<^bold>\<open>Not modelled.\<close> The type aliases of the root package and the example program. The block
  cipher, SHA-256, TLS and its exporter, the network, contexts, the wall clock, random bytes, the parser of IP addresses and the JSON text of scalars
  are library code and enter as arguments.
\<close>

end
